(* ===== verification/Prelude.thy ===== *)
theory Prelude
  imports Main "HOL-Library.Word"
begin

text \<open>
  Shared ground of the development: the machine integer types of
  \<^verbatim>\<open>src/core/types.h\<close>, the shape of the bounded table loops the kernel is written in
  (\<open>first_index\<close>), the circular-buffer view (\<open>ring_list\<close>), the skip-zero generation
  counter (\<open>next_gen\<close>), and the two interfaces several components provide: a bounded
  first-in first-out queue and a slot table whose identifiers carry a generation.
\<close>

unbundle bit_operations_syntax

section \<open>Machine integers\<close>

type_synonym u8 = "8 word"
type_synonym u16 = "16 word"
type_synonym u32 = "32 word"
type_synonym u64 = "64 word"

named_theorems table_simps \<open>length and update facts of the kernel tables\<close>
named_theorems bit_facts \<open>facts on masks and bit tests\<close>

section \<open>Bounded table loops\<close>

text \<open>
  \<^verbatim>\<open>for (index = 0; index < N; index++) if (P(table[index])) break;\<close>: the first index of a
  table whose entry satisfies \<open>P\<close>.
\<close>

fun first_index :: "('a \<Rightarrow> bool) \<Rightarrow> 'a list \<Rightarrow> nat option" where
  "first_index P [] = None"
| "first_index P (x # xs) = (if P x then Some 0 else map_option Suc (first_index P xs))"

lemma first_index_None: "first_index P xs = None \<longleftrightarrow> (\<forall>x \<in> set xs. \<not> P x)"
  by (induction xs) auto

lemma first_index_Some:
  "first_index P xs = Some i \<longleftrightarrow> i < length xs \<and> P (xs ! i) \<and> (\<forall>j < i. \<not> P (xs ! j))"
proof (induction xs arbitrary: i)
  case Nil
  then show ?case by simp
next
  case (Cons x xs)
  show ?case
  proof (cases "P x")
    case True
    then show ?thesis by (auto dest: spec [of _ 0])
  next
    case False
    with Cons show ?thesis
      by (cases i) (auto simp: less_Suc_eq_0_disj)
  qed
qed

lemma first_indexD:
  assumes "first_index P xs = Some i"
  shows "i < length xs" and "P (xs ! i)" and "\<And>j. j < i \<Longrightarrow> \<not> P (xs ! j)"
  using assms by (auto simp: first_index_Some)

lemma first_index_exists: "i < length xs \<Longrightarrow> P (xs ! i) \<Longrightarrow> \<exists>j. first_index P xs = Some j"
  by (metis first_index_None not_Some_eq nth_mem)

lemma first_index_append:
  "first_index P (xs @ ys) = (case first_index P xs of Some k \<Rightarrow> Some k
     | None \<Rightarrow> map_option (\<lambda>k. length xs + k) (first_index P ys))"
  by (cases "first_index P ys"; induction xs) (auto split: option.splits)

lemma first_index_update:
  assumes "first_index P xs = Some k" and "P v"
  shows "first_index P (xs[k := v]) = Some k"
  using first_indexD [OF assms(1)] assms(2) by (auto simp: first_index_Some)

lemma fold_frame: "(\<And>x s. x \<in> set xs \<Longrightarrow> f (g x s) = f s) \<Longrightarrow> f (fold g xs s) = f s"
  by (induction xs arbitrary: s) auto

lemma fold_invariant: "(\<And>x s. x \<in> set xs \<Longrightarrow> P s \<Longrightarrow> P (g x s)) \<Longrightarrow> P s \<Longrightarrow> P (fold g xs s)"
  by (induction xs arbitrary: s) auto

text \<open>How many entries of a table satisfy a predicate, and how one update changes the count.\<close>

definition count_if :: "('a \<Rightarrow> bool) \<Rightarrow> 'a list \<Rightarrow> nat" where
  "count_if P xs = length (filter P xs)"

lemma count_if_simps [simp]:
  "count_if P [] = 0"
  "count_if P (x # xs) = (if P x then Suc (count_if P xs) else count_if P xs)"
  by (simp_all add: count_if_def)

lemma count_if_append: "count_if P (xs @ ys) = count_if P xs + count_if P ys"
  by (simp add: count_if_def)

lemma count_if_update:
  assumes "i < length xs"
  shows "count_if P (xs[i := v]) + (if P (xs ! i) then 1 else 0)
       = count_if P xs + (if P v then 1 else 0)"
  using assms
proof (induction xs arbitrary: i)
  case Nil
  then show ?case by simp
next
  case (Cons x xs)
  show ?case
  proof (cases i)
    case 0
    then show ?thesis by simp
  next
    case (Suc j)
    with Cons.prems have "j < length xs" by simp
    from Cons.IH [OF this] Suc show ?thesis by auto
  qed
qed

lemma count_if_zero: "count_if P xs = 0 \<longleftrightarrow> (\<forall>x \<in> set xs. \<not> P x)"
  by (simp add: count_if_def filter_empty_conv)

lemma count_if_le_length: "count_if P xs \<le> length xs"
  by (simp add: count_if_def)

lemma count_if_pos: "i < length xs \<Longrightarrow> P (xs ! i) \<Longrightarrow> 0 < count_if P xs"
  using count_if_zero nth_mem by fastforce

lemma count_if_cong: "(\<And>x. x \<in> set xs \<Longrightarrow> P x = Q x) \<Longrightarrow> count_if P xs = count_if Q xs"
  by (simp add: count_if_def cong: filter_cong)

section \<open>Circular buffers\<close>

text \<open>
  The kernel's queues keep a head index and a count over a fixed array. \<open>ring_list\<close> reads
  the stored elements out in order.
\<close>

definition ring_list :: "'a list \<Rightarrow> nat \<Rightarrow> nat \<Rightarrow> 'a list" where
  "ring_list buf head count = map (\<lambda>k. buf ! ((head + k) mod length buf)) [0..<count]"

lemma length_ring_list [simp]: "length (ring_list buf head count) = count"
  by (simp add: ring_list_def)

lemma ring_list_empty [simp]: "ring_list buf head 0 = []"
  by (simp add: ring_list_def)

lemma ring_list_eq_Nil [simp]: "ring_list buf head count = [] \<longleftrightarrow> count = 0"
  by (simp add: ring_list_def)

lemma ring_index_inj:
  fixes n :: nat
  assumes "j < k" and "k < n"
  shows "(h + j) mod n \<noteq> (h + k) mod n"
proof
  assume "(h + j) mod n = (h + k) mod n"
  then have "(h + k) mod n = (h + j) mod n" by simp
  moreover from assms(1) have "h + j \<le> h + k" by simp
  ultimately have "n dvd (h + k) - (h + j)"
    by (rule mod_eq_dvd_iff_nat [THEN iffD1, rotated])
  then have "n dvd k - j" by simp
  with assms show False by (auto dest: dvd_imp_le)
qed

lemma ring_list_put:
  assumes "count < length buf"
  shows "ring_list (buf[(head + count) mod length buf := x]) head (Suc count)
       = ring_list buf head count @ [x]"
proof -
  let ?n = "length buf"
  have keep: "buf[(head + count) mod ?n := x] ! ((head + k) mod ?n) = buf ! ((head + k) mod ?n)"
    if "k < count" for k
    using ring_index_inj [OF that assms, of head] by simp
  have last: "buf[(head + count) mod ?n := x] ! ((head + count) mod ?n) = x"
    using assms by (intro nth_list_update_eq mod_less_divisor) linarith
  show ?thesis using keep last by (simp add: ring_list_def)
qed

lemma ring_list_get:
  assumes "0 < count" and "head < length buf"
  shows "ring_list buf head count
       = buf ! head # ring_list buf ((head + 1) mod length buf) (count - 1)"
proof -
  let ?n = "length buf"
  have shift: "((head + 1) mod ?n + k) mod ?n = (head + Suc k) mod ?n" for k
    by (metis add.assoc mod_add_left_eq plus_1_eq_Suc)
  have "[0..<count] = 0 # map Suc [0..<count - 1]"
    using assms(1) by (metis Suc_diff_1 map_Suc_upt upt_conv_Cons)
  then have "ring_list buf head count
      = buf ! (head mod ?n) # map (\<lambda>k. buf ! ((head + Suc k) mod ?n)) [0..<count - 1]"
    by (simp add: ring_list_def o_def)
  then show ?thesis using assms(2)
    by (simp only: ring_list_def shift mod_less [of head])
qed

section \<open>Generation counters\<close>

text \<open>
  \<^verbatim>\<open>generation++; if (!generation) generation = 1;\<close> on a counter that wraps at \<open>N\<close>: the
  value 0 never names a live slot.
\<close>

definition next_gen :: "nat \<Rightarrow> nat \<Rightarrow> nat" where
  "next_gen N g = (let g' = (g + 1) mod N in if g' = 0 then 1 else g')"

lemma next_gen_bounds: "2 \<le> N \<Longrightarrow> 0 < next_gen N g \<and> next_gen N g < N"
  by (auto simp: next_gen_def Let_def)

lemma next_gen_closed:
  assumes "2 \<le> N" and "0 < g" and "g < N"
  shows "next_gen N g = 1 + g mod (N - 1)"
proof (cases "g = N - 1")
  case True
  with assms show ?thesis by (simp add: next_gen_def)
next
  case False
  with assms show ?thesis by (simp add: next_gen_def)
qed

lemma next_gen_funpow:
  assumes "2 \<le> N" and "0 < g" and "g < N"
  shows "(next_gen N ^^ k) g = 1 + (g - 1 + k) mod (N - 1)"
proof (induction k)
  case 0
  from assms show ?case by simp
next
  case (Suc k)
  have "(g - 1 + k) mod (N - 1) < N - 1" using assms by (intro mod_less_divisor) linarith
  then have "next_gen N (1 + (g - 1 + k) mod (N - 1)) = 1 + (1 + (g - 1 + k) mod (N - 1)) mod (N - 1)"
    using assms(1) by (intro next_gen_closed) linarith+
  also have "\<dots> = 1 + (g - 1 + Suc k) mod (N - 1)"
    by (simp add: mod_simps)
  finally show ?case using Suc by simp
qed

text \<open>A generation does not come back before the counter has gone round once.\<close>

lemma next_gen_funpow_neq:
  assumes "2 \<le> N" and "0 < g" and "g < N" and "0 < k" and "k < N - 1"
  shows "(next_gen N ^^ k) g \<noteq> g"
proof
  assume "(next_gen N ^^ k) g = g"
  with assms have "(g - 1 + k) mod (N - 1) = (g - 1 + 0) mod (N - 1)"
    by (simp add: next_gen_funpow)
  moreover have "(g - 1 + 0) mod (N - 1) \<noteq> (g - 1 + k) mod (N - 1)"
    using assms(4,5) by (rule ring_index_inj)
  ultimately show False by simp
qed

lemma next_gen_neq: "3 \<le> N \<Longrightarrow> 0 < g \<Longrightarrow> g < N \<Longrightarrow> next_gen N g \<noteq> g"
  using next_gen_funpow_neq [of N g 1] by simp

text \<open>The word version the C code runs, and its reading as a natural number.\<close>

definition bump_gen :: "'a::len word \<Rightarrow> 'a word" where
  "bump_gen g = (if g + 1 = 0 then 1 else g + 1)"

lemma unat_bump_gen: "unat (bump_gen (g :: 'a::len word)) = next_gen (2 ^ LENGTH('a)) (unat g)"
proof -
  have "unat (g + 1) = (unat g + 1) mod 2 ^ LENGTH('a)"
    by (simp add: unat_word_ariths unsigned_1)
  moreover have "g + 1 = 0 \<longleftrightarrow> unat (g + 1) = 0" by (simp only: unat_eq_zero)
  ultimately show ?thesis by (simp add: bump_gen_def next_gen_def Let_def)
qed

lemma bump_gen_nonzero: "bump_gen g \<noteq> 0"
  by (simp add: bump_gen_def)

section \<open>Deadlines on a wrapping clock\<close>

text \<open>\<^verbatim>\<open>(i32)(now - deadline) < 0\<close>: the deadline is still ahead.\<close>

definition not_due :: "u32 \<Rightarrow> u32 \<Rightarrow> bool" where
  "not_due now deadline \<longleftrightarrow> sint (now - deadline) < 0"

lemma not_due_iff: "not_due now deadline \<longleftrightarrow> 2 ^ 31 \<le> unat (now - deadline)"
proof -
  have "not_due now deadline \<longleftrightarrow> bit (now - deadline) 31" using bit_last_iff [of "now - deadline"] by (simp add: not_due_def)
  also have "\<dots> \<longleftrightarrow> bit (unat (now - deadline)) 31" by (simp add: bit_unsigned_iff)
  also have "\<dots> \<longleftrightarrow> odd (unat (now - deadline) div 2 ^ 31)" by (rule bit_iff_odd)
  also have "\<dots> \<longleftrightarrow> 0 < unat (now - deadline) div 2 ^ 31"
  proof -
    have "unat (now - deadline) div 2 ^ 31 < 2"
      using unsigned_less [of "now - deadline"] by (intro less_mult_imp_div_less) simp
    then have "unat (now - deadline) div 2 ^ 31 \<in> {0, 1}" by auto
    then show ?thesis by auto
  qed
  also have "\<dots> \<longleftrightarrow> 2 ^ 31 \<le> unat (now - deadline)" by (simp only: div_greater_zero_iff) simp
  finally show ?thesis .
qed

section \<open>Masks\<close>

lemma mask_subset: "(a :: u32) AND NOT b = 0 \<longleftrightarrow> (\<forall>n. bit a n \<longrightarrow> bit b n)"
  by (auto simp: bit_eq_iff bit_simps dest: bit_imp_le_length [where 'a = 32, simplified])

lemma mask_covers: "(a :: u32) AND b = b \<longleftrightarrow> (\<forall>n. bit b n \<longrightarrow> bit a n)"
  by (auto simp: bit_eq_iff bit_simps dest: bit_imp_le_length [where 'a = 32, simplified])

end
