(* ===== verification/Interfaces.thy ===== *)
theory Interfaces
  imports Prelude
begin

text \<open>
  The contracts several components of the kernel share, as locales. \<open>bounded_fifo\<close> is the
  promise of the notification queue of a bridge and of the byte ring of a pipe;
  \<open>id_table\<close> and its extension \<open>gen_table\<close> are the promise of every table whose entries
  are named by an identifier made of a slot and a generation (completion requests, packet
  buffers, capability handles). Clients are proved once here, over arbitrary sequences of
  operations; the components interpret the locales on their own definitions.
\<close>

section \<open>Bounded first-in first-out queues\<close>

datatype 'a fifo_op = Put 'a | Get

text \<open>
  A run of operations on a queue: the elements that were accepted, the elements that were
  delivered, and the queue at the end. A put on a full queue and a get on an empty one leave
  the queue as it is.
\<close>

definition fifo_step :: "('a \<Rightarrow> 'q \<Rightarrow> 'q option) \<Rightarrow> ('q \<Rightarrow> ('a \<times> 'q) option) \<Rightarrow> 'a fifo_op \<Rightarrow> 'q
    \<Rightarrow> 'a list \<times> 'a list \<times> 'q" where
  "fifo_step put get op q =
     (case op of
        Put x \<Rightarrow> (case put x q of None \<Rightarrow> ([], [], q) | Some q' \<Rightarrow> ([x], [], q'))
      | Get \<Rightarrow> (case get q of None \<Rightarrow> ([], [], q) | Some (x, q') \<Rightarrow> ([], [x], q')))"

fun fifo_run :: "('a \<Rightarrow> 'q \<Rightarrow> 'q option) \<Rightarrow> ('q \<Rightarrow> ('a \<times> 'q) option) \<Rightarrow> 'a fifo_op list \<Rightarrow> 'q
    \<Rightarrow> 'a list \<times> 'a list \<times> 'q" where
  "fifo_run put get [] q = ([], [], q)"
| "fifo_run put get (op # ops) q =
     (case fifo_step put get op q of (i, d, q') \<Rightarrow>
      case fifo_run put get ops q' of (ins, outs, r) \<Rightarrow> (i @ ins, d @ outs, r))"

locale bounded_fifo =
  fixes contents :: "'q \<Rightarrow> 'a list"
    and invar :: "'q \<Rightarrow> bool"
    and capacity :: nat
    and put :: "'a \<Rightarrow> 'q \<Rightarrow> 'q option"
    and get :: "'q \<Rightarrow> ('a \<times> 'q) option"
  assumes put_full: "invar q \<Longrightarrow> put x q = None \<longleftrightarrow> capacity \<le> length (contents q)"
    and put_invar: "invar q \<Longrightarrow> put x q = Some q' \<Longrightarrow> invar q'"
    and put_contents: "invar q \<Longrightarrow> put x q = Some q' \<Longrightarrow> contents q' = contents q @ [x]"
    and get_empty: "invar q \<Longrightarrow> get q = None \<longleftrightarrow> contents q = []"
    and get_invar: "invar q \<Longrightarrow> get q = Some (x, q') \<Longrightarrow> invar q'"
    and get_contents: "invar q \<Longrightarrow> get q = Some (x, q') \<Longrightarrow> contents q = x # contents q'"
begin

lemma step_spec:
  assumes "invar q" and "fifo_step put get op q = (i, d, r)"
  shows "invar r" and "contents q @ i = d @ contents r"
    and "length (contents q) \<le> capacity \<Longrightarrow> length (contents r) \<le> capacity"
proof -
  have "invar r \<and> contents q @ i = d @ contents r
    \<and> (length (contents q) \<le> capacity \<longrightarrow> length (contents r) \<le> capacity)"
  proof (cases op)
    case (Put x)
    show ?thesis
    proof (cases "put x q")
      case None
      with Put assms show ?thesis by (auto simp: fifo_step_def)
    next
      case (Some q')
      have "length (contents q) < capacity"
        using put_full [OF assms(1), of x] Some by auto
      with Put Some assms(2) put_contents [OF assms(1) Some] put_invar [OF assms(1) Some]
      show ?thesis by (auto simp: fifo_step_def)
    qed
  next
    case Get
    show ?thesis
    proof (cases "get q")
      case None
      with Get assms show ?thesis by (auto simp: fifo_step_def)
    next
      case (Some p)
      obtain x q' where p: "p = (x, q')" by fastforce
      have "contents q = x # contents q'" "invar q'"
        using get_contents [OF assms(1)] get_invar [OF assms(1)] Some p by blast+
      with Get Some p assms(2) show ?thesis by (auto simp: fifo_step_def)
    qed
  qed
  then show "invar r" and "contents q @ i = d @ contents r"
    and "length (contents q) \<le> capacity \<Longrightarrow> length (contents r) \<le> capacity" by auto
qed

text \<open>
  Nothing is lost, duplicated or reordered: what was stored followed by what was accepted is
  what was delivered followed by what is still stored.
\<close>

lemma run_order:
  "invar q \<Longrightarrow> fifo_run put get ops q = (ins, outs, r) \<Longrightarrow> contents q @ ins = outs @ contents r"
proof (induction ops arbitrary: q ins outs r)
  case Nil
  then show ?case by simp
next
  case (Cons op ops)
  from Cons.prems(2) obtain i d q' ins' outs' where
    st: "fifo_step put get op q = (i, d, q')" and
    rn: "fifo_run put get ops q' = (ins', outs', r)" and
    eqs: "ins = i @ ins'" "outs = d @ outs'"
    by (auto split: prod.splits)
  have "contents q' @ ins' = outs' @ contents r"
    using step_spec(1) [OF Cons.prems(1) st] rn by (rule Cons.IH)
  with step_spec(2) [OF Cons.prems(1) st] eqs show ?case
    by (metis append.assoc)
qed

lemma run_bounded:
  "invar q \<Longrightarrow> length (contents q) \<le> capacity \<Longrightarrow> fifo_run put get ops q = (ins, outs, r)
     \<Longrightarrow> invar r \<and> length (contents r) \<le> capacity"
proof (induction ops arbitrary: q ins outs r)
  case Nil
  then show ?case by simp
next
  case (Cons op ops)
  from Cons.prems(3) obtain i d q' ins' outs' where
    st: "fifo_step put get op q = (i, d, q')" and
    rn: "fifo_run put get ops q' = (ins', outs', r)"
    by (auto split: prod.splits)
  show ?case
    using step_spec(1) [OF Cons.prems(1) st] step_spec(3) [OF Cons.prems(1) st Cons.prems(2)] rn
    by (rule Cons.IH)
qed

end

section \<open>Tables of generation-tagged identifiers\<close>

datatype ('a, 'id, 't) table_op = Alloc 'a | Free 'id | Touch 't

text \<open>
  One operation on a table, with the identifier it handed out (allocation) or retired
  (release). An operation the table refuses leaves it as it is.
\<close>

definition table_step :: "('a \<Rightarrow> 's \<Rightarrow> ('id \<times> 's) option) \<Rightarrow> ('id \<Rightarrow> 's \<Rightarrow> 's option)
    \<Rightarrow> ('t \<Rightarrow> 's \<Rightarrow> 's) \<Rightarrow> ('a, 'id, 't) table_op \<Rightarrow> 's \<Rightarrow> 'id list \<times> 'id list \<times> 's" where
  "table_step alloc free touch op s =
     (case op of
        Alloc a \<Rightarrow> (case alloc a s of None \<Rightarrow> ([], [], s) | Some (x, s') \<Rightarrow> ([x], [], s'))
      | Free x \<Rightarrow> (case free x s of None \<Rightarrow> ([], [], s) | Some s' \<Rightarrow> ([], [x], s'))
      | Touch t \<Rightarrow> ([], [], touch t s))"

fun table_run :: "('a \<Rightarrow> 's \<Rightarrow> ('id \<times> 's) option) \<Rightarrow> ('id \<Rightarrow> 's \<Rightarrow> 's option)
    \<Rightarrow> ('t \<Rightarrow> 's \<Rightarrow> 's) \<Rightarrow> ('a, 'id, 't) table_op list \<Rightarrow> 's \<Rightarrow> 'id list \<times> 'id list \<times> 's" where
  "table_run alloc free touch [] s = ([], [], s)"
| "table_run alloc free touch (op # ops) s =
     (case table_step alloc free touch op s of (g, r, s') \<Rightarrow>
      case table_run alloc free touch ops s' of (gs, rs, t) \<Rightarrow> (g @ gs, r @ rs, t))"

text \<open>
  The contract: the live identifiers of a table behave as a set. An allocation adds one that
  was not there, a release removes one that was, and nothing else changes the set.
\<close>

locale id_table =
  fixes invar :: "'s \<Rightarrow> bool"
    and live :: "'s \<Rightarrow> 'id set"
    and alloc :: "'a \<Rightarrow> 's \<Rightarrow> ('id \<times> 's) option"
    and free :: "'id \<Rightarrow> 's \<Rightarrow> 's option"
    and touch :: "'t \<Rightarrow> 's \<Rightarrow> 's"
  assumes alloc_invar: "invar s \<Longrightarrow> alloc a s = Some (x, s') \<Longrightarrow> invar s'"
    and alloc_fresh: "invar s \<Longrightarrow> alloc a s = Some (x, s') \<Longrightarrow> x \<notin> live s"
    and alloc_live: "invar s \<Longrightarrow> alloc a s = Some (x, s') \<Longrightarrow> live s' = insert x (live s)"
    and free_invar: "invar s \<Longrightarrow> free x s = Some s' \<Longrightarrow> invar s'"
    and free_was_live: "invar s \<Longrightarrow> free x s = Some s' \<Longrightarrow> x \<in> live s"
    and free_live: "invar s \<Longrightarrow> free x s = Some s' \<Longrightarrow> live s' = live s - {x}"
    and touch_invar: "invar s \<Longrightarrow> invar (touch t s)"
    and touch_live: "invar s \<Longrightarrow> live (touch t s) = live s"
begin

lemma table_step_spec:
  assumes "invar s" and "table_step alloc free touch op s = (gs, rs, s')"
  shows "invar s'" and "live s' \<subseteq> live s \<union> set gs" and "set rs \<inter> live s' = {}"
    and "live s \<subseteq> live s' \<union> set rs"
proof -
  have "invar s' \<and> live s' \<subseteq> live s \<union> set gs \<and> set rs \<inter> live s' = {} \<and> live s \<subseteq> live s' \<union> set rs"
  proof (cases op)
    case (Alloc a)
    show ?thesis
    proof (cases "alloc a s")
      case None
      with Alloc assms show ?thesis by (auto simp: table_step_def)
    next
      case (Some p)
      obtain x t where p: "alloc a s = Some (x, t)" using Some by fastforce
      with Alloc assms(2) have "gs = [x]" "rs = []" "s' = t" by (simp_all add: table_step_def)
      with alloc_live [OF assms(1) p] alloc_invar [OF assms(1) p] show ?thesis by auto
    qed
  next
    case (Free x)
    show ?thesis
    proof (cases "free x s")
      case None
      with Free assms show ?thesis by (auto simp: table_step_def)
    next
      case (Some t)
      with Free assms(2) have "gs = []" "rs = [x]" "s' = t" by (simp_all add: table_step_def)
      with free_live [OF assms(1) Some] free_invar [OF assms(1) Some] show ?thesis by auto
    qed
  next
    case (Touch t)
    with assms(2) have "gs = []" "rs = []" "s' = touch t s" by (simp_all add: table_step_def)
    with touch_live [OF assms(1), of t] touch_invar [OF assms(1), of t] show ?thesis by simp
  qed
  then show "invar s'" and "live s' \<subseteq> live s \<union> set gs" and "set rs \<inter> live s' = {}"
    and "live s \<subseteq> live s' \<union> set rs" by auto
qed

lemma table_run_invar:
  "invar s \<Longrightarrow> table_run alloc free touch ops s = (gs, rs, t) \<Longrightarrow> invar t"
proof (induction ops arbitrary: s gs rs t)
  case Nil
  then show ?case by simp
next
  case (Cons op ops)
  from Cons.prems(2) obtain g r s' gs' rs' where
    st: "table_step alloc free touch op s = (g, r, s')" and
    rn: "table_run alloc free touch ops s' = (gs', rs', t)"
    by (auto split: prod.splits)
  show ?case using table_step_spec(1) [OF Cons.prems(1) st] rn by (rule Cons.IH)
qed

text \<open>An identifier is live at the end only if it was live at the start or was handed out.\<close>

lemma table_run_no_forgery:
  "invar s \<Longrightarrow> table_run alloc free touch ops s = (gs, rs, t) \<Longrightarrow> live t \<subseteq> live s \<union> set gs"
proof (induction ops arbitrary: s gs rs t)
  case Nil
  then show ?case by simp
next
  case (Cons op ops)
  from Cons.prems(2) obtain g r s' gs' rs' where
    st: "table_step alloc free touch op s = (g, r, s')" and
    rn: "table_run alloc free touch ops s' = (gs', rs', t)" and eqs: "gs = g @ gs'"
    by (auto split: prod.splits)
  have "live t \<subseteq> live s' \<union> set gs'"
    using table_step_spec(1) [OF Cons.prems(1) st] rn by (rule Cons.IH)
  with table_step_spec(2) [OF Cons.prems(1) st] eqs show ?case by auto
qed

lemma double_free_refused:
  "invar s \<Longrightarrow> free x s = Some s' \<Longrightarrow> free x s' = None"
proof (cases "free x s'")
  case (Some s2)
  assume s: "invar s" "free x s = Some s'"
  have "x \<in> live s'" using free_invar [OF s] Some by (rule free_was_live)
  with free_live [OF s] show ?thesis by simp
qed

end

text \<open>
  The extension with generations: an identifier names a slot and a generation below
  \<open>modulus\<close>, a release advances the generation of its slot and of no other, and live
  identifiers carry the current one.
\<close>

locale gen_table = id_table invar live alloc free touch
  for invar :: "'s \<Rightarrow> bool" and live :: "'s \<Rightarrow> 'id set"
    and alloc :: "'a \<Rightarrow> 's \<Rightarrow> ('id \<times> 's) option" and free :: "'id \<Rightarrow> 's \<Rightarrow> 's option"
    and touch :: "'t \<Rightarrow> 's \<Rightarrow> 's" +
  fixes modulus :: nat
    and gen :: "'s \<Rightarrow> nat \<Rightarrow> nat"
    and id_slot :: "'id \<Rightarrow> nat"
    and id_gen :: "'id \<Rightarrow> nat"
  assumes modulus_big: "2 \<le> modulus"
    and live_gen: "invar s \<Longrightarrow> x \<in> live s \<Longrightarrow> gen s (id_slot x) = id_gen x"
    and live_gen_range: "invar s \<Longrightarrow> x \<in> live s \<Longrightarrow> 0 < id_gen x \<and> id_gen x < modulus"
    and alloc_gen: "invar s \<Longrightarrow> alloc a s = Some (x, s') \<Longrightarrow> gen s' k = gen s k"
    and free_gen: "invar s \<Longrightarrow> free x s = Some s' \<Longrightarrow>
          gen s' k = (if k = id_slot x then next_gen modulus (gen s k) else gen s k)"
    and touch_gen: "invar s \<Longrightarrow> gen (touch t s) k = gen s k"
begin

lemma table_step_gen:
  assumes "invar s" and "table_step alloc free touch op s = (gs, rs, s')"
  shows "gen s' k = (next_gen modulus ^^ count_if (\<lambda>x. id_slot x = k) rs) (gen s k)"
proof (cases op)
  case (Alloc a)
  show ?thesis
  proof (cases "alloc a s")
    case None
    with Alloc assms(2) show ?thesis by (auto simp: table_step_def)
  next
    case (Some p)
    obtain x t where p: "alloc a s = Some (x, t)" using Some by fastforce
    from Alloc p assms(2) alloc_gen [OF assms(1) p, of k] show ?thesis
      by (auto simp: table_step_def)
  qed
next
  case (Free x)
  show ?thesis
  proof (cases "free x s")
    case None
    with Free assms(2) show ?thesis by (auto simp: table_step_def)
  next
    case (Some t)
    from Free Some assms(2) free_gen [OF assms(1) Some, of k] show ?thesis
      by (auto simp: table_step_def)
  qed
next
  case (Touch t)
  with assms show ?thesis by (auto simp: table_step_def touch_gen)
qed

lemma table_run_gen:
  "invar s \<Longrightarrow> table_run alloc free touch ops s = (gs, rs, t) \<Longrightarrow>
     gen t k = (next_gen modulus ^^ count_if (\<lambda>x. id_slot x = k) rs) (gen s k)"
proof (induction ops arbitrary: s gs rs t)
  case Nil
  then show ?case by simp
next
  case (Cons op ops)
  from Cons.prems(2) obtain g r s' gs' rs' where
    st: "table_step alloc free touch op s = (g, r, s')" and
    rn: "table_run alloc free touch ops s' = (gs', rs', t)" and eqs: "rs = r @ rs'"
    by (auto split: prod.splits)
  have "gen t k = (next_gen modulus ^^ count_if (\<lambda>x. id_slot x = k) rs') (gen s' k)"
    using table_step_spec(1) [OF Cons.prems(1) st] rn by (rule Cons.IH)
  also have "\<dots> = (next_gen modulus ^^ (count_if (\<lambda>x. id_slot x = k) rs'
      + count_if (\<lambda>x. id_slot x = k) r)) (gen s k)"
    by (simp only: table_step_gen [OF Cons.prems(1) st, of k] funpow_add comp_apply)
  finally show ?case using eqs by (simp only: count_if_append add.commute)
qed

text \<open>
  A retired identifier stays retired: whatever the table goes through, it does not name
  anything again before its slot has been released as often as there are generations.
\<close>

lemma stale_id_stays_dead:
  assumes inv: "invar s" and fr: "free x s = Some s'"
    and run: "table_run alloc free touch ops s' = (gs, rs, t)"
    and few: "count_if (\<lambda>y. id_slot y = id_slot x) rs < modulus - 2"
  shows "x \<notin> live t"
proof
  let ?k = "id_slot x" and ?n = "count_if (\<lambda>y. id_slot y = id_slot x) rs"
  assume "x \<in> live t"
  have inv': "invar s'" using inv fr by (rule free_invar)
  have "invar t" using inv' run by (rule table_run_invar)
  then have "gen t ?k = id_gen x" using \<open>x \<in> live t\<close> by (rule live_gen)
  moreover have xl: "x \<in> live s" using inv fr by (rule free_was_live)
  moreover have "gen t ?k = (next_gen modulus ^^ Suc ?n) (gen s ?k)"
    using table_run_gen [OF inv' run, of ?k] free_gen [OF inv fr, of ?k]
    by (simp add: funpow_swap1)
  ultimately have "(next_gen modulus ^^ Suc ?n) (id_gen x) = id_gen x"
    using live_gen [OF inv xl] by simp
  moreover have "Suc ?n < modulus - 1" using few by linarith
  ultimately show False
    using next_gen_funpow_neq [of modulus "id_gen x" "Suc ?n", OF modulus_big]
      live_gen_range [OF inv xl] by (simp del: funpow.simps)
qed

end

end
