(* ===== verification/Tasks.thy ===== *)
theory Tasks
  imports Interfaces
begin

text \<open>
  The task pool of \<^verbatim>\<open>src/process/task.c\<close>: the fields of \<^verbatim>\<open>struct task\<close> that the pool, the
  scheduler and the signal, event and pipe layers read, the state transitions, slot
  allocation with the generation-tagged process id, and the scheduler's pick. A section the
  code runs under \<^verbatim>\<open>task_pool_klock\<close> is one step of the model. The lemmas show what a pick
  returns, that a claim never takes a task another CPU runs, and that process ids decode to
  their slot and are not handed out again right after a slot is freed.
\<close>

section \<open>Tasks\<close>

definition MAX_TASKS :: nat where "MAX_TASKS = 32"

datatype task_state =
    TASK_RUNNING | TASK_BLOCKED_SEND | TASK_BLOCKED_RECV | TASK_ZOMBIE | TASK_FREE
  | TASK_BLOCKED_WAIT | TASK_BLOCKED_EVENT | TASK_SUSPENDED | TASK_BLOCKED_SLEEP
  | TASK_BLOCKED_PIPE | TASK_BLOCKED_SOCKET | TASK_BLOCKED_POLL | TASK_STOPPED
  | TASK_BLOCKED_TTY

definition TASK_CPU_NONE :: int where "TASK_CPU_NONE = -1"

text \<open>
  \<^verbatim>\<open>struct task\<close>. Addresses and register values are 64-bit words; a pointer to another task
  is the index of its slot.
\<close>

record mmio_grant =
  mg_phys :: u64
  mg_length :: u64
  mg_mapped_va :: u64

record task =
  t_esp :: u64
  t_eip :: u64
  t_page_dir :: u64
  t_stack :: u64
  t_kernel_stack :: u64
  t_id :: int
  t_ring :: int
  t_state :: task_state
  t_recv_buf :: u64
  t_pending_msg :: u64
  t_iomap :: u64
  t_name :: string
  t_next :: "nat option"
  t_wq_head :: "nat option"
  t_wq_tail :: "nat option"
  t_parent_id :: int
  t_exit_code :: int
  t_exit_signal :: u32
  t_wait_pid :: int
  t_wait_posix :: int
  t_wait_status_address :: u64
  t_wait_options :: u32
  t_stop_report :: u32
  t_continued_report :: u32
  t_stop_answer :: int
  t_stop_answer_set :: u32
  t_kstack_phys :: u64
  t_exec_gate :: u32
  t_recv_expect :: u32
  t_gen :: u32
  t_send_result :: int
  t_send_to :: u32
  t_send_deadline :: u32
  t_sleep_deadline :: u32
  t_sleep_request :: u64
  t_poll_deadline :: u32
  t_capabilities :: u32
  t_irq_rights :: u32
  t_uid :: u32
  t_gid :: u32
  t_umask :: u32
  t_mmio :: "mmio_grant list"
  t_dma_page_limit :: u32
  t_dma_pages_used :: u32
  t_dma_max_addr :: u64
  t_on_cpu :: int
  t_is_idle :: bool

record tasks_st =
  task_pool :: "task list"
  task_pool_count :: nat
  task_result :: "nat \<Rightarrow> int option"

text \<open>The pool as the loader leaves it: static storage, all zero.\<close>

definition zero_task :: task where
  "zero_task = \<lparr>t_esp = 0, t_eip = 0, t_page_dir = 0, t_stack = 0, t_kernel_stack = 0, t_id = 0, t_ring = 0,
     t_state = TASK_RUNNING, t_recv_buf = 0, t_pending_msg = 0, t_iomap = 0, t_name = [], t_next = None,
     t_wq_head = None, t_wq_tail = None, t_parent_id = 0, t_exit_code = 0, t_exit_signal = 0, t_wait_pid = 0,
     t_wait_posix = 0, t_wait_status_address = 0, t_wait_options = 0, t_stop_report = 0, t_continued_report = 0,
     t_stop_answer = 0, t_stop_answer_set = 0, t_kstack_phys = 0, t_exec_gate = 0, t_recv_expect = 0, t_gen = 0,
     t_send_result = 0, t_send_to = 0, t_send_deadline = 0, t_sleep_deadline = 0, t_sleep_request = 0,
     t_poll_deadline = 0, t_capabilities = 0, t_irq_rights = 0, t_uid = 0, t_gid = 0, t_umask = 0, t_mmio = [],
     t_dma_page_limit = 0, t_dma_pages_used = 0, t_dma_max_addr = 0, t_on_cpu = 0, t_is_idle = False\<rparr>"

definition tasks_boot :: tasks_st where
  "tasks_boot = \<lparr>task_pool = replicate MAX_TASKS zero_task, task_pool_count = 0, task_result = (\<lambda>_. None)\<rparr>"

definition task_upd :: "nat \<Rightarrow> (task \<Rightarrow> task) \<Rightarrow> 'a tasks_st_scheme \<Rightarrow> 'a tasks_st_scheme" where
  "task_upd i f s = s\<lparr>task_pool := (task_pool s)[i := f (task_pool s ! i)]\<rparr>"

text \<open>\<^verbatim>\<open>task64_set_result\<close>: the value the parked system call of a slot returns with.\<close>

definition task64_set_result :: "nat \<Rightarrow> int \<Rightarrow> 'a tasks_st_scheme \<Rightarrow> 'a tasks_st_scheme" where
  "task64_set_result slot v s = s\<lparr>task_result := (task_result s)(slot := Some v)\<rparr>"

section \<open>State transitions\<close>

definition task_state_wake_locked ::
  "nat \<Rightarrow> task_state \<Rightarrow> 'a tasks_st_scheme \<Rightarrow> bool \<times> 'a tasks_st_scheme" where
  "task_state_wake_locked i from s =
     (if t_state (task_pool s ! i) \<noteq> from then (False, s)
      else (True, task_upd i (t_state_update (\<lambda>_. TASK_RUNNING)) s))"

definition task_state_wake ::
  "nat option \<Rightarrow> task_state \<Rightarrow> 'a tasks_st_scheme \<Rightarrow> bool \<times> 'a tasks_st_scheme" where
  "task_state_wake t from s =
     (case t of None \<Rightarrow> (False, s) | Some i \<Rightarrow> task_state_wake_locked i from s)"

definition task_state_set :: "nat option \<Rightarrow> task_state \<Rightarrow> 'a tasks_st_scheme \<Rightarrow> 'a tasks_st_scheme" where
  "task_state_set t st s =
     (case t of None \<Rightarrow> s | Some i \<Rightarrow> task_upd i (t_state_update (\<lambda>_. st)) s)"

definition task_sleep_block_locked :: "nat \<Rightarrow> u32 \<Rightarrow> 'a tasks_st_scheme \<Rightarrow> 'a tasks_st_scheme" where
  "task_sleep_block_locked i deadline s =
     task_upd i (\<lambda>t. t\<lparr>t_sleep_deadline := deadline, t_state := TASK_BLOCKED_SLEEP\<rparr>) s"

definition task_sleep_expire_locked :: "nat \<Rightarrow> 'a tasks_st_scheme \<Rightarrow> 'a tasks_st_scheme" where
  "task_sleep_expire_locked i s =
     task_upd i (\<lambda>t. t\<lparr>t_sleep_deadline := 0, t_state := TASK_RUNNING\<rparr>) s"

text \<open>The claim answers the deadline and the request address it took, or \<open>None\<close>.\<close>

definition task_sleep_wake_claim ::
  "nat \<Rightarrow> 'a tasks_st_scheme \<Rightarrow> (u32 \<times> u64) option \<times> 'a tasks_st_scheme" where
  "task_sleep_wake_claim i s =
     (let t = task_pool s ! i in
      if t_state t = TASK_BLOCKED_SLEEP
      then (Some (t_sleep_deadline t, t_sleep_request t),
            task_upd i (\<lambda>t. t\<lparr>t_sleep_deadline := 0, t_sleep_request := 0, t_state := TASK_RUNNING\<rparr>) s)
      else (None, s))"

definition task_exit_signal_set :: "nat option \<Rightarrow> u32 \<Rightarrow> 'a tasks_st_scheme \<Rightarrow> 'a tasks_st_scheme" where
  "task_exit_signal_set t signo s =
     (case t of None \<Rightarrow> s | Some i \<Rightarrow> task_upd i (t_exit_signal_update (\<lambda>_. signo)) s)"

definition task_wait_park ::
  "nat option \<Rightarrow> int \<Rightarrow> int \<Rightarrow> u32 \<Rightarrow> u64 \<Rightarrow> 'a tasks_st_scheme \<Rightarrow> 'a tasks_st_scheme" where
  "task_wait_park t pid posix options address s =
     (case t of None \<Rightarrow> s
      | Some i \<Rightarrow> task_upd i (\<lambda>t. t\<lparr>t_wait_pid := pid, t_wait_posix := posix,
                    t_wait_options := options, t_wait_status_address := address,
                    t_state := TASK_BLOCKED_WAIT\<rparr>) s)"

definition wait_matches :: "task \<Rightarrow> int \<Rightarrow> bool" where
  "wait_matches t child \<longleftrightarrow>
     t_state t = TASK_BLOCKED_WAIT \<and> (t_wait_pid t = -1 \<or> t_wait_pid t = child)"

definition task_wait_wake ::
  "nat option \<Rightarrow> int \<Rightarrow> 'a tasks_st_scheme \<Rightarrow> bool \<times> 'a tasks_st_scheme" where
  "task_wait_wake t child s =
     (case t of None \<Rightarrow> (False, s)
      | Some i \<Rightarrow>
          if wait_matches (task_pool s ! i) child
          then (True, task_upd i (\<lambda>t. t\<lparr>t_wait_pid := -1, t_state := TASK_RUNNING\<rparr>) s)
          else (False, s))"

definition task_wait_cancel ::
  "nat option \<Rightarrow> int \<Rightarrow> 'a tasks_st_scheme \<Rightarrow> bool \<times> 'a tasks_st_scheme" where
  "task_wait_cancel t child s =
     (case t of None \<Rightarrow> (False, s)
      | Some i \<Rightarrow>
          if wait_matches (task_pool s ! i) child
          then (True, task_upd i (\<lambda>t. t\<lparr>t_wait_pid := -1, t_wait_posix := 0, t_wait_options := 0,
                  t_wait_status_address := 0, t_state := TASK_RUNNING\<rparr>) s)
          else (False, s))"

definition task_wait_clear :: "nat option \<Rightarrow> 'a tasks_st_scheme \<Rightarrow> 'a tasks_st_scheme" where
  "task_wait_clear t s =
     (case t of None \<Rightarrow> s
      | Some i \<Rightarrow> task_upd i (\<lambda>t. t\<lparr>t_wait_pid := -1, t_wait_posix := 0, t_wait_options := 0,
                  t_wait_status_address := 0, t_state := TASK_RUNNING\<rparr>) s)"

definition task_cpu_claim :: "nat option \<Rightarrow> int \<Rightarrow> 'a tasks_st_scheme \<Rightarrow> 'a tasks_st_scheme" where
  "task_cpu_claim t cpu s =
     (case t of None \<Rightarrow> s | Some i \<Rightarrow> task_upd i (t_on_cpu_update (\<lambda>_. cpu)) s)"

definition task_cpu_release :: "nat option \<Rightarrow> 'a tasks_st_scheme \<Rightarrow> 'a tasks_st_scheme" where
  "task_cpu_release t s = task_cpu_claim t TASK_CPU_NONE s"

section \<open>Process ids and slots\<close>

definition PID_SLOT :: "u32 \<Rightarrow> u32" where "PID_SLOT pid = pid AND 0xFFFF"
definition PID_GEN :: "u32 \<Rightarrow> u32" where "PID_GEN pid = drop_bit 16 pid"
definition PID_MAKE :: "u32 \<Rightarrow> u32 \<Rightarrow> u32" where
  "PID_MAKE gen slot = push_bit 16 gen OR (slot AND 0xFFFF)"

text \<open>
  \<^verbatim>\<open>task_alloc_slot\<close>: the first free slot from 1 on, else a fresh one at the end of the pool.
\<close>

definition alloc_candidate :: "'a tasks_st_scheme \<Rightarrow> nat option \<times> 'a tasks_st_scheme" where
  "alloc_candidate s =
     (case first_index (\<lambda>t. t_state t = TASK_FREE) (tl (task_pool s)) of
        Some j \<Rightarrow> (Some (Suc j), s)
      | None \<Rightarrow>
          if task_pool_count s < MAX_TASKS
          then (Some (task_pool_count s), s\<lparr>task_pool_count := Suc (task_pool_count s)\<rparr>)
          else (None, s))"

definition task_alloc_slot :: "'a tasks_st_scheme \<Rightarrow> nat option \<times> 'a tasks_st_scheme" where
  "task_alloc_slot s =
     (case alloc_candidate s of
        (None, s') \<Rightarrow> (None, s')
      | (Some i, s') \<Rightarrow>
          (Some i, task_upd i (\<lambda>t. t\<lparr>t_state := TASK_RUNNING, t_on_cpu := TASK_CPU_NONE,
             t_id := (if t_gen t \<noteq> 0 then sint (PID_MAKE (t_gen t) (of_nat i)) else int i)\<rparr>) s'))"

definition task_full_pid :: "nat \<Rightarrow> 'a tasks_st_scheme \<Rightarrow> u32" where
  "task_full_pid i s = PID_MAKE (t_gen (task_pool s ! i)) (of_nat i)"

definition MAX_MMIO_GRANTS :: nat where "MAX_MMIO_GRANTS = 4"

definition task_clear_dynamic :: "task \<Rightarrow> task" where
  "task_clear_dynamic t =
     t\<lparr>t_page_dir := 0, t_recv_buf := 0, t_pending_msg := 0, t_iomap := 0, t_next := None,
       t_wq_head := None, t_wq_tail := None, t_parent_id := -1, t_exit_code := 0,
       t_exit_signal := 0, t_wait_pid := -1, t_wait_posix := 0, t_wait_status_address := 0,
       t_kstack_phys := 0, t_exec_gate := 0, t_recv_expect := 0, t_send_result := 0,
       t_send_to := 0, t_send_deadline := 0, t_sleep_deadline := 0, t_sleep_request := 0,
       t_capabilities := 0, t_irq_rights := 0,
       t_mmio := replicate MAX_MMIO_GRANTS \<lparr>mg_phys = 0, mg_length = 0, mg_mapped_va = 0\<rparr>,
       t_dma_page_limit := 0, t_dma_pages_used := 0, t_dma_max_addr := 0,
       t_on_cpu := TASK_CPU_NONE, t_is_idle := False, t_name := []\<rparr>"

text \<open>
  The writes of \<^verbatim>\<open>task_free_slot\<close> and of \<^verbatim>\<open>task_mark_zombie\<close> under the pool lock, after the
  per-process tables have been torn down.
\<close>

definition free_slot_gen :: "u32 \<Rightarrow> u32" where
  "free_slot_gen g = (let g' = (g + 1) AND 0x7FFF in if g' = 0 then 1 else g')"

definition task_free_slot_commit :: "nat \<Rightarrow> 'a tasks_st_scheme \<Rightarrow> 'a tasks_st_scheme" where
  "task_free_slot_commit i s =
     task_upd i (\<lambda>t. (task_clear_dynamic t)\<lparr>t_esp := 0, t_eip := 0, t_stack := 0,
       t_kernel_stack := 0, t_gen := free_slot_gen (t_gen t), t_state := TASK_FREE\<rparr>) s"

definition task_mark_zombie_commit :: "nat \<Rightarrow> int \<Rightarrow> 'a tasks_st_scheme \<Rightarrow> 'a tasks_st_scheme" where
  "task_mark_zombie_commit i code s =
     task_upd i (\<lambda>t. t\<lparr>t_exit_code := code, t_on_cpu := TASK_CPU_NONE, t_state := TASK_ZOMBIE,
       t_recv_buf := 0, t_recv_expect := 0, t_pending_msg := 0, t_send_to := 0,
       t_send_deadline := 0, t_sleep_deadline := 0, t_sleep_request := 0, t_next := None,
       t_wait_pid := -1, t_wait_posix := 0, t_wait_status_address := 0, t_capabilities := 0,
       t_irq_rights := 0\<rparr>) s"

text \<open>
  The check of \<^verbatim>\<open>task_reap_zombie\<close>: the slot and the exit code the parent may collect.
\<close>

definition task_reap_check :: "nat option \<Rightarrow> int \<Rightarrow> 'a tasks_st_scheme \<Rightarrow> (nat \<times> int) option" where
  "task_reap_check parent pid s =
     (let slot = unat (PID_SLOT (word_of_int pid)) in
      case parent of
        None \<Rightarrow> None
      | Some p \<Rightarrow>
          if slot = 0 \<or> task_pool_count s \<le> slot then None
          else let child = task_pool s ! slot in
               if t_state child = TASK_ZOMBIE \<and> t_id child = pid
                  \<and> t_parent_id child = t_id (task_pool s ! p)
               then Some (slot, t_exit_code child) else None)"

text \<open>\<^verbatim>\<open>task_set_name\<close>: the last component of the path, up to a dot and 15 characters.\<close>

fun path_base :: "string \<Rightarrow> string \<Rightarrow> string" where
  "path_base base [] = base"
| "path_base base (c # cs) = path_base (if c = CHR ''/'' then cs else base) cs"

definition task_set_name :: "nat \<Rightarrow> string \<Rightarrow> 'a tasks_st_scheme \<Rightarrow> 'a tasks_st_scheme" where
  "task_set_name i path s =
     (let base = (if path = [] then ''elf'' else path);
          name = take 15 (takeWhile (\<lambda>c. c \<noteq> CHR ''.'') (path_base base base))
      in task_upd i (t_name_update (\<lambda>_. name)) s)"

section \<open>The scheduler's pick\<close>

definition pick_order :: "int \<Rightarrow> nat \<Rightarrow> nat list" where
  "pick_order current n = map (\<lambda>offset. nat ((current + int offset) mod int n)) [1..<Suc n]"

definition pick_eligible :: "int \<Rightarrow> task \<Rightarrow> bool" where
  "pick_eligible cpu t \<longleftrightarrow>
     t_state t = TASK_RUNNING \<and> (t_on_cpu t = TASK_CPU_NONE \<or> t_on_cpu t = cpu)"

text \<open>The scan of \<^verbatim>\<open>task_pick_locked\<close>; \<open>idle\<close> is the idle task remembered so far.\<close>

fun pick_scan :: "(task \<Rightarrow> bool) \<Rightarrow> task list \<Rightarrow> nat list \<Rightarrow> nat option \<Rightarrow> nat option" where
  "pick_scan ok pool [] idle = idle"
| "pick_scan ok pool (c # cs) idle =
     (if \<not> ok (pool ! c) then pick_scan ok pool cs idle
      else if t_is_idle (pool ! c)
        then pick_scan ok pool cs (case idle of None \<Rightarrow> Some c | Some _ \<Rightarrow> idle)
        else Some c)"

definition task_pick_locked ::
  "int \<Rightarrow> int \<Rightarrow> bool \<Rightarrow> 'a tasks_st_scheme \<Rightarrow> nat option \<times> 'a tasks_st_scheme" where
  "task_pick_locked current cpu claim s =
     (let pick = pick_scan (pick_eligible cpu) (task_pool s)
                   (pick_order current (task_pool_count s)) None
      in (pick, case pick of
                  Some i \<Rightarrow> if claim then task_upd i (t_on_cpu_update (\<lambda>_. cpu)) s else s
                | None \<Rightarrow> s))"

definition task_pick_next :: "int \<Rightarrow> int \<Rightarrow> 'a tasks_st_scheme \<Rightarrow> nat option" where
  "task_pick_next current cpu s = fst (task_pick_locked current cpu False s)"

definition task_pick_and_claim ::
  "int \<Rightarrow> int \<Rightarrow> 'a tasks_st_scheme \<Rightarrow> nat option \<times> 'a tasks_st_scheme" where
  "task_pick_and_claim current cpu s = task_pick_locked current cpu True s"

definition task_pick_pinned :: "int \<Rightarrow> int \<Rightarrow> 'a tasks_st_scheme \<Rightarrow> nat option" where
  "task_pick_pinned cpu current s =
     pick_scan (\<lambda>t. t_state t = TASK_RUNNING \<and> t_on_cpu t = cpu) (task_pool s)
       (pick_order current (task_pool_count s)) None"

section \<open>Lemmas\<close>

lemma task_upd_simps [simp, table_simps]:
  "length (task_pool (task_upd i f s)) = length (task_pool s)"
  "task_pool_count (task_upd i f s) = task_pool_count s"
  "task_result (task_upd i f s) = task_result s"
  "i < length (task_pool s) \<Longrightarrow> task_pool (task_upd i f s) ! i = f (task_pool s ! i)"
  "i \<noteq> j \<Longrightarrow> task_pool (task_upd i f s) ! j = task_pool s ! j"
  by (simp_all add: task_upd_def)

lemma task64_set_result_simps [simp]:
  "task_pool (task64_set_result i v s) = task_pool s"
  "task_pool_count (task64_set_result i v s) = task_pool_count s"
  by (simp_all add: task64_set_result_def)

lemma pick_order_range: "0 < n \<Longrightarrow> set (pick_order current n) = {..<n}"
proof -
  assume n: "0 < n"
  have "set (pick_order current n) \<subseteq> {..<n}"
    using n by (auto simp: pick_order_def nat_less_iff)
  moreover have "j \<in> set (pick_order current n)" if "j < n" for j
  proof -
    let ?off = "nat ((int j - current - 1) mod int n) + 1"
    have off: "?off \<in> set [1..<Suc n]"
    proof -
      have "nat ((int j - current - 1) mod int n) < n" using n by (simp add: nat_less_iff)
      then have "1 \<le> ?off \<and> ?off < Suc n" by linarith
      then show ?thesis by (simp only: set_upt atLeastLessThan_iff)
    qed
    have "int ?off = (int j - current - 1) mod int n + 1" using n by simp
    then have "(current + int ?off) mod int n = (current + ((int j - current - 1) mod int n + 1)) mod int n"
      by (simp only:)
    also have "\<dots> = (current + (int j - current - 1 + 1)) mod int n"
      by (metis mod_add_left_eq mod_add_right_eq)
    also have "\<dots> = int j" using that by simp
    finally have j: "nat ((current + int ?off) mod int n) = j" by simp
    show ?thesis unfolding pick_order_def set_map
      by (intro image_eqI [where x = ?off] off j [symmetric])
  qed
  ultimately show ?thesis by auto
qed

lemma pick_scan_result:
  "pick_scan ok pool cs idle = Some c \<Longrightarrow> (\<forall>i. idle = Some i \<longrightarrow> ok (pool ! i)) \<Longrightarrow>
     (c \<in> set cs \<or> idle = Some c) \<and> ok (pool ! c)"
  by (induction ok pool cs idle rule: pick_scan.induct) (auto split: if_splits option.splits)

lemma pick_scan_None: "pick_scan ok pool cs idle = None \<longleftrightarrow> idle = None \<and> (\<forall>c \<in> set cs. \<not> ok (pool ! c))"
  by (induction ok pool cs idle rule: pick_scan.induct) (auto split: option.splits)

text \<open>An idle task is the answer only when no other task was eligible.\<close>

lemma pick_scan_idle_last:
  "pick_scan ok pool cs idle = Some c \<Longrightarrow> t_is_idle (pool ! c) \<Longrightarrow> j \<in> set cs \<Longrightarrow> ok (pool ! j)
     \<Longrightarrow> t_is_idle (pool ! j)"
  by (induction ok pool cs idle rule: pick_scan.induct) (auto split: if_splits)

text \<open>
  What the pool must look like: full size, a count in range, generations of 15 bits, used
  slots that are not free carry the id made of their generation and index, and the slots past
  the count have never been freed.
\<close>

definition task_id_of :: "u32 \<Rightarrow> nat \<Rightarrow> int" where
  "task_id_of g i = (if g \<noteq> 0 then sint (PID_MAKE g (of_nat i)) else int i)"

definition tasks_ok :: "'a tasks_st_scheme \<Rightarrow> bool" where
  "tasks_ok s \<longleftrightarrow> length (task_pool s) = MAX_TASKS \<and> task_pool_count s \<le> MAX_TASKS
     \<and> (\<forall>i < MAX_TASKS. unat (t_gen (task_pool s ! i)) < 0x8000)
     \<and> (\<forall>i < task_pool_count s. t_state (task_pool s ! i) \<noteq> TASK_FREE \<longrightarrow>
          t_id (task_pool s ! i) = task_id_of (t_gen (task_pool s ! i)) i)
     \<and> (\<forall>i < MAX_TASKS. task_pool_count s \<le> i \<longrightarrow> t_state (task_pool s ! i) \<noteq> TASK_FREE)"

lemma unat_free_slot_gen: "unat (free_slot_gen g) = next_gen 0x8000 (unat g)"
proof -
  have eq: "(g + 1) AND 0x7FFF = take_bit 15 (g + 1)"
    by (simp add: take_bit_eq_mask mask_eq_exp_minus_1)
  have "unat (take_bit 15 (g + 1)) = take_bit 15 (unat (g + 1))"
    by (simp add: unsigned_take_bit_eq)
  also have "\<dots> = (unat g + 1) mod 0x8000"
  proof -
    have "unat (g + 1) = (unat g + 1) mod 2 ^ 32"
      by (simp add: unat_word_ariths unsigned_1)
    moreover have "(2::nat) ^ 15 dvd 2 ^ 32" by (rule le_imp_power_dvd) simp
    ultimately show ?thesis
      by (simp add: take_bit_eq_mod mod_mod_cancel)
  qed
  finally have u: "unat ((g + 1) AND 0x7FFF) = (unat g + 1) mod 0x8000" by (simp add: eq)
  moreover have "(g + 1) AND 0x7FFF = 0 \<longleftrightarrow> unat ((g + 1) AND 0x7FFF) = 0"
    by (simp only: unat_eq_zero)
  ultimately show ?thesis by (simp add: free_slot_gen_def next_gen_def Let_def)
qed

lemma PID_roundtrip:
  assumes "unat g < 2 ^ 16" and "i < 2 ^ 16"
  shows "PID_SLOT (PID_MAKE g (of_nat i)) = of_nat i" and "PID_GEN (PID_MAKE g (of_nat i)) = g"
proof -
  have m: "(0xFFFF :: u32) = mask 16" by (simp add: mask_eq_exp_minus_1)
  have i: "(of_nat i :: u32) = take_bit 16 (of_nat i)"
    using assms(2) by (metis take_bit_nat_eq_self take_bit_of_nat)
  have "(push_bit 16 g OR of_nat i AND mask 16) AND mask 16 = take_bit 16 (of_nat i :: u32)"
    by (rule bit_word_eqI) (auto simp: bit_simps)
  then show "PID_SLOT (PID_MAKE g (of_nat i)) = of_nat i"
    unfolding PID_SLOT_def PID_MAKE_def m using i by simp
  have "unat (take_bit 16 g) = unat g"
    using assms(1) by (simp add: unsigned_take_bit_eq take_bit_nat_eq_self)
  then have "take_bit 16 g = g" by (simp only: word_unat_eq_iff)
  then have g: "\<not> bit g n" if "16 \<le> n" for n using that by (metis bit_take_bit_iff not_le)
  show "PID_GEN (PID_MAKE g (of_nat i)) = g"
    unfolding PID_GEN_def PID_MAKE_def m
    by (rule bit_word_eqI) (auto simp: bit_simps, metis g not_le)
qed

lemma PID_MAKE_0: "i < 2 ^ 16 \<Longrightarrow> PID_MAKE 0 (of_nat i) = of_nat i"
proof -
  assume "i < 2 ^ 16"
  then have "(of_nat i :: u32) = take_bit 16 (of_nat i)"
    by (metis take_bit_nat_eq_self take_bit_of_nat)
  moreover have "push_bit 16 0 OR of_nat i AND 0xFFFF = take_bit 16 (of_nat i :: u32)"
    using take_bit_eq_mask [of 16 "of_nat i :: u32"] by (simp add: mask_eq_exp_minus_1)
  ultimately show ?thesis by (simp add: PID_MAKE_def)
qed

lemma task_id_of_slot:
  assumes "unat g < 0x8000" and "i < MAX_TASKS"
  shows "PID_SLOT (word_of_int (task_id_of g i)) = of_nat i"
proof (cases "g = 0")
  case True
  have "unat (0 :: u32) < 2 ^ 16" by simp
  moreover have "i < 2 ^ 16" using assms(2) by (simp add: MAX_TASKS_def)
  ultimately have "PID_SLOT (PID_MAKE 0 (of_nat i)) = of_nat i" by (rule PID_roundtrip)
  with True show ?thesis by (simp add: task_id_of_def PID_MAKE_def PID_SLOT_def)
next
  case False
  with assms show ?thesis by (simp add: task_id_of_def PID_roundtrip MAX_TASKS_def)
qed

lemma task_id_of_inj:
  assumes "unat g < 0x8000" "i < MAX_TASKS" "unat h < 0x8000" "j < MAX_TASKS"
    and "task_id_of g i = task_id_of h j"
  shows "i = j"
proof -
  have "(of_nat i :: u32) = of_nat j"
    using task_id_of_slot [OF assms(1,2)] task_id_of_slot [OF assms(3,4)] assms(5) by simp
  then have "unat (of_nat i :: u32) = unat (of_nat j :: u32)" by simp
  with assms(2,4) show ?thesis by (simp add: unat_of_nat MAX_TASKS_def take_bit_nat_eq_self)
qed

lemma task_id_of_gen:
  assumes "unat g < 0x8000" "unat h < 0x8000" "i < MAX_TASKS" "task_id_of g i = task_id_of h i"
  shows "g = h"
proof -
  have i: "i < 2 ^ 16" using assms(3) by (simp add: MAX_TASKS_def)
  have gen: "PID_GEN (word_of_int (task_id_of k i)) = k" if "unat k < 0x8000" for k
  proof (cases "k = 0")
    case True
    have "PID_GEN (PID_MAKE 0 (of_nat i)) = 0" using i by (intro PID_roundtrip) simp_all
    then show ?thesis using True PID_MAKE_0 [OF i] by (simp add: task_id_of_def)
  next
    case False
    with that i show ?thesis by (simp add: task_id_of_def PID_roundtrip)
  qed
  show ?thesis using gen [OF assms(1)] gen [OF assms(2)] unfolding assms(4) by (rule trans [OF sym])
qed

lemma alloc_candidate_spec:
  assumes "tasks_ok s" and "alloc_candidate s = (Some i, s')"
  shows "i < MAX_TASKS" "i < task_pool_count s'" "task_pool s' = task_pool s"
    "task_pool_count s' \<le> MAX_TASKS" "task_pool_count s \<le> task_pool_count s'"
    "\<And>j. task_pool_count s \<le> j \<Longrightarrow> j < task_pool_count s' \<Longrightarrow> j = i"
    "t_state (task_pool s ! i) = TASK_FREE \<or> i = task_pool_count s"
proof -
  have len: "length (task_pool s) = MAX_TASKS" "task_pool_count s \<le> MAX_TASKS"
    and past: "\<And>i. i < MAX_TASKS \<Longrightarrow> task_pool_count s \<le> i \<Longrightarrow> t_state (task_pool s ! i) \<noteq> TASK_FREE"
    using assms(1) by (auto simp: tasks_ok_def)
  have "i < MAX_TASKS \<and> i < task_pool_count s' \<and> task_pool s' = task_pool s
    \<and> task_pool_count s' \<le> MAX_TASKS \<and> task_pool_count s \<le> task_pool_count s'
    \<and> (\<forall>j. task_pool_count s \<le> j \<longrightarrow> j < task_pool_count s' \<longrightarrow> j = i)
    \<and> (t_state (task_pool s ! i) = TASK_FREE \<or> i = task_pool_count s)"
  proof (cases "first_index (\<lambda>t. t_state t = TASK_FREE) (tl (task_pool s))")
    case None
    with assms(2) len show ?thesis
      by (auto simp: alloc_candidate_def split: if_splits)
  next
    case (Some j)
    have "Suc j < length (task_pool s)" "t_state (task_pool s ! Suc j) = TASK_FREE"
      using first_indexD(1,2) [OF Some] by (auto simp: nth_tl)
    moreover have "i = Suc j" "s' = s" using assms(2) Some by (auto simp: alloc_candidate_def)
    ultimately show ?thesis using past [of i] len by (auto simp: not_le [symmetric])
  qed
  then show "i < MAX_TASKS" "i < task_pool_count s'" "task_pool s' = task_pool s"
    "task_pool_count s' \<le> MAX_TASKS" "task_pool_count s \<le> task_pool_count s'"
    "\<And>j. task_pool_count s \<le> j \<Longrightarrow> j < task_pool_count s' \<Longrightarrow> j = i"
    "t_state (task_pool s ! i) = TASK_FREE \<or> i = task_pool_count s" by blast+
qed

lemma task_alloc_slot_spec:
  assumes ok: "tasks_ok s" and al: "task_alloc_slot s = (Some i, r)"
  shows "tasks_ok r" "i < task_pool_count r" "t_state (task_pool r ! i) = TASK_RUNNING"
    "t_id (task_pool r ! i) = task_id_of (t_gen (task_pool s ! i)) i"
    "t_gen (task_pool r ! i) = t_gen (task_pool s ! i)"
    "\<And>j. j \<noteq> i \<Longrightarrow> task_pool r ! j = task_pool s ! j"
proof -
  obtain s' where c: "alloc_candidate s = (Some i, s')"
    using al by (auto simp: task_alloc_slot_def split: prod.splits option.splits)
  note sp = alloc_candidate_spec [OF ok c]
  let ?f = "\<lambda>t. t\<lparr>t_state := TASK_RUNNING, t_on_cpu := TASK_CPU_NONE,
             t_id := task_id_of (t_gen t) i\<rparr>"
  have r: "r = task_upd i ?f s'"
    using al c by (simp add: task_alloc_slot_def task_id_of_def)
  have len: "length (task_pool s) = MAX_TASKS" using ok by (simp add: tasks_ok_def)
  have at: "task_pool r ! i = ?f (task_pool s ! i)"
    using sp(1,3) len by (simp add: r)
  show other: "\<And>j. j \<noteq> i \<Longrightarrow> task_pool r ! j = task_pool s ! j"
    using sp(3) by (simp add: r)
  have cnt: "task_pool_count r = task_pool_count s'" by (simp add: r)
  show "i < task_pool_count r" using sp(2) cnt by simp
  show "t_state (task_pool r ! i) = TASK_RUNNING"
    "t_id (task_pool r ! i) = task_id_of (t_gen (task_pool s ! i)) i"
    "t_gen (task_pool r ! i) = t_gen (task_pool s ! i)" by (simp_all add: at)
  have "length (task_pool r) = MAX_TASKS" using len sp(3) by (simp add: r)
  moreover have "unat (t_gen (task_pool r ! j)) < 0x8000" if "j < MAX_TASKS" for j
    using ok that other [of j] by (cases "j = i") (auto simp: tasks_ok_def at)
  moreover have "t_id (task_pool r ! j) = task_id_of (t_gen (task_pool r ! j)) j"
    if "j < task_pool_count s'" "t_state (task_pool r ! j) \<noteq> TASK_FREE" for j
  proof (cases "j = i")
    case True
    then show ?thesis by (simp add: at)
  next
    case False
    with sp(6) [of j] that(1) have "j < task_pool_count s" by fastforce
    with ok that(2) other [OF False] show ?thesis by (simp add: tasks_ok_def)
  qed
  moreover have "t_state (task_pool r ! j) \<noteq> TASK_FREE"
    if "j < MAX_TASKS" "task_pool_count s' \<le> j" for j
    using ok that sp(2,5) other [of j] by (auto simp: tasks_ok_def)
  ultimately show "tasks_ok r" using sp(4) cnt by (simp add: tasks_ok_def)
qed

lemma task_free_slot_commit_ok:
  assumes "tasks_ok s" and "i < task_pool_count s"
  shows "tasks_ok (task_free_slot_commit i s)"
    and "t_gen (task_pool (task_free_slot_commit i s) ! i) = free_slot_gen (t_gen (task_pool s ! i))"
proof -
  let ?r = "task_free_slot_commit i s"
  have len: "i < length (task_pool s)" "length (task_pool s) = MAX_TASKS"
    using assms by (auto simp: tasks_ok_def)
  have at: "t_state (task_pool ?r ! i) = TASK_FREE"
    "t_gen (task_pool ?r ! i) = free_slot_gen (t_gen (task_pool s ! i))"
    using len by (simp_all add: task_free_slot_commit_def)
  have other: "task_pool ?r ! j = task_pool s ! j" if "j \<noteq> i" for j
    using that by (simp add: task_free_slot_commit_def)
  have "unat (t_gen (task_pool ?r ! j)) < 0x8000" if "j < MAX_TASKS" for j
    using assms(1) that other [of j] next_gen_bounds [of "0x8000"]
    by (cases "j = i") (auto simp: tasks_ok_def at unat_free_slot_gen)
  moreover have "t_id (task_pool ?r ! j) = task_id_of (t_gen (task_pool ?r ! j)) j"
    if "j < task_pool_count s" "t_state (task_pool ?r ! j) \<noteq> TASK_FREE" for j
    using assms(1) that other [of j] at(1) by (cases "j = i") (auto simp: tasks_ok_def)
  moreover have "t_state (task_pool ?r ! j) \<noteq> TASK_FREE"
    if "j < MAX_TASKS" "task_pool_count s \<le> j" for j
    using assms that other [of j] by (auto simp: tasks_ok_def)
  ultimately show "tasks_ok ?r"
    using assms(1) by (simp add: tasks_ok_def task_free_slot_commit_def)
  show "t_gen (task_pool ?r ! i) = free_slot_gen (t_gen (task_pool s ! i))" by (rule at(2))
qed

section \<open>Properties\<close>

definition picked :: "(int \<times> int) list \<Rightarrow> 'a tasks_st_scheme \<Rightarrow> nat option list \<times> 'a tasks_st_scheme" where
  "picked calls s = fold (\<lambda>(current, cpu) (rs, s).
     case task_pick_and_claim current cpu s of (r, s') \<Rightarrow> (rs @ [r], s')) calls ([], s)"

lemma pick_step_owned:
  assumes ok: "length (task_pool s) = MAX_TASKS" "task_pool_count s \<le> MAX_TASKS"
    and own: "t_on_cpu (task_pool s ! i) = c" "c \<noteq> TASK_CPU_NONE" "cpu \<noteq> c"
    and pk: "task_pick_and_claim current cpu s = (r, s')"
  shows "r \<noteq> Some i" and "t_on_cpu (task_pool s' ! i) = c"
    and "length (task_pool s') = MAX_TASKS" and "task_pool_count s' = task_pool_count s"
proof -
  let ?p = "pick_scan (pick_eligible cpu) (task_pool s) (pick_order current (task_pool_count s)) None"
  have "task_pick_and_claim current cpu s =
      (?p, case ?p of Some k \<Rightarrow> task_upd k (t_on_cpu_update (\<lambda>_. cpu)) s | None \<Rightarrow> s)"
    by (cases ?p) (simp_all add: task_pick_and_claim_def task_pick_locked_def)
  with pk have r: "r = ?p" and s': "s' = (case ?p of Some k \<Rightarrow> task_upd k (t_on_cpu_update (\<lambda>_. cpu)) s | None \<Rightarrow> s)"
    by (metis prod.inject)+
  have ne: "?p \<noteq> Some i"
  proof
    assume "?p = Some i"
    then have "pick_eligible cpu (task_pool s ! i)" using pick_scan_result by blast
    with own show False by (auto simp: pick_eligible_def)
  qed
  then show "r \<noteq> Some i" by (simp add: r)
  show "t_on_cpu (task_pool s' ! i) = c" using ne own(1) by (cases ?p) (auto simp: s')
  show "length (task_pool s') = MAX_TASKS" "task_pool_count s' = task_pool_count s"
    using ok by (cases ?p; simp add: s')+
qed

text \<open>
  C18. The scheduler's pick: a task is picked only if it is running and free or already this
  CPU's, the claim makes it this CPU's and changes nothing else, an idle task is picked only
  when every candidate is idle, and nothing is picked only when there is no candidate.
\<close>

theorem task_pick_and_claim_correct:
  assumes "length (task_pool s) = MAX_TASKS" and "0 < task_pool_count s" and "task_pool_count s \<le> MAX_TASKS"
  shows "case task_pick_and_claim current cpu s of
     (None, s') \<Rightarrow> s' = s \<and> (\<forall>j < task_pool_count s. \<not> pick_eligible cpu (task_pool s ! j))
   | (Some i, s') \<Rightarrow> i < task_pool_count s \<and> pick_eligible cpu (task_pool s ! i)
       \<and> t_on_cpu (task_pool s' ! i) = cpu \<and> t_state (task_pool s' ! i) = TASK_RUNNING
       \<and> (\<forall>j. j \<noteq> i \<longrightarrow> task_pool s' ! j = task_pool s ! j)
       \<and> (t_is_idle (task_pool s ! i) \<longrightarrow>
            (\<forall>j < task_pool_count s. pick_eligible cpu (task_pool s ! j) \<longrightarrow> t_is_idle (task_pool s ! j)))"
proof -
  let ?p = "pick_scan (pick_eligible cpu) (task_pool s) (pick_order current (task_pool_count s)) None"
  have dom: "set (pick_order current (task_pool_count s)) = {..<task_pool_count s}"
    using assms(2) by (rule pick_order_range)
  show ?thesis
  proof (cases ?p)
    case None
    then have "\<forall>c \<in> set (pick_order current (task_pool_count s)). \<not> pick_eligible cpu (task_pool s ! c)"
      by (simp add: pick_scan_None)
    with None show ?thesis by (simp add: task_pick_and_claim_def task_pick_locked_def dom)
  next
    case (Some i)
    have i: "i < task_pool_count s" "pick_eligible cpu (task_pool s ! i)"
      using pick_scan_result [OF Some] dom by auto
    moreover have "t_is_idle (task_pool s ! j)"
      if "t_is_idle (task_pool s ! i)" "j < task_pool_count s" "pick_eligible cpu (task_pool s ! j)" for j
      using pick_scan_idle_last [OF Some that(1), of j] that dom by auto
    moreover have "i < length (task_pool s)" using i(1) assms by simp
    ultimately show ?thesis using Some
      by (auto simp: task_pick_and_claim_def task_pick_locked_def pick_eligible_def)
  qed
qed

text \<open>
  C19. Two CPUs never run the same task: once a task is some CPU's, no sequence of picks by
  other CPUs returns it or takes it away.
\<close>

theorem claimed_task_stays_claimed:
  assumes "length (task_pool s) = MAX_TASKS" and "task_pool_count s \<le> MAX_TASKS"
    and "t_on_cpu (task_pool s ! i) = c" and "c \<noteq> TASK_CPU_NONE" and "\<forall>call \<in> set calls. snd call \<noteq> c"
  shows "Some i \<notin> set (fst (picked calls s)) \<and> t_on_cpu (task_pool (snd (picked calls s)) ! i) = c"
proof -
  let ?g = "\<lambda>(current, cpu) (rs, s). case task_pick_and_claim current cpu s of (r, s') \<Rightarrow> (rs @ [r], s')"
  have "length (task_pool s) = MAX_TASKS \<Longrightarrow> task_pool_count s \<le> MAX_TASKS \<Longrightarrow> t_on_cpu (task_pool s ! i) = c \<Longrightarrow>
      \<forall>call \<in> set calls. snd call \<noteq> c \<Longrightarrow> Some i \<notin> set rs \<Longrightarrow>
      Some i \<notin> set (fst (fold ?g calls (rs, s))) \<and> t_on_cpu (task_pool (snd (fold ?g calls (rs, s))) ! i) = c" for rs
  proof (induction calls arbitrary: rs s)
    case (Cons call calls)
    obtain current cpu where call: "call = (current, cpu)" by fastforce
    obtain r s' where pk: "task_pick_and_claim current cpu s = (r, s')" by fastforce
    have "cpu \<noteq> c" using Cons.prems(4) call by auto
    note st = pick_step_owned [OF Cons.prems(1,2,3) assms(4) this pk]
    have "Some i \<notin> set (rs @ [r])" using Cons.prems(5) st(1) by auto
    with Cons.IH [OF st(3) _ st(2), of "rs @ [r]"] st(4) Cons.prems(2,4) show ?case by (simp add: call pk)
  qed simp
  from this [of "[]"] assms show ?thesis by (simp add: picked_def)
qed

text \<open>
  C12. Process ids: a slot that is freed and allocated again has another id than before, the
  id decodes to its slot, and it is no live task's id.
\<close>

theorem pid_fresh_after_free:
  assumes ok: "tasks_ok s" and i: "i < task_pool_count s" "t_state (task_pool s ! i) \<noteq> TASK_FREE"
    and al: "task_alloc_slot (task_free_slot_commit i s) = (Some j, r)"
  shows "t_id (task_pool r ! j) \<noteq> t_id (task_pool s ! i)
    \<and> PID_SLOT (word_of_int (t_id (task_pool r ! j))) = of_nat j
    \<and> (\<forall>k < task_pool_count r. k \<noteq> j \<and> t_state (task_pool r ! k) \<noteq> TASK_FREE \<longrightarrow>
         t_id (task_pool r ! k) \<noteq> t_id (task_pool r ! j))"
proof -
  let ?f = "task_free_slot_commit i s"
  note fr = task_free_slot_commit_ok [OF ok i(1)]
  note as = task_alloc_slot_spec [OF fr(1) al]
  have rng: "unat (t_gen (task_pool r ! k)) < 0x8000" if "k < MAX_TASKS" for k
    using as(1) that by (simp add: tasks_ok_def)
  have cnt: "task_pool_count r \<le> MAX_TASKS" using as(1) by (simp add: tasks_ok_def)
  have jm: "j < MAX_TASKS" and im: "i < MAX_TASKS" using as(2) cnt i(1) ok by (auto simp: tasks_ok_def)
  have idj: "t_id (task_pool r ! j) = task_id_of (t_gen (task_pool r ! j)) j" using as(4,5) by simp
  have idi: "t_id (task_pool s ! i) = task_id_of (t_gen (task_pool s ! i)) i" using ok i by (simp add: tasks_ok_def)
  have gi: "unat (t_gen (task_pool s ! i)) < 0x8000" using ok im by (simp add: tasks_ok_def)
  have "t_id (task_pool r ! j) \<noteq> t_id (task_pool s ! i)"
  proof
    assume eq: "t_id (task_pool r ! j) = t_id (task_pool s ! i)"
    then have ji: "j = i" using task_id_of_inj [OF rng [OF jm] jm gi im] idj idi by simp
    then have "t_gen (task_pool r ! j) = t_gen (task_pool s ! i)"
      using task_id_of_gen [OF rng [OF jm] gi jm] idj idi eq by simp
    moreover have "unat (t_gen (task_pool r ! j)) = next_gen 0x8000 (unat (t_gen (task_pool s ! i)))"
      using as(5) ji fr(2) by (simp add: unat_free_slot_gen)
    ultimately show False
      using next_gen_neq [of "0x8000" "unat (t_gen (task_pool s ! i))"] gi next_gen_bounds [of "0x8000" 0]
      by (cases "unat (t_gen (task_pool s ! i)) = 0") simp_all
  qed
  moreover have "PID_SLOT (word_of_int (t_id (task_pool r ! j))) = of_nat j"
    unfolding idj by (rule task_id_of_slot [OF rng [OF jm] jm])
  moreover have "t_id (task_pool r ! k) \<noteq> t_id (task_pool r ! j)"
    if "k < task_pool_count r" "k \<noteq> j" "t_state (task_pool r ! k) \<noteq> TASK_FREE" for k
  proof
    assume eq: "t_id (task_pool r ! k) = t_id (task_pool r ! j)"
    have km: "k < MAX_TASKS" using that(1) cnt by simp
    have "t_id (task_pool r ! k) = task_id_of (t_gen (task_pool r ! k)) k"
      using as(1) that by (simp add: tasks_ok_def)
    with eq idj that(2) task_id_of_inj [OF rng [OF km] km rng [OF jm] jm] show False by simp
  qed
  ultimately show ?thesis by blast
qed

section \<open>Witnesses\<close>

lemma tasks_boot_ok: "tasks_ok tasks_boot"
  by (simp add: tasks_ok_def tasks_boot_def zero_task_def)

definition two_tasks :: tasks_st where
  "two_tasks = snd (task_alloc_slot (snd (task_alloc_slot tasks_boot)))"

lemma two_tasks_ok: "tasks_ok two_tasks"
proof -
  have a: "fst (task_alloc_slot tasks_boot) = Some 0" by code_simp
  have b: "fst (task_alloc_slot (snd (task_alloc_slot tasks_boot))) = Some 1" by code_simp
  have "tasks_ok (snd (task_alloc_slot tasks_boot))"
    by (rule task_alloc_slot_spec(1) [OF tasks_boot_ok, of 0]) (simp add: prod_eq_iff a)
  then show ?thesis unfolding two_tasks_def
    by (rule task_alloc_slot_spec(1) [where i = 1]) (simp add: prod_eq_iff b del: One_nat_def)
qed

lemma two_tasks_shape: "length (task_pool two_tasks) = MAX_TASKS" "task_pool_count two_tasks = 2"
  "t_state (task_pool two_tasks ! 1) = TASK_RUNNING"
  by code_simp+

theorem task_pick_and_claim_witness:
  "fst (task_pick_and_claim 0 3 two_tasks) = Some 1 \<and>
   t_on_cpu (task_pool (snd (task_pick_and_claim 0 3 two_tasks)) ! 1) = 3"
proof -
  have p: "fst (task_pick_and_claim 0 3 two_tasks) = Some 1" by code_simp
  have "0 < task_pool_count two_tasks" "task_pool_count two_tasks \<le> MAX_TASKS"
    by (simp_all add: two_tasks_shape MAX_TASKS_def)
  from task_pick_and_claim_correct [OF two_tasks_shape(1) this, where current = 0 and cpu = 3] p show ?thesis
    by (auto split: prod.splits option.splits)
qed

theorem claimed_task_witness:
  "Some 1 \<notin> set (fst (picked [(0, 1), (1, 2)] (task_cpu_claim (Some 1) 3 two_tasks)))"
proof -
  have "length (task_pool (task_cpu_claim (Some 1) 3 two_tasks)) = MAX_TASKS"
    "task_pool_count (task_cpu_claim (Some 1) 3 two_tasks) \<le> MAX_TASKS"
    "t_on_cpu (task_pool (task_cpu_claim (Some 1) 3 two_tasks) ! 1) = 3" by code_simp+
  from claimed_task_stays_claimed [OF this, of "[(0, 1), (1, 2)]"] show ?thesis
    by (simp add: TASK_CPU_NONE_def)
qed

theorem pid_fresh_witness:
  "t_id (task_pool (snd (task_alloc_slot (task_free_slot_commit 1 two_tasks))) ! 1) \<noteq> t_id (task_pool two_tasks ! 1)"
proof -
  have a: "fst (task_alloc_slot (task_free_slot_commit 1 two_tasks)) = Some 1" by code_simp
  have al: "task_alloc_slot (task_free_slot_commit 1 two_tasks)
      = (Some 1, snd (task_alloc_slot (task_free_slot_commit 1 two_tasks)))"
    by (simp add: prod_eq_iff a del: One_nat_def)
  show ?thesis
    using pid_fresh_after_free [OF two_tasks_ok _ _ al] by (simp add: two_tasks_shape del: One_nat_def)
qed

end
