(* ===== verification/Objects.thy ===== *)
theory Objects
  imports Tasks
begin

text \<open>
  The object table and the capability handles of \<^verbatim>\<open>src/objects/object.c\<close>. An object is a slot
  with a reference count and a destroy callback; a handle is a task's slot number tagged with
  a 24-bit generation and a set of rights. The destroy callbacks of the other components are
  named by \<open>destroy_fn\<close>, as the code names them by function pointer, and the operations that
  may run one take the dispatcher \<open>D\<close>. The locale \<open>destroy_contract\<close> is what the object
  table needs from a callback; under it the handle table is a \<open>gen_table\<close>.
\<close>

section \<open>State\<close>

definition KOBJECT_MAX :: nat where "KOBJECT_MAX = 128"
definition KHANDLE_MAX :: nat where "KHANDLE_MAX = 32"

definition KOBJECT_NONE :: u32 where "KOBJECT_NONE = 0"
definition KOBJECT_EVENT :: u32 where "KOBJECT_EVENT = 1"
definition KOBJECT_ENDPOINT :: u32 where "KOBJECT_ENDPOINT = 8"
definition KOBJECT_PAGE :: u32 where "KOBJECT_PAGE = 10"
definition KOBJECT_SHARED_MEMORY :: u32 where "KOBJECT_SHARED_MEMORY = 11"
definition KOBJECT_RING :: u32 where "KOBJECT_RING = 13"
definition KOBJECT_COMPLETION :: u32 where "KOBJECT_COMPLETION = 14"
definition KOBJECT_TIMER :: u32 where "KOBJECT_TIMER = 15"
definition KOBJECT_PACKET_POOL :: u32 where "KOBJECT_PACKET_POOL = 16"

definition KRIGHT_READ :: u32 where "KRIGHT_READ = 1"
definition KRIGHT_WRITE :: u32 where "KRIGHT_WRITE = 2"
definition KRIGHT_WAIT :: u32 where "KRIGHT_WAIT = 4"
definition KRIGHT_SIGNAL :: u32 where "KRIGHT_SIGNAL = 8"
definition KRIGHT_MAP :: u32 where "KRIGHT_MAP = 16"
definition KRIGHT_CONTROL :: u32 where "KRIGHT_CONTROL = 32"
definition KRIGHT_TRANSFER :: u32 where "KRIGHT_TRANSFER = 64"
definition KRIGHT_ALL :: u32 where "KRIGHT_ALL = 0x7F"

text \<open>The functions the code registers as \<^verbatim>\<open>object_destroy_fn\<close>.\<close>

datatype destroy_fn =
    event_destroy_fn | endpoint_destroy_fn | completion_destroy_fn | page_destroy_fn
  | ring_destroy_fn | timer_destroy_fn | pool_destroy_fn | mmio_destroy_fn | irq_destroy_fn
  | dma_destroy_fn | pci_destroy_fn | msix_destroy_fn | sg_destroy_fn | vnic_destroy_fn
  | socket_destroy_fn | interface_destroy_fn | node_destroy_fn | mount_destroy_fn
  | file_destroy_fn | nvme_destroy_fn

record kernel_object =
  ko_type :: u32
  ko_references :: u32
  ko_value :: u64
  ko_destroy :: "destroy_fn option"
  ko_active :: bool

record handle_slot =
  hs_object :: "nat option"
  hs_rights :: u32
  hs_generation :: u32

record objects_st = tasks_st +
  objects :: "kernel_object list"
  handles :: "handle_slot list list"

definition obj_upd :: "nat \<Rightarrow> (kernel_object \<Rightarrow> kernel_object)
    \<Rightarrow> 'a objects_st_scheme \<Rightarrow> 'a objects_st_scheme" where
  "obj_upd o' f s = s\<lparr>objects := (objects s)[o' := f (objects s ! o')]\<rparr>"

definition hs_upd :: "nat \<Rightarrow> nat \<Rightarrow> (handle_slot \<Rightarrow> handle_slot)
    \<Rightarrow> 'a objects_st_scheme \<Rightarrow> 'a objects_st_scheme" where
  "hs_upd t i f s = s\<lparr>handles := (handles s)[t := (handles s ! t)[i := f (handles s ! t ! i)]]\<rparr>"

section \<open>Objects\<close>

definition task_index :: "nat option \<Rightarrow> 'a tasks_st_scheme \<Rightarrow> nat option" where
  "task_index t s =
     (case t of None \<Rightarrow> None
      | Some i \<Rightarrow>
          if MAX_TASKS \<le> i \<or> t_state (task_pool s ! i) = TASK_FREE
             \<or> t_state (task_pool s ! i) = TASK_ZOMBIE
          then None else Some i)"

definition handle_value :: "handle_slot \<Rightarrow> nat \<Rightarrow> u32" where
  "handle_value slot index = push_bit 8 (hs_generation slot) OR of_nat (index + 1)"

definition handle_slot_for :: "nat option \<Rightarrow> u32 \<Rightarrow> 'a objects_st_scheme \<Rightarrow> (nat \<times> nat) option" where
  "handle_slot_for t handle s =
     (case task_index t s of None \<Rightarrow> None
      | Some owner \<Rightarrow>
          let low = unat (handle AND 0xFF) in
          if low = 0 \<or> KHANDLE_MAX < low then None
          else let slot = handles s ! owner ! (low - 1) in
               if hs_object slot = None \<or> hs_generation slot \<noteq> drop_bit 8 handle then None
               else Some (owner, low - 1))"

definition object_init :: "'a objects_st_scheme \<Rightarrow> 'a objects_st_scheme" where
  "object_init s =
     s\<lparr>objects := replicate KOBJECT_MAX \<lparr>ko_type = KOBJECT_NONE, ko_references = 0, ko_value = 0,
                     ko_destroy = None, ko_active = False\<rparr>,
       handles := replicate MAX_TASKS (replicate KHANDLE_MAX
                     \<lparr>hs_object = None, hs_rights = 0, hs_generation = 1\<rparr>)\<rparr>"

definition object_create :: "u32 \<Rightarrow> u64 \<Rightarrow> destroy_fn option
    \<Rightarrow> 'a objects_st_scheme \<Rightarrow> nat option \<times> 'a objects_st_scheme" where
  "object_create type value destroy s =
     (if type = KOBJECT_NONE then (None, s)
      else case first_index (\<lambda>ob. \<not> ko_active ob) (objects s) of
             None \<Rightarrow> (None, s)
           | Some i \<Rightarrow> (Some i, obj_upd i (\<lambda>_. \<lparr>ko_type = type, ko_references = 1, ko_value = value,
                          ko_destroy = destroy, ko_active = True\<rparr>) s))"

definition object_retain_locked :: "nat \<Rightarrow> 'a objects_st_scheme \<Rightarrow> bool \<times> 'a objects_st_scheme" where
  "object_retain_locked i s =
     (let ob = objects s ! i in
      if \<not> ko_active ob \<or> ko_references ob = 0 \<or> ko_references ob = 0xFFFFFFFF then (False, s)
      else (True, obj_upd i (ko_references_update (\<lambda>r. r + 1)) s))"

definition object_retain :: "nat option \<Rightarrow> 'a objects_st_scheme \<Rightarrow> bool \<times> 'a objects_st_scheme" where
  "object_retain p s = (case p of None \<Rightarrow> (False, s) | Some i \<Rightarrow> object_retain_locked i s)"

text \<open>
  The last release clears the callback, runs it with the slot still claimed, and only then
  gives the slot back.
\<close>

definition object_release :: "(destroy_fn \<Rightarrow> nat \<Rightarrow> 'a objects_st_scheme \<Rightarrow> 'a objects_st_scheme)
    \<Rightarrow> nat option \<Rightarrow> 'a objects_st_scheme \<Rightarrow> 'a objects_st_scheme" where
  "object_release D p s =
     (case p of None \<Rightarrow> s
      | Some i \<Rightarrow>
          let ob = objects s ! i in
          if \<not> ko_active ob \<or> ko_references ob = 0 then s
          else let s1 = obj_upd i (ko_references_update (\<lambda>r. r - 1)) s in
               if ko_references ob - 1 \<noteq> 0 then s1
               else let s2 = obj_upd i (ko_destroy_update (\<lambda>_. None)) s1;
                        s3 = (case ko_destroy ob of None \<Rightarrow> s2 | Some d \<Rightarrow> D d i s2)
                    in obj_upd i (\<lambda>ob. ob\<lparr>ko_type := KOBJECT_NONE, ko_value := 0,
                                           ko_active := False\<rparr>) s3)"

section \<open>Handles\<close>

text \<open>A failed operation answers the handle 0.\<close>

definition handle_open_locked :: "nat \<Rightarrow> nat \<Rightarrow> u32 \<Rightarrow> 'a objects_st_scheme
    \<Rightarrow> u32 \<times> 'a objects_st_scheme" where
  "handle_open_locked owner ob rights s =
     (case first_index (\<lambda>sl. hs_object sl = None) (handles s ! owner) of
        None \<Rightarrow> (0, s)
      | Some index \<Rightarrow>
          (case object_retain_locked ob s of
             (False, s1) \<Rightarrow> (0, s1)
           | (True, s1) \<Rightarrow>
               let s2 = hs_upd owner index (\<lambda>sl. sl\<lparr>hs_object := Some ob, hs_rights := rights\<rparr>) s1
               in (handle_value (handles s2 ! owner ! index) index, s2)))"

definition handle_open :: "nat option \<Rightarrow> nat option \<Rightarrow> u32 \<Rightarrow> 'a objects_st_scheme
    \<Rightarrow> u32 \<times> 'a objects_st_scheme" where
  "handle_open t p rights s =
     (case (task_index t s, p) of
        (Some owner, Some ob) \<Rightarrow>
          if rights = 0 \<or> rights AND NOT KRIGHT_ALL \<noteq> 0 then (0, s)
          else if \<not> ko_active (objects s ! ob) then (0, s)
          else handle_open_locked owner ob rights s
      | _ \<Rightarrow> (0, s))"

definition handle_get :: "nat option \<Rightarrow> u32 \<Rightarrow> u32 \<Rightarrow> u32 \<Rightarrow> 'a objects_st_scheme \<Rightarrow> nat option" where
  "handle_get t handle required_rights required_type s =
     (case handle_slot_for t handle s of
        None \<Rightarrow> None
      | Some (owner, index) \<Rightarrow>
          let slot = handles s ! owner ! index in
          if required_rights AND NOT (hs_rights slot) \<noteq> 0
             \<or> (required_type \<noteq> KOBJECT_NONE
                \<and> (case hs_object slot of None \<Rightarrow> True
                    | Some ob \<Rightarrow> ko_type (objects s ! ob) \<noteq> required_type))
          then None else hs_object slot)"

definition handle_gen :: "u32 \<Rightarrow> u32" where
  "handle_gen g = (let g' = (g + 1) AND 0xFFFFFF in if g' = 0 then 1 else g')"

definition clear_slot :: "nat \<Rightarrow> nat \<Rightarrow> 'a objects_st_scheme \<Rightarrow> 'a objects_st_scheme" where
  "clear_slot owner index s =
     hs_upd owner index (\<lambda>sl. sl\<lparr>hs_object := None, hs_rights := 0,
       hs_generation := handle_gen (hs_generation sl)\<rparr>) s"

definition handle_close :: "(destroy_fn \<Rightarrow> nat \<Rightarrow> 'a objects_st_scheme \<Rightarrow> 'a objects_st_scheme)
    \<Rightarrow> nat option \<Rightarrow> u32 \<Rightarrow> 'a objects_st_scheme \<Rightarrow> int \<times> 'a objects_st_scheme" where
  "handle_close D t handle s =
     (case handle_slot_for t handle s of
        None \<Rightarrow> (-1, s)
      | Some (owner, index) \<Rightarrow>
          let ob = hs_object (handles s ! owner ! index)
          in (0, object_release D ob (clear_slot owner index s)))"

definition handle_duplicate :: "nat option \<Rightarrow> nat option \<Rightarrow> u32 \<Rightarrow> u32 \<Rightarrow> 'a objects_st_scheme
    \<Rightarrow> u32 \<times> 'a objects_st_scheme" where
  "handle_duplicate source target handle rights s =
     (case task_index target s of
        None \<Rightarrow> (0, s)
      | Some owner \<Rightarrow>
          (case handle_slot_for source handle s of
             None \<Rightarrow> (0, s)
           | Some (src, index) \<Rightarrow>
               let slot = handles s ! src ! index in
               if hs_rights slot AND KRIGHT_TRANSFER = 0 \<or> rights = 0
                  \<or> rights AND NOT (hs_rights slot) \<noteq> 0
               then (0, s)
               else (case hs_object slot of
                       None \<Rightarrow> (0, s)
                     | Some ob \<Rightarrow> handle_open_locked owner ob rights s)))"

text \<open>
  The sweep of \<^verbatim>\<open>handle_revoke_object\<close>: one slot per pass, until no slot names the object. It
  answers how many slots it cleared; not returning would be \<open>None\<close>.
\<close>

definition find_handle :: "nat \<Rightarrow> 'a objects_st_scheme \<Rightarrow> (nat \<times> nat) option" where
  "find_handle ob s =
     (case first_index (\<lambda>row. first_index (\<lambda>sl. hs_object sl = Some ob) row \<noteq> None) (handles s) of
        None \<Rightarrow> None
      | Some owner \<Rightarrow> map_option (Pair owner)
          (first_index (\<lambda>sl. hs_object sl = Some ob) (handles s ! owner)))"

partial_function (option) revoke_sweep ::
  "(destroy_fn \<Rightarrow> nat \<Rightarrow> 'a objects_st_scheme \<Rightarrow> 'a objects_st_scheme)
    \<Rightarrow> nat \<Rightarrow> u32 \<Rightarrow> 'a objects_st_scheme \<Rightarrow> (u32 \<times> 'a objects_st_scheme) option" where
  "revoke_sweep D ob revoked s =
     (case find_handle ob s of
        None \<Rightarrow> Some (revoked, s)
      | Some (owner, index) \<Rightarrow>
          revoke_sweep D ob (revoked + 1) (object_release D (Some ob) (clear_slot owner index s)))"

definition handle_close_all :: "(destroy_fn \<Rightarrow> nat \<Rightarrow> 'a objects_st_scheme \<Rightarrow> 'a objects_st_scheme)
    \<Rightarrow> nat option \<Rightarrow> 'a objects_st_scheme \<Rightarrow> 'a objects_st_scheme" where
  "handle_close_all D t s =
     (case task_index t s of
        None \<Rightarrow> s
      | Some owner \<Rightarrow>
          fold (\<lambda>index s. let slot = handles s ! owner ! index in
                 if hs_object slot = None then s
                 else snd (handle_close D t (handle_value slot index) s)) [0..<KHANDLE_MAX] s)"

definition object_active_count :: "'a objects_st_scheme \<Rightarrow> nat" where
  "object_active_count s = count_if ko_active (objects s)"

definition handle_active_count :: "'a objects_st_scheme \<Rightarrow> nat" where
  "handle_active_count s = count_if (\<lambda>sl. hs_object sl \<noteq> None) (concat (handles s))"

definition handle_task_count :: "nat option \<Rightarrow> 'a objects_st_scheme \<Rightarrow> nat" where
  "handle_task_count t s =
     (case task_index t s of None \<Rightarrow> 0
      | Some owner \<Rightarrow> count_if (\<lambda>sl. hs_object sl \<noteq> None) (handles s ! owner))"

section \<open>Lemmas: table updates\<close>

lemma obj_upd_simps [simp, table_simps]:
  "length (objects (obj_upd i f s)) = length (objects s)"
  "handles (obj_upd i f s) = handles s"
  "task_pool (obj_upd i f s) = task_pool s"
  "task_pool_count (obj_upd i f s) = task_pool_count s"
  "task_result (obj_upd i f s) = task_result s"
  "i < length (objects s) \<Longrightarrow> objects (obj_upd i f s) ! i = f (objects s ! i)"
  "i \<noteq> j \<Longrightarrow> objects (obj_upd i f s) ! j = objects s ! j"
  by (simp_all add: obj_upd_def)

lemma hs_upd_simps [simp, table_simps]:
  "length (handles (hs_upd t i f s)) = length (handles s)"
  "objects (hs_upd t i f s) = objects s"
  "task_pool (hs_upd t i f s) = task_pool s"
  "task_pool_count (hs_upd t i f s) = task_pool_count s"
  "task_result (hs_upd t i f s) = task_result s"
  by (simp_all add: hs_upd_def)

lemma hs_upd_nth:
  assumes "t < length (handles s)" and "i < length (handles s ! t)"
  shows "handles (hs_upd t i f s) ! u ! j
       = (if u = t \<and> j = i then f (handles s ! t ! i) else handles s ! u ! j)"
    and "length (handles (hs_upd t i f s) ! u) = length (handles s ! u)"
  using assms by (auto simp: hs_upd_def nth_list_update)

lemma task_upd_objects [simp, table_simps]:
  "objects (task_upd i f s) = objects s" "handles (task_upd i f s) = handles s"
  "objects (task64_set_result i v s) = objects s" "handles (task64_set_result i v s) = handles s"
  by (simp_all add: task_upd_def task64_set_result_def)

lemma task_index_cong: "task_pool s = task_pool s' \<Longrightarrow> task_index t s = task_index t s'"
  by (cases t) (simp_all add: task_index_def)

lemma task_indexD: "task_index t s = Some i \<Longrightarrow> t = Some i \<and> i < MAX_TASKS"
  by (auto simp: task_index_def split: option.splits if_splits)

lemma handle_slot_for_cong:
  "handles s = handles s' \<Longrightarrow> task_index t s = task_index t s' \<Longrightarrow>
     handle_slot_for t h s = handle_slot_for t h s'"
  by (cases "task_index t s'") (simp_all add: handle_slot_for_def Let_def)

section \<open>Lemmas: handle values\<close>

lemma unat_handle_gen: "unat (handle_gen g) = next_gen (2 ^ 24) (unat g)"
proof -
  have eq: "(g + 1) AND 0xFFFFFF = take_bit 24 (g + 1)"
    by (simp add: take_bit_eq_mask mask_eq_exp_minus_1)
  have "unat (take_bit 24 (g + 1)) = take_bit 24 (unat (g + 1))"
    by (simp add: unsigned_take_bit_eq)
  also have "\<dots> = (unat g + 1) mod 2 ^ 24"
  proof -
    have "unat (g + 1) = (unat g + 1) mod 2 ^ 32"
      by (simp add: unat_word_ariths unsigned_1)
    moreover have "(2::nat) ^ 24 dvd 2 ^ 32" by (rule le_imp_power_dvd) simp
    ultimately show ?thesis
      by (simp add: take_bit_eq_mod mod_mod_cancel)
  qed
  finally have u: "unat ((g + 1) AND 0xFFFFFF) = (unat g + 1) mod 2 ^ 24" by (simp only: eq)
  moreover have "(g + 1) AND 0xFFFFFF = 0 \<longleftrightarrow> unat ((g + 1) AND 0xFFFFFF) = 0"
    by (simp only: unat_eq_zero)
  ultimately show ?thesis by (simp add: handle_gen_def next_gen_def Let_def)
qed

text \<open>A handle value decodes to the slot and the generation it was made of.\<close>

lemma handle_value_decode:
  assumes "unat (hs_generation sl) < 2 ^ 24" and "i < KHANDLE_MAX"
  shows "unat (handle_value sl i AND 0xFF) = Suc i" and "drop_bit 8 (handle_value sl i) = hs_generation sl"
    and "handle_value sl i \<noteq> 0"
proof -
  let ?g = "hs_generation sl"
  have i: "Suc i < 2 ^ 8" using assms(2) by (simp add: KHANDLE_MAX_def)
  have low: "take_bit 8 (of_nat (Suc i) :: u32) = of_nat (Suc i)"
    using i by (metis take_bit_nat_eq_self take_bit_of_nat)
  then have nb: "\<not> bit (of_nat (Suc i) :: u32) n" if "8 \<le> n" for n
    using that by (metis bit_take_bit_iff not_le)
  have "unat (take_bit 24 ?g) = unat ?g"
    using assms(1) by (simp add: unsigned_take_bit_eq take_bit_nat_eq_self)
  then have "take_bit 24 ?g = ?g" by (simp only: word_unat_eq_iff)
  then have ng: "\<not> bit ?g n" if "24 \<le> n" for n using that by (metis bit_take_bit_iff not_le)
  have "handle_value sl i AND 0xFF = take_bit 8 (push_bit 8 ?g OR of_nat (Suc i))"
    by (simp only: handle_value_def take_bit_eq_mask mask_eq_exp_minus_1) simp
  also have "\<dots> = take_bit 8 (of_nat (Suc i))"
    by (rule bit_word_eqI) (auto simp: bit_simps)
  finally have lo: "handle_value sl i AND 0xFF = of_nat (Suc i)" using low by simp
  show u: "unat (handle_value sl i AND 0xFF) = Suc i"
    unfolding lo using i by (simp only: unat_of_nat) (rule mod_less, simp)
  show "drop_bit 8 (handle_value sl i) = ?g"
    unfolding handle_value_def Suc_eq_plus1 [symmetric]
  proof (rule bit_word_eqI)
    fix n
    have "bit ?g n \<Longrightarrow> n < 24" using ng not_le by blast
    moreover have "\<not> bit (of_nat (Suc i) :: u32) (8 + n)" by (rule nb) simp
    ultimately show "bit (drop_bit 8 (push_bit 8 ?g OR of_nat (Suc i))) n = bit ?g n"
      by (auto simp: bit_simps simp del: of_nat_Suc)
  qed
  show "handle_value sl i \<noteq> 0" using u by auto
qed

lemma handle_recompose:
  fixes h :: u32
  assumes "h AND 0xFF = h' AND 0xFF" and "drop_bit 8 h = drop_bit 8 h'"
  shows "h = h'"
proof -
  have m: "(0xFF :: u32) = mask 8" by (simp add: mask_eq_exp_minus_1)
  have "h = push_bit 8 (drop_bit 8 h) OR (h AND mask 8)" for h :: u32
    by (rule bit_word_eqI) (auto simp: bit_simps)
  with assms show ?thesis unfolding m by metis
qed

section \<open>The handle table\<close>

definition handles_ok :: "'a objects_st_scheme \<Rightarrow> bool" where
  "handles_ok s \<longleftrightarrow> length (handles s) = MAX_TASKS \<and>
     (\<forall>t < MAX_TASKS. length (handles s ! t) = KHANDLE_MAX \<and>
        (\<forall>i < KHANDLE_MAX. 0 < unat (hs_generation (handles s ! t ! i))
                            \<and> unat (hs_generation (handles s ! t ! i)) < 2 ^ 24))"

lemma handles_okD:
  assumes "handles_ok s" and "t < MAX_TASKS"
  shows "t < length (handles s)" "length (handles s ! t) = KHANDLE_MAX"
    "i < KHANDLE_MAX \<Longrightarrow> 0 < unat (hs_generation (handles s ! t ! i))"
    "i < KHANDLE_MAX \<Longrightarrow> unat (hs_generation (handles s ! t ! i)) < 2 ^ 24"
  using assms by (simp_all add: handles_ok_def)

text \<open>A handle names a slot exactly when it is the value made of the slot's number and generation.\<close>

lemma handle_slot_for_iff:
  assumes ok: "handles_ok s"
  shows "handle_slot_for t h s = Some (owner, i) \<longleftrightarrow>
     task_index t s = Some owner \<and> i < KHANDLE_MAX \<and> hs_object (handles s ! owner ! i) \<noteq> None
     \<and> h = handle_value (handles s ! owner ! i) i" (is "?L \<longleftrightarrow> ?R")
proof
  assume L: ?L
  then have ti: "task_index t s = Some owner"
    by (auto simp: handle_slot_for_def Let_def split: option.splits if_splits)
  have owner: "owner < MAX_TASKS" using task_indexD [OF ti] by simp
  from L ti have i: "unat (h AND 0xFF) = Suc i" "i < KHANDLE_MAX"
    and sl: "hs_object (handles s ! owner ! i) \<noteq> None" "hs_generation (handles s ! owner ! i) = drop_bit 8 h"
    by (auto simp: handle_slot_for_def Let_def split: if_splits)
  let ?v = "handle_value (handles s ! owner ! i) i"
  note dec = handle_value_decode [OF handles_okD(4) [OF ok owner i(2)] i(2)]
  have "h AND 0xFF = ?v AND 0xFF" using i(1) dec(1) by (metis word_unat_eq_iff)
  moreover have "drop_bit 8 h = drop_bit 8 ?v" using sl(2) dec(2) by simp
  ultimately have "h = ?v" by (rule handle_recompose)
  with ti i(2) sl(1) show ?R by simp
next
  assume R: ?R
  then have owner: "owner < MAX_TASKS" using task_indexD by blast
  note dec = handle_value_decode [OF handles_okD(4) [OF ok owner] ]
  from R show ?L by (simp add: handle_slot_for_def Let_def dec)
qed

text \<open>What a successful open of a slot does.\<close>

lemma handle_open_lockedE:
  assumes ok: "handles_ok s" and owner: "owner < MAX_TASKS"
    and op: "handle_open_locked owner ob r s = (h, s')" and h: "h \<noteq> 0"
  obtains index where "index < KHANDLE_MAX" "hs_object (handles s ! owner ! index) = None"
    "h = handle_value (handles s ! owner ! index) index"
    "ko_active (objects s ! ob)" "ko_references (objects s ! ob) \<noteq> 0"
    "ko_references (objects s ! ob) \<noteq> 0xFFFFFFFF"
    "s' = hs_upd owner index (\<lambda>sl. sl\<lparr>hs_object := Some ob, hs_rights := r\<rparr>)
            (obj_upd ob (ko_references_update (\<lambda>r. r + 1)) s)"
proof -
  from op h obtain index where fi: "first_index (\<lambda>sl. hs_object sl = None) (handles s ! owner) = Some index"
    by (auto simp: handle_open_locked_def split: option.splits)
  note fd = first_indexD(1,2) [OF fi]
  have index: "index < KHANDLE_MAX" using fd(1) handles_okD(2) [OF ok owner] by simp
  from op h fi have ret: "ko_active (objects s ! ob)" "ko_references (objects s ! ob) \<noteq> 0"
    "ko_references (objects s ! ob) \<noteq> 0xFFFFFFFF"
    by (auto simp: handle_open_locked_def object_retain_locked_def Let_def split: if_splits)
  let ?s1 = "obj_upd ob (ko_references_update (\<lambda>r. r + 1)) s"
  let ?s2 = "hs_upd owner index (\<lambda>sl. sl\<lparr>hs_object := Some ob, hs_rights := r\<rparr>) ?s1"
  from op fi ret have "s' = ?s2" "h = handle_value (handles ?s2 ! owner ! index) index"
    by (auto simp: handle_open_locked_def object_retain_locked_def Let_def)
  moreover have "handle_value (handles ?s2 ! owner ! index) index
      = handle_value (handles s ! owner ! index) index"
    using fd(1) handles_okD(1) [OF ok owner] by (simp add: hs_upd_nth handle_value_def)
  ultimately show thesis using that index fd(2) ret by simp
qed

lemma hs_upd_handles_ok:
  assumes "handles_ok s" and "t < MAX_TASKS" and "i < KHANDLE_MAX"
    and "0 < unat (hs_generation (f (handles s ! t ! i)))"
    and "unat (hs_generation (f (handles s ! t ! i))) < 2 ^ 24"
  shows "handles_ok (hs_upd t i f s)"
  using assms hs_upd_nth [of t s i f] by (auto simp: handles_ok_def)

lemma handles_ok_cong: "handles s = handles s' \<Longrightarrow> handles_ok s = handles_ok s'"
  by (simp add: handles_ok_def)

lemma clear_slot_handles_ok:
  assumes "handles_ok s" and "t < MAX_TASKS" and "i < KHANDLE_MAX"
  shows "handles_ok (clear_slot t i s)"
  unfolding clear_slot_def using assms
  by (intro hs_upd_handles_ok) (simp_all add: unat_handle_gen next_gen_bounds)

lemma clear_slot_nth:
  assumes "handles_ok s" and "u < MAX_TASKS" and "k < KHANDLE_MAX"
  shows "handles (clear_slot u k s) ! t ! i = (if t = u \<and> i = k then (handles s ! u ! k)\<lparr>hs_object := None,
        hs_rights := 0, hs_generation := handle_gen (hs_generation (handles s ! u ! k))\<rparr>
        else handles s ! t ! i)"
  unfolding clear_slot_def using handles_okD(1,2) [OF assms(1,2)] assms(3) by (subst hs_upd_nth) simp_all

section \<open>The callback contract, and handles as a generation table\<close>

text \<open>
  A destroy callback leaves every task's handles alone and neither ends nor revives a task.
\<close>

locale destroy_contract =
  fixes D :: "destroy_fn \<Rightarrow> nat \<Rightarrow> 'a objects_st_scheme \<Rightarrow> 'a objects_st_scheme"
  assumes D_handles: "handles (D d i s) = handles s"
    and D_task_index: "task_index t (D d i s) = task_index t s"
begin

lemma release_handles: "handles (object_release D p s) = handles s"
  by (auto simp: object_release_def Let_def D_handles split: option.splits)

lemma release_task_index: "task_index t (object_release D p s) = task_index t s"
proof -
  have "task_index t (obj_upd i f s) = task_index t s" for i f s
    by (rule task_index_cong) simp
  then show ?thesis
    by (auto simp: object_release_def Let_def D_task_index split: option.splits)
qed

end

datatype handle_request = Open_req nat nat u32 | Dup_req nat nat u32 u32
datatype object_touch = Create_obj u32 u64 "destroy_fn option" | Retain_obj nat | Release_obj nat

definition live_handles :: "'a objects_st_scheme \<Rightarrow> (nat \<times> u32) set" where
  "live_handles s = {(t, h). handle_slot_for (Some t) h s \<noteq> None}"

definition handle_alloc :: "handle_request \<Rightarrow> 'a objects_st_scheme
    \<Rightarrow> ((nat \<times> u32) \<times> 'a objects_st_scheme) option" where
  "handle_alloc req s =
     (case req of
        Open_req t ob r \<Rightarrow>
          (case handle_open (Some t) (Some ob) r s of (h, s') \<Rightarrow> if h = 0 then None else Some ((t, h), s'))
      | Dup_req src t h r \<Rightarrow>
          (case handle_duplicate (Some src) (Some t) h r s of
             (h', s') \<Rightarrow> if h' = 0 then None else Some ((t, h'), s')))"

definition handle_free :: "(destroy_fn \<Rightarrow> nat \<Rightarrow> 'a objects_st_scheme \<Rightarrow> 'a objects_st_scheme)
    \<Rightarrow> nat \<times> u32 \<Rightarrow> 'a objects_st_scheme \<Rightarrow> 'a objects_st_scheme option" where
  "handle_free D x s =
     (case handle_close D (Some (fst x)) (snd x) s of (r, s') \<Rightarrow> if r = 0 then Some s' else None)"

definition object_op :: "(destroy_fn \<Rightarrow> nat \<Rightarrow> 'a objects_st_scheme \<Rightarrow> 'a objects_st_scheme)
    \<Rightarrow> object_touch \<Rightarrow> 'a objects_st_scheme \<Rightarrow> 'a objects_st_scheme" where
  "object_op D op s =
     (case op of
        Create_obj ty v d \<Rightarrow> snd (object_create ty v d s)
      | Retain_obj ob \<Rightarrow> snd (object_retain (Some ob) s)
      | Release_obj ob \<Rightarrow> object_release D (Some ob) s)"

definition handle_slot_no :: "nat \<times> u32 \<Rightarrow> nat" where
  "handle_slot_no x = fst x * KHANDLE_MAX + (unat (snd x AND 0xFF) - 1)"

definition slot_generation :: "'a objects_st_scheme \<Rightarrow> nat \<Rightarrow> nat" where
  "slot_generation s k = unat (hs_generation (handles s ! (k div KHANDLE_MAX) ! (k mod KHANDLE_MAX)))"

lemma live_handles_eq:
  "handles_ok s \<Longrightarrow> live_handles s = {(t, h). \<exists>i < KHANDLE_MAX. task_index (Some t) s = Some t
     \<and> hs_object (handles s ! t ! i) \<noteq> None \<and> h = handle_value (handles s ! t ! i) i}"
proof -
  assume ok: "handles_ok s"
  have "handle_slot_for (Some t) h s \<noteq> None \<longleftrightarrow> (\<exists>i < KHANDLE_MAX. task_index (Some t) s = Some t
     \<and> hs_object (handles s ! t ! i) \<noteq> None \<and> h = handle_value (handles s ! t ! i) i)" for t h
  proof -
    have "handle_slot_for (Some t) h s \<noteq> None \<longleftrightarrow> (\<exists>owner i. handle_slot_for (Some t) h s = Some (owner, i))"
      by auto
    also have "\<dots> \<longleftrightarrow> (\<exists>i. handle_slot_for (Some t) h s = Some (t, i))"
      using task_indexD [of "Some t" s] by (auto simp: handle_slot_for_iff [OF ok])
    finally show ?thesis by (auto simp: handle_slot_for_iff [OF ok])
  qed
  then show ?thesis by (auto simp: live_handles_def)
qed

lemma handle_slot_no_value:
  assumes "handles_ok s" and "t < MAX_TASKS" and "i < KHANDLE_MAX"
  shows "handle_slot_no (t, handle_value (handles s ! t ! i) i) = t * KHANDLE_MAX + i"
    and "unat (drop_bit 8 (handle_value (handles s ! t ! i) i)) = slot_generation s (t * KHANDLE_MAX + i)"
proof -
  note dec = handle_value_decode [OF handles_okD(4) [OF assms] assms(3)]
  show "handle_slot_no (t, handle_value (handles s ! t ! i) i) = t * KHANDLE_MAX + i"
    by (simp add: handle_slot_no_def dec)
  have "(t * KHANDLE_MAX + i) div KHANDLE_MAX = t" "(t * KHANDLE_MAX + i) mod KHANDLE_MAX = i"
    using assms(3) by auto
  then show "unat (drop_bit 8 (handle_value (handles s ! t ! i) i)) = slot_generation s (t * KHANDLE_MAX + i)"
    by (simp add: slot_generation_def dec)
qed

text \<open>Both ways to get a handle end in the same open of a free slot.\<close>

lemma handle_allocE:
  assumes "handle_alloc req s = Some (x, s')"
  obtains ob r where "task_index (Some (fst x)) s = Some (fst x)"
    "handle_open_locked (fst x) ob r s = (snd x, s')" "snd x \<noteq> 0"
proof (cases req)
  case (Open_req t ob r)
  with assms have "task_index (Some t) s = Some t"
    using task_indexD [of "Some t" s]
    by (auto simp: handle_alloc_def handle_open_def split: option.splits if_splits prod.splits)
  with Open_req assms show thesis
    by (intro that [of ob r])
      (auto simp: handle_alloc_def handle_open_def split: if_splits prod.splits)
next
  case (Dup_req src t h r)
  with assms have ti: "task_index (Some t) s = Some t"
    using task_indexD [of "Some t" s]
    by (auto simp: handle_alloc_def handle_duplicate_def split: option.splits if_splits prod.splits)
  with Dup_req assms show thesis
    by (auto simp: handle_alloc_def handle_duplicate_def Let_def
          intro: that split: if_splits prod.splits option.splits)
qed

lemma handle_alloc_spec:
  assumes ok: "handles_ok s" and al: "handle_alloc req s = Some (x, s')"
  shows "handles_ok s'" "x \<notin> live_handles s" "live_handles s' = insert x (live_handles s)"
    "slot_generation s' k = slot_generation s k"
proof -
  obtain t h where x: "x = (t, h)" by fastforce
  obtain ob r where ti: "task_index (Some t) s = Some t"
    and op: "handle_open_locked t ob r s = (h, s')" "h \<noteq> 0"
    using handle_allocE [OF al] x by auto
  have t: "t < MAX_TASKS" using task_indexD [OF ti] by simp
  obtain i where i: "i < KHANDLE_MAX" and free: "hs_object (handles s ! t ! i) = None"
    and h: "h = handle_value (handles s ! t ! i) i"
    and s': "s' = hs_upd t i (\<lambda>sl. sl\<lparr>hs_object := Some ob, hs_rights := r\<rparr>)
            (obj_upd ob (ko_references_update (\<lambda>r. r + 1)) s)"
    using handle_open_lockedE [OF ok t op] by metis
  note okt = handles_okD [OF ok t]
  have nth: "handles s' ! u ! j = (if u = t \<and> j = i
      then (handles s ! t ! i)\<lparr>hs_object := Some ob, hs_rights := r\<rparr> else handles s ! u ! j)" for u j
    unfolding s' using okt i by (subst hs_upd_nth) simp_all
  have gen: "hs_generation (handles s' ! u ! j) = hs_generation (handles s ! u ! j)" for u j
    by (simp add: nth)
  show ok': "handles_ok s'"
    unfolding s' using okt(3,4) [OF i] i t handles_ok_cong [of "obj_upd _ _ s" s] ok
    by (intro hs_upd_handles_ok) simp_all
  show "slot_generation s' k = slot_generation s k" by (simp add: slot_generation_def gen)
  have ti': "task_index u s' = task_index u s" for u by (rule task_index_cong) (simp add: s')
  have val: "handle_value (handles s' ! u ! j) j = handle_value (handles s ! u ! j) j" for u j
    by (simp add: handle_value_def gen)
  have eqi: "j = i" if "j < KHANDLE_MAX" "handle_value (handles s ! t ! j) j = h" for j
    using that h handle_slot_no_value(1) [OF ok t] i by (metis add_left_cancel)
  show "x \<notin> live_handles s" using eqi free unfolding x live_handles_eq [OF ok] by auto
  show "live_handles s' = insert x (live_handles s)"
    unfolding x live_handles_eq [OF ok] live_handles_eq [OF ok'] ti' val
    using i ti h by (auto simp: nth split: if_splits)
qed

context destroy_contract
begin

lemma handle_free_spec:
  assumes ok: "handles_ok s" and fr: "handle_free D x s = Some s'"
  shows "handles_ok s'" "x \<in> live_handles s" "live_handles s' = live_handles s - {x}"
    "slot_generation s' k = (if k = handle_slot_no x then next_gen (2 ^ 24) (slot_generation s k)
                             else slot_generation s k)"
proof -
  obtain t h where x: "x = (t, h)" by fastforce
  from fr x obtain t' i where sf: "handle_slot_for (Some t) h s = Some (t', i)"
    and s': "s' = object_release D (hs_object (handles s ! t' ! i)) (clear_slot t' i s)"
    by (auto simp: handle_free_def handle_close_def Let_def split: option.splits prod.splits if_splits)
  from sf have "t' = t" and ti: "task_index (Some t) s = Some t" and i: "i < KHANDLE_MAX"
    and used: "hs_object (handles s ! t ! i) \<noteq> None" and h: "h = handle_value (handles s ! t ! i) i"
    using task_indexD [of "Some t" s] by (auto simp: handle_slot_for_iff [OF ok])
  have t: "t < MAX_TASKS" using task_indexD [OF ti] by simp
  note okt = handles_okD [OF ok t]
  have hs: "handles s' = handles (clear_slot t i s)" by (simp add: s' \<open>t' = t\<close> release_handles)
  have nth: "handles s' ! u ! j = (if u = t \<and> j = i then (handles s ! t ! i)\<lparr>hs_object := None,
      hs_rights := 0, hs_generation := handle_gen (hs_generation (handles s ! t ! i))\<rparr>
      else handles s ! u ! j)" for u j
    unfolding hs by (rule clear_slot_nth [OF ok t i])
  show ok': "handles_ok s'"
    using clear_slot_handles_ok [OF ok t i] handles_ok_cong [OF hs] by simp
  have ti': "task_index u s' = task_index u s" for u
    unfolding s' release_task_index by (rule task_index_cong) (simp add: clear_slot_def)
  show live: "x \<in> live_handles s" using sf x by (simp add: live_handles_def)
  have eqi: "j = i" if "j < KHANDLE_MAX" "handle_value (handles s ! t ! j) j = h" for j
    using that h handle_slot_no_value(1) [OF ok t] i by (metis add_left_cancel)
  show "live_handles s' = live_handles s - {x}"
    unfolding x live_handles_eq [OF ok] live_handles_eq [OF ok'] ti'
    using eqi h by (auto simp: nth split: if_splits) (metis option.distinct(1))
  have "handle_slot_no x = t * KHANDLE_MAX + i"
    unfolding x h by (rule handle_slot_no_value(1) [OF ok t i])
  then have "k = handle_slot_no x \<longleftrightarrow> k div KHANDLE_MAX = t \<and> k mod KHANDLE_MAX = i"
    using i by (auto simp: div_mult_mod_eq)
  then show "slot_generation s' k = (if k = handle_slot_no x
      then next_gen (2 ^ 24) (slot_generation s k) else slot_generation s k)"
    by (simp add: slot_generation_def nth unat_handle_gen)
qed

lemma object_op_handles:
  "handles (object_op D op s) = handles s" "task_index t (object_op D op s) = task_index t s"
proof -
  show "handles (object_op D op s) = handles s"
    by (cases op) (auto simp: object_op_def object_create_def object_retain_def
        object_retain_locked_def Let_def release_handles split: option.splits)
  have "task_index t (obj_upd i f s) = task_index t s" for i f
    by (rule task_index_cong) simp
  then show "task_index t (object_op D op s) = task_index t s"
    by (cases op) (auto simp: object_op_def object_create_def object_retain_def
        object_retain_locked_def Let_def release_task_index split: option.splits)
qed

lemma handle_slot_for_op: "handle_slot_for t h (object_op D op s) = handle_slot_for t h s"
  by (rule handle_slot_for_cong) (rule object_op_handles)+

end

sublocale destroy_contract \<subseteq> ht: gen_table handles_ok live_handles handle_alloc "handle_free D"
  "object_op D" "2 ^ 24" slot_generation handle_slot_no "\<lambda>x. unat (drop_bit 8 (snd x))"
proof (unfold_locales, goal_cases)
  case (1 s a x s') then show ?case by (rule handle_alloc_spec)
next
  case (2 s a x s') then show ?case by (rule handle_alloc_spec)
next
  case (3 s a x s') then show ?case by (rule handle_alloc_spec)
next
  case (4 s x s') then show ?case by (rule handle_free_spec)
next
  case (5 s x s') then show ?case by (rule handle_free_spec)
next
  case (6 s x s') then show ?case by (rule handle_free_spec)
next
  case (7 s t) then show ?case using handles_ok_cong object_op_handles(1) by metis
next
  case (8 s t) then show ?case by (simp add: live_handles_def handle_slot_for_op)
next
  case 9 show ?case by simp
next
  case (10 s x)
  then obtain i where "i < KHANDLE_MAX" "fst x < MAX_TASKS"
    "snd x = handle_value (handles s ! fst x ! i) i"
    using task_indexD [of "Some (fst x)" s] by (auto simp: live_handles_eq)
  with handle_slot_no_value [OF 10(1), of "fst x" i] show ?case by (metis prod.collapse)
next
  case (11 s x)
  then obtain i where "i < KHANDLE_MAX" "fst x < MAX_TASKS"
    "snd x = handle_value (handles s ! fst x ! i) i"
    using task_indexD [of "Some (fst x)" s] by (auto simp: live_handles_eq)
  with handles_okD(3,4) [OF 11(1), of "fst x" i]
    handle_value_decode(2) [OF handles_okD(4) [OF 11(1)], of "fst x" i i]
  show ?case by simp
next
  case (12 s a x s' k) then show ?case by (rule handle_alloc_spec)
next
  case (13 s x s' k) then show ?case by (rule handle_free_spec)
next
  case (14 s t k) then show ?case by (simp add: slot_generation_def object_op_handles)
qed

section \<open>Confinement of rights\<close>

text \<open>Everything tasks can do with handles they already hold, and the kernel with objects.\<close>

datatype cap_op = Cap_dup nat nat u32 u32 | Cap_close nat u32 | Cap_obj object_touch

definition cap_step :: "(destroy_fn \<Rightarrow> nat \<Rightarrow> 'a objects_st_scheme \<Rightarrow> 'a objects_st_scheme)
    \<Rightarrow> cap_op \<Rightarrow> 'a objects_st_scheme \<Rightarrow> 'a objects_st_scheme" where
  "cap_step D op s =
     (case op of
        Cap_dup src t h r \<Rightarrow> snd (handle_duplicate (Some src) (Some t) h r s)
      | Cap_close t h \<Rightarrow> snd (handle_close D (Some t) h s)
      | Cap_obj oop \<Rightarrow> object_op D oop s)"

definition cap_run :: "(destroy_fn \<Rightarrow> nat \<Rightarrow> 'a objects_st_scheme \<Rightarrow> 'a objects_st_scheme)
    \<Rightarrow> cap_op list \<Rightarrow> 'a objects_st_scheme \<Rightarrow> 'a objects_st_scheme" where
  "cap_run D ops s = fold (cap_step D) ops s"

definition holds_right :: "'a objects_st_scheme \<Rightarrow> nat \<Rightarrow> nat \<Rightarrow> nat \<Rightarrow> u32 \<Rightarrow> bool" where
  "holds_right s t i ob r \<longleftrightarrow> t < MAX_TASKS \<and> i < KHANDLE_MAX
     \<and> hs_object (handles s ! t ! i) = Some ob \<and> hs_rights (handles s ! t ! i) = r"

lemma rights_refl [simp]: "(r :: u32) AND NOT r = 0"
  by (rule bit_word_eqI) (auto simp: bit_simps)

lemma rights_subset_trans:
  fixes r :: u32
  assumes "r AND NOT r1 = 0" and "r1 AND NOT r0 = 0"
  shows "r AND NOT r0 = 0"
proof (rule bit_word_eqI)
  fix n
  have "bit (r AND NOT r1) n = bit (0 :: u32) n" "bit (r1 AND NOT r0) n = bit (0 :: u32) n"
    by (simp_all only: assms)
  then show "bit (r AND NOT r0) n = bit (0 :: u32) n" by (auto simp: bit_simps)
qed

lemma rights_transfer_mono:
  fixes r :: u32
  assumes "r AND NOT r0 = 0" and "r AND m \<noteq> 0"
  shows "r0 AND m \<noteq> 0"
proof
  assume z: "r0 AND m = 0"
  have "r AND m = 0"
  proof (rule bit_word_eqI)
    fix n
    have "bit (r AND NOT r0) n = bit (0 :: u32) n" "bit (r0 AND m) n = bit (0 :: u32) n"
      by (simp_all only: assms(1) z)
    then show "bit (r AND m) n = bit (0 :: u32) n"
      by (auto simp: bit_simps dest: bit_imp_le_length)
  qed
  with assms(2) show False by simp
qed

lemma handle_open_locked_fail:
  "handle_open_locked owner ob r s = (0, s') \<Longrightarrow> handles_ok s \<Longrightarrow> owner < MAX_TASKS \<Longrightarrow> s' = s"
proof -
  assume op: "handle_open_locked owner ob r s = (0, s')" and ok: "handles_ok s" "owner < MAX_TASKS"
  show "s' = s"
  proof (cases "first_index (\<lambda>sl. hs_object sl = None) (handles s ! owner)")
    case None
    with op show ?thesis by (simp add: handle_open_locked_def)
  next
    case (Some i)
    let ?s2 = "hs_upd owner i (\<lambda>sl. sl\<lparr>hs_object := Some ob, hs_rights := r\<rparr>)
            (obj_upd ob (ko_references_update (\<lambda>r. r + 1)) s)"
    have i: "i < KHANDLE_MAX" using first_indexD(1) [OF Some] handles_okD(2) [OF ok] by simp
    have "handle_value (handles ?s2 ! owner ! i) i \<noteq> 0"
    proof (rule handle_value_decode(3))
      show "i < KHANDLE_MAX" by (rule i)
      show "unat (hs_generation (handles ?s2 ! owner ! i)) < 2 ^ 24"
        using handles_okD [OF ok] i by (simp add: hs_upd_nth)
    qed
    with op Some show ?thesis
      by (auto simp: handle_open_locked_def object_retain_locked_def Let_def split: if_splits)
  qed
qed

lemma handle_duplicate_holds:
  assumes ok: "handles_ok s"
  shows "handles_ok (snd (handle_duplicate src tgt hdl r s)) \<and>
     (holds_right (snd (handle_duplicate src tgt hdl r s)) t i ob q \<longrightarrow> holds_right s t i ob q \<or>
     (\<exists>t0 i0 r0. holds_right s t0 i0 ob r0 \<and> q AND NOT r0 = 0 \<and> r0 AND KRIGHT_TRANSFER \<noteq> 0))"
proof (cases "fst (handle_duplicate src tgt hdl r s) = 0")
  case True
  then have "snd (handle_duplicate src tgt hdl r s) = s"
    using handle_open_locked_fail [OF _ ok] task_indexD [of tgt s]
    by (auto simp: handle_duplicate_def Let_def prod_eq_iff split: option.splits if_splits)
  with ok show ?thesis by simp
next
  case False
  then obtain u where ti: "task_index tgt s = Some u"
    by (auto simp: handle_duplicate_def split: option.splits)
  from False ti obtain t0 i0 where sf: "handle_slot_for src hdl s = Some (t0, i0)"
    by (auto simp: handle_duplicate_def split: option.splits)
  let ?sl = "handles s ! t0 ! i0"
  from False ti sf obtain ob' where tr: "hs_rights ?sl AND KRIGHT_TRANSFER \<noteq> 0" "r AND NOT (hs_rights ?sl) = 0"
    and ob': "hs_object ?sl = Some ob'"
    and op: "handle_open_locked u ob' r s = handle_duplicate src tgt hdl r s"
    by (auto simp: handle_duplicate_def Let_def split: option.splits if_splits)
  have u: "u < MAX_TASKS" using task_indexD [OF ti] by simp
  obtain h' s' where hd: "handle_duplicate src tgt hdl r s = (h', s')" by fastforce
  with op False have op': "handle_open_locked u ob' r s = (h', s')" "h' \<noteq> 0" by simp_all
  obtain k where k: "k < KHANDLE_MAX" and s': "s' = hs_upd u k
      (\<lambda>sl. sl\<lparr>hs_object := Some ob', hs_rights := r\<rparr>) (obj_upd ob' (ko_references_update (\<lambda>r. r + 1)) s)"
    using handle_open_lockedE [OF ok u op'] by metis
  note oku = handles_okD [OF ok u]
  have ok': "handles_ok s'"
    unfolding s' using oku(3,4) [OF k] k u handles_ok_cong [of "obj_upd _ _ s" s] ok
    by (intro hs_upd_handles_ok) simp_all
  have src: "holds_right s t0 i0 ob' (hs_rights ?sl)"
    using sf ob' task_indexD [of src s] by (auto simp: holds_right_def handle_slot_for_iff [OF ok])
  show ?thesis
  proof (cases "t = u \<and> i = k")
    case True
    with hd s' oku k have "holds_right (snd (handle_duplicate src tgt hdl r s)) t i ob q \<Longrightarrow> ob = ob' \<and> q = r"
      by (auto simp: holds_right_def hs_upd_nth)
    with src tr ok' hd show ?thesis by auto
  next
    case False
    then have "handles s' ! t ! i = handles s ! t ! i"
      unfolding s' using oku k by (subst hs_upd_nth) auto
    with hd ok' show ?thesis by (simp add: holds_right_def)
  qed
qed

context destroy_contract
begin

lemma handle_close_holds:
  assumes ok: "handles_ok s"
  shows "handles_ok (snd (handle_close D t' h s))"
    and "holds_right (snd (handle_close D t' h s)) t i ob q \<Longrightarrow> holds_right s t i ob q"
proof -
  have "handles_ok (snd (handle_close D t' h s)) \<and>
    (holds_right (snd (handle_close D t' h s)) t i ob q \<longrightarrow> holds_right s t i ob q)"
  proof (cases "handle_slot_for t' h s")
    case None
    with ok show ?thesis by (simp add: handle_close_def)
  next
    case (Some p)
    obtain u k where p: "p = (u, k)" by fastforce
    from Some p have uk: "u < MAX_TASKS" "k < KHANDLE_MAX"
      using task_indexD [of t' s] by (auto simp: handle_slot_for_iff [OF ok])
    let ?r = "snd (handle_close D t' h s)"
    have hs: "handles ?r = handles (clear_slot u k s)"
      using Some p by (simp add: handle_close_def Let_def release_handles)
    have "handles_ok ?r" using clear_slot_handles_ok [OF ok uk] handles_ok_cong [OF hs] by simp
    then show ?thesis by (auto simp: holds_right_def hs clear_slot_nth [OF ok uk] split: if_splits)
  qed
  then show "handles_ok (snd (handle_close D t' h s))"
    and "holds_right (snd (handle_close D t' h s)) t i ob q \<Longrightarrow> holds_right s t i ob q" by auto
qed

lemma cap_step_confined:
  assumes ok: "handles_ok s"
  shows "handles_ok (cap_step D op s)"
    and "holds_right (cap_step D op s) t i ob q \<Longrightarrow>
      \<exists>t0 i0 r0. holds_right s t0 i0 ob r0 \<and> q AND NOT r0 = 0
        \<and> ((t0, i0) = (t, i) \<or> r0 AND KRIGHT_TRANSFER \<noteq> 0)"
proof -
  have "handles_ok (cap_step D op s) \<and> (holds_right (cap_step D op s) t i ob q \<longrightarrow>
      holds_right s t i ob q \<or>
      (\<exists>t0 i0 r0. holds_right s t0 i0 ob r0 \<and> q AND NOT r0 = 0 \<and> r0 AND KRIGHT_TRANSFER \<noteq> 0))"
  proof (cases op)
    case (Cap_dup src tgt h r)
    then show ?thesis using handle_duplicate_holds [OF ok] by (simp add: cap_step_def)
  next
    case (Cap_close u h)
    then show ?thesis using handle_close_holds [OF ok] by (auto simp: cap_step_def)
  next
    case (Cap_obj oop)
    have "handles_ok (object_op D oop s)" using ok handles_ok_cong object_op_handles(1) by metis
    with Cap_obj show ?thesis by (simp add: cap_step_def holds_right_def object_op_handles)
  qed
  then show "handles_ok (cap_step D op s)"
    and "holds_right (cap_step D op s) t i ob q \<Longrightarrow>
      \<exists>t0 i0 r0. holds_right s t0 i0 ob r0 \<and> q AND NOT r0 = 0
        \<and> ((t0, i0) = (t, i) \<or> r0 AND KRIGHT_TRANSFER \<noteq> 0)"
    using rights_refl [of q] by blast+
qed

lemma cap_run_confined:
  "handles_ok s \<Longrightarrow> handles_ok (cap_run D ops s) \<and> (holds_right (cap_run D ops s) t i ob q \<longrightarrow>
      (\<exists>t0 i0 r0. holds_right s t0 i0 ob r0 \<and> q AND NOT r0 = 0
        \<and> ((t0, i0) = (t, i) \<or> r0 AND KRIGHT_TRANSFER \<noteq> 0)))"
proof (induction ops arbitrary: s)
  case Nil
  then show ?case
    by (simp add: cap_run_def) (metis rights_refl)
next
  case (Cons op ops)
  let ?s' = "cap_step D op s"
  have run: "cap_run D (op # ops) s = cap_run D ops ?s'" by (simp add: cap_run_def)
  have ok': "handles_ok ?s'" using Cons.prems by (rule cap_step_confined)
  show ?case
  proof (intro conjI impI)
    show "handles_ok (cap_run D (op # ops) s)" using Cons.IH [OF ok'] run by simp
    assume "holds_right (cap_run D (op # ops) s) t i ob q"
    then obtain t1 i1 r1 where 1: "holds_right ?s' t1 i1 ob r1" "q AND NOT r1 = 0"
      "(t1, i1) = (t, i) \<or> r1 AND KRIGHT_TRANSFER \<noteq> 0"
      using Cons.IH [OF ok'] run by auto
    obtain t0 i0 r0 where 0: "holds_right s t0 i0 ob r0" "r1 AND NOT r0 = 0"
      "(t0, i0) = (t1, i1) \<or> r0 AND KRIGHT_TRANSFER \<noteq> 0"
      using cap_step_confined(2) [OF Cons.prems 1(1)] by auto
    have "q AND NOT r0 = 0" using 1(2) 0(2) by (rule rights_subset_trans)
    moreover have "(t0, i0) = (t, i) \<or> r0 AND KRIGHT_TRANSFER \<noteq> 0"
      using 1(3) 0(3) rights_transfer_mono [OF 0(2)] by metis
    ultimately show "\<exists>t0 i0 r0. holds_right s t0 i0 ob r0 \<and> q AND NOT r0 = 0
        \<and> ((t0, i0) = (t, i) \<or> r0 AND KRIGHT_TRANSFER \<noteq> 0)" using 0(1) by auto
  qed
qed

end

section \<open>Reference counts\<close>

text \<open>
  The number of handle slots that name an object, and the accounting invariant: the count of
  an object is the number of its handles plus the references \<open>ext\<close> other kernel code holds,
  and an object is in use exactly while its count is not zero.
\<close>

definition handle_refs :: "nat \<Rightarrow> 'a objects_st_scheme \<Rightarrow> nat" where
  "handle_refs ob s = count_if (\<lambda>sl. hs_object sl = Some ob) (concat (handles s))"

definition refs_ok :: "(nat \<Rightarrow> nat) \<Rightarrow> 'a objects_st_scheme \<Rightarrow> bool" where
  "refs_ok ext s \<longleftrightarrow> handles_ok s \<and> length (objects s) = KOBJECT_MAX
     \<and> (\<forall>ob. 0 < handle_refs ob s \<longrightarrow> ob < KOBJECT_MAX)
     \<and> (\<forall>ob < KOBJECT_MAX. unat (ko_references (objects s ! ob)) = handle_refs ob s + ext ob
          \<and> (ko_active (objects s ! ob) \<longleftrightarrow> ko_references (objects s ! ob) \<noteq> 0))"

lemma count_concat_update:
  "t < length xss \<Longrightarrow> count_if P (concat (xss[t := ys])) + count_if P (xss ! t)
     = count_if P (concat xss) + count_if P ys"
proof (induction xss arbitrary: t)
  case Nil
  then show ?case by simp
next
  case (Cons xs xss)
  then show ?case by (cases t) (auto simp: count_if_append)
qed

lemma handle_refs_hs_upd:
  assumes "t < length (handles s)" and "i < length (handles s ! t)"
  shows "handle_refs ob (hs_upd t i f s) + (if hs_object (handles s ! t ! i) = Some ob then 1 else 0)
       = handle_refs ob s + (if hs_object (f (handles s ! t ! i)) = Some ob then 1 else 0)"
  using count_concat_update [OF assms(1), of "\<lambda>sl. hs_object sl = Some ob"
      "(handles s ! t)[i := f (handles s ! t ! i)]"]
    count_if_update [OF assms(2), of "\<lambda>sl. hs_object sl = Some ob" "f (handles s ! t ! i)"]
  by (simp add: handle_refs_def hs_upd_def split: if_splits)

lemma handle_refs_cong: "handles s = handles s' \<Longrightarrow> handle_refs ob s = handle_refs ob s'"
  by (simp add: handle_refs_def)

lemma handle_refs_pos:
  assumes "handles_ok s" and "t < MAX_TASKS" and "i < KHANDLE_MAX"
    and "hs_object (handles s ! t ! i) = Some ob"
  shows "0 < handle_refs ob s"
proof -
  have "handles s ! t ! i \<in> set (concat (handles s))"
    using handles_okD(1,2) [OF assms(1,2)] assms(3) by (auto intro!: nth_mem bexI [of _ "handles s ! t"])
  with assms(4) have "count_if (\<lambda>sl. hs_object sl = Some ob) (concat (handles s)) \<noteq> 0"
    unfolding count_if_zero by blast
  then show ?thesis by (simp add: handle_refs_def)
qed

lemma unat_ref_inc: "(r :: u32) \<noteq> 0xFFFFFFFF \<Longrightarrow> unat (r + 1) = unat r + 1"
proof -
  assume r: "r \<noteq> 0xFFFFFFFF"
  have "r + 1 \<noteq> 0"
  proof
    assume "r + 1 = 0"
    then have "r = - 1" by (simp add: eq_neg_iff_add_eq_0)
    with r show False by simp
  qed
  then have "unat (r + 1) \<noteq> 0" by (simp only: unat_eq_zero not_False_eq_True)
  moreover have "unat (r + 1) = (unat r + 1) mod 2 ^ 32"
    by (simp add: unat_word_ariths unsigned_1)
  moreover have "unat r < 2 ^ 32" using unsigned_less [of r] by simp
  moreover have "unat r + 1 \<noteq> 2 ^ 32" using calculation(1,2) by (metis mod_self)
  ultimately show ?thesis by simp
qed

lemma unat_ref_dec: "(r :: u32) \<noteq> 0 \<Longrightarrow> unat (r - 1) = unat r - 1"
  by (rule unat_minus_one)

lemma open_locked_refs:
  assumes ok: "refs_ok ext s" and owner: "owner < MAX_TASKS" and ob: "ob < KOBJECT_MAX"
  shows "refs_ok ext (snd (handle_open_locked owner ob r s))"
proof (cases "fst (handle_open_locked owner ob r s) = 0")
  case True
  have hok: "handles_ok s" using ok by (simp add: refs_ok_def)
  have "snd (handle_open_locked owner ob r s) = s"
    using handle_open_locked_fail [OF _ hok owner, of ob r] True by (metis prod.collapse)
  with ok show ?thesis by simp
next
  case False
  have hok: "handles_ok s" and len: "length (objects s) = KOBJECT_MAX"
    using ok by (simp_all add: refs_ok_def)
  obtain h s' where op: "handle_open_locked owner ob r s = (h, s')" by fastforce
  with False have "h \<noteq> 0" by simp
  then obtain i where i: "i < KHANDLE_MAX" and fr: "hs_object (handles s ! owner ! i) = None"
    and rf: "ko_active (objects s ! ob)" "ko_references (objects s ! ob) \<noteq> 0"
      "ko_references (objects s ! ob) \<noteq> 0xFFFFFFFF"
    and s': "s' = hs_upd owner i (\<lambda>sl. sl\<lparr>hs_object := Some ob, hs_rights := r\<rparr>)
            (obj_upd ob (ko_references_update (\<lambda>r. r + 1)) s)"
    using handle_open_lockedE [OF hok owner op] by metis
  note okt = handles_okD [OF hok owner]
  let ?s1 = "obj_upd ob (ko_references_update (\<lambda>r. r + 1)) s"
  have ok': "handles_ok s'"
    unfolding s' using okt(3,4) [OF i] i owner handles_ok_cong [of "obj_upd _ _ s" s] hok
    by (intro hs_upd_handles_ok) simp_all
  have hr: "handle_refs k s' = handle_refs k s + (if k = ob then 1 else 0)" for k
    using handle_refs_hs_upd [of owner ?s1 i k "\<lambda>sl. sl\<lparr>hs_object := Some ob, hs_rights := r\<rparr>"]
      okt i fr handle_refs_cong [of ?s1 s k] by (auto simp: s')
  have ob': "objects s' ! k = (if k = ob then ko_references_update (\<lambda>r. r + 1) (objects s ! ob)
      else objects s ! k)" for k
    using ob len by (simp add: s')
  have "refs_ok ext s'"
    unfolding refs_ok_def
  proof (intro conjI allI impI)
    show "handles_ok s'" by (rule ok')
    show "length (objects s') = KOBJECT_MAX" using len by (simp add: s')
    show "k < KOBJECT_MAX" if "0 < handle_refs k s'" for k
      using that ok ob by (auto simp: hr refs_ok_def split: if_splits)
    show "unat (ko_references (objects s' ! k)) = handle_refs k s' + ext k" if "k < KOBJECT_MAX" for k
      using that ok rf by (auto simp: hr ob' refs_ok_def unat_ref_inc)
    show "ko_active (objects s' ! k) = (ko_references (objects s' ! k) \<noteq> 0)" if "k < KOBJECT_MAX" for k
      using that ok rf unat_ref_inc [OF rf(3)] by (auto simp: ob' refs_ok_def)
  qed
  then show ?thesis by (simp add: op)
qed

text \<open>
  The operations on objects and handles with the references they account for. A release is
  taken only from a holder that has one: the code calls \<^verbatim>\<open>object_release\<close> on references it took.
\<close>

datatype ref_op = Ref_open nat nat u32 | Ref_dup nat nat u32 u32 | Ref_close nat u32
  | Ref_create u32 u64 "destroy_fn option" | Ref_retain nat | Ref_release nat

definition ref_step :: "(destroy_fn \<Rightarrow> nat \<Rightarrow> 'a objects_st_scheme \<Rightarrow> 'a objects_st_scheme)
    \<Rightarrow> ref_op \<Rightarrow> (nat \<Rightarrow> nat) \<times> 'a objects_st_scheme \<Rightarrow> (nat \<Rightarrow> nat) \<times> 'a objects_st_scheme" where
  "ref_step D op = (\<lambda>(ext, s).
     (case op of
        Ref_open t ob r \<Rightarrow> (ext, if ob < KOBJECT_MAX then snd (handle_open (Some t) (Some ob) r s) else s)
      | Ref_dup src t h r \<Rightarrow> (ext, snd (handle_duplicate (Some src) (Some t) h r s))
      | Ref_close t h \<Rightarrow> (ext, snd (handle_close D (Some t) h s))
      | Ref_create ty v d \<Rightarrow>
          (case object_create ty v d s of
             (None, s') \<Rightarrow> (ext, s') | (Some ob, s') \<Rightarrow> (ext(ob := 1), s'))
      | Ref_retain ob \<Rightarrow>
          if ob < KOBJECT_MAX then
            (case object_retain (Some ob) s of
               (False, s') \<Rightarrow> (ext, s') | (True, s') \<Rightarrow> (ext(ob := ext ob + 1), s'))
          else (ext, s)
      | Ref_release ob \<Rightarrow>
          if ob < KOBJECT_MAX \<and> 0 < ext ob
          then (ext(ob := ext ob - 1), object_release D (Some ob) s) else (ext, s)))"

lemma object_create_refs:
  assumes ok: "refs_ok ext s" and cr: "object_create ty v d s = (Some ob, s')"
  shows "refs_ok (ext(ob := 1)) s'" and "ob < KOBJECT_MAX" and "ext ob = 0"
proof -
  from cr have fi: "first_index (\<lambda>ob. \<not> ko_active ob) (objects s) = Some ob"
    and s': "s' = obj_upd ob (\<lambda>_. \<lparr>ko_type = ty, ko_references = 1, ko_value = v,
                          ko_destroy = d, ko_active = True\<rparr>) s"
    by (auto simp: object_create_def split: if_splits option.splits)
  note fd = first_indexD(1,2) [OF fi]
  show ob: "ob < KOBJECT_MAX" using fd(1) ok by (simp add: refs_ok_def)
  with fd(2) ok have "unat (ko_references (objects s ! ob)) = 0"
    and eq: "unat (ko_references (objects s ! ob)) = handle_refs ob s + ext ob"
    by (auto simp: refs_ok_def)
  then have z: "handle_refs ob s = 0" "ext ob = 0" by simp_all
  show "ext ob = 0" by (rule z)
  have hr: "handle_refs k s' = handle_refs k s" for k by (rule handle_refs_cong) (simp add: s')
  have "handles_ok s'" using ok handles_ok_cong [of s' s] by (simp add: s' refs_ok_def)
  then show "refs_ok (ext(ob := 1)) s'"
    using ok z(1) fd(1) unfolding refs_ok_def hr by (auto simp: s' obj_upd_def nth_list_update)
qed

lemma object_retain_refs:
  assumes ok: "refs_ok ext s" and ob: "ob < KOBJECT_MAX"
    and rt: "object_retain (Some ob) s = (True, s')"
  shows "refs_ok (ext(ob := ext ob + 1)) s'"
proof -
  from rt have rf: "ko_active (objects s ! ob)" "ko_references (objects s ! ob) \<noteq> 0"
      "ko_references (objects s ! ob) \<noteq> 0xFFFFFFFF"
    and s': "s' = obj_upd ob (ko_references_update (\<lambda>r. r + 1)) s"
    by (auto simp: object_retain_def object_retain_locked_def Let_def split: if_splits)
  have hr: "handle_refs k s' = handle_refs k s" for k by (rule handle_refs_cong) (simp add: s')
  have "handles_ok s'" using ok handles_ok_cong [of s' s] by (simp add: s' refs_ok_def)
  moreover have "ko_references (objects s ! ob) + 1 \<noteq> 0"
    using unat_ref_inc [OF rf(3)] by auto
  ultimately show ?thesis
    using ok ob rf unfolding refs_ok_def hr
    by (auto simp: s' obj_upd_def nth_list_update unat_ref_inc)
qed

text \<open>A callback that releases nothing else: it leaves the object table alone as well.\<close>

locale leaf_destroy = destroy_contract D
  for D :: "destroy_fn \<Rightarrow> nat \<Rightarrow> 'a objects_st_scheme \<Rightarrow> 'a objects_st_scheme" +
  assumes D_objects: "objects (D d i s) = objects s"
begin

text \<open>
  Releasing one reference, whoever held it: \<open>refs\<close> is the accounting before, with \<open>ob\<close>
  counted one too high.
\<close>

lemma release_objects:
  assumes "length (objects s) = KOBJECT_MAX" and "ob < KOBJECT_MAX"
    and "ko_active (objects s ! ob)" and "ko_references (objects s ! ob) \<noteq> 0"
  shows "length (objects (object_release D (Some ob) s)) = KOBJECT_MAX"
    "k \<noteq> ob \<Longrightarrow> objects (object_release D (Some ob) s) ! k = objects s ! k"
    "ko_references (objects (object_release D (Some ob) s) ! ob) = ko_references (objects s ! ob) - 1"
    "ko_active (objects (object_release D (Some ob) s) ! ob) \<longleftrightarrow> ko_references (objects s ! ob) \<noteq> 1"
  using assms by (auto simp: object_release_def Let_def D_objects split: option.splits)

lemma release_refs:
  assumes hok: "handles_ok s" and len: "length (objects s) = KOBJECT_MAX" and ob: "ob < KOBJECT_MAX"
    and bound: "\<And>k. 0 < handle_refs k s \<Longrightarrow> k < KOBJECT_MAX"
    and cnt: "\<And>k. k < KOBJECT_MAX \<Longrightarrow> unat (ko_references (objects s ! k))
        = handle_refs k s + ext k + (if k = ob then 1 else 0)"
    and act: "\<And>k. k < KOBJECT_MAX \<Longrightarrow> ko_active (objects s ! k) = (ko_references (objects s ! k) \<noteq> 0)"
  shows "refs_ok ext (object_release D (Some ob) s)"
proof -
  let ?r = "object_release D (Some ob) s"
  have nz: "ko_references (objects s ! ob) \<noteq> 0" using cnt [OF ob] by auto
  with act [OF ob] have "ko_active (objects s ! ob)" by simp
  note ro = release_objects [OF len ob this nz]
  have hr: "handle_refs k ?r = handle_refs k s" for k
    by (rule handle_refs_cong) (rule release_handles)
  have hok': "handles_ok ?r" using hok handles_ok_cong [OF release_handles] by simp
  show ?thesis unfolding refs_ok_def hr
  proof (intro conjI allI impI)
    show "handles_ok ?r" by (rule hok')
    show "length (objects ?r) = KOBJECT_MAX" by (rule ro)
    show "k < KOBJECT_MAX" if "0 < handle_refs k s" for k using that by (rule bound)
    show "unat (ko_references (objects ?r ! k)) = handle_refs k s + ext k" if "k < KOBJECT_MAX" for k
      using cnt [OF that] ro(2,3) nz by (cases "k = ob") (auto simp: unat_ref_dec)
    show "ko_active (objects ?r ! k) = (ko_references (objects ?r ! k) \<noteq> 0)" if "k < KOBJECT_MAX" for k
      using act [OF that] ro(2,3,4) by (cases "k = ob") auto
  qed
qed

lemma close_refs:
  assumes ok: "refs_ok ext s"
  shows "refs_ok ext (snd (handle_close D t h s))"
proof (cases "handle_slot_for t h s")
  case None
  with ok show ?thesis by (simp add: handle_close_def)
next
  case (Some p)
  have hok: "handles_ok s" and len: "length (objects s) = KOBJECT_MAX"
    using ok by (simp_all add: refs_ok_def)
  obtain u k where p: "p = (u, k)" by fastforce
  from Some p obtain ob where uk: "u < MAX_TASKS" "k < KHANDLE_MAX"
    and ob: "hs_object (handles s ! u ! k) = Some ob"
    using task_indexD [of t s] by (auto simp: handle_slot_for_iff [OF hok])
  have obm: "ob < KOBJECT_MAX"
    using handle_refs_pos [OF hok uk ob] ok by (simp add: refs_ok_def)
  let ?s1 = "clear_slot u k s"
  note okt = handles_okD [OF hok uk(1)]
  have hr: "handle_refs j s = handle_refs j ?s1 + (if j = ob then 1 else 0)" for j
    using handle_refs_hs_upd [of u s k j "\<lambda>sl. sl\<lparr>hs_object := None, hs_rights := 0,
       hs_generation := handle_gen (hs_generation sl)\<rparr>"] okt(1,2) uk(2) ob
    by (auto simp: clear_slot_def split: if_splits)
  have obj: "objects ?s1 = objects s" by (simp add: clear_slot_def)
  have "refs_ok ext (object_release D (Some ob) ?s1)"
  proof (rule release_refs)
    show "handles_ok ?s1" by (rule clear_slot_handles_ok [OF hok uk])
    show "length (objects ?s1) = KOBJECT_MAX" using len obj by simp
    show "ob < KOBJECT_MAX" by (rule obm)
    show "j < KOBJECT_MAX" if "0 < handle_refs j ?s1" for j
      using that hr [of j] ok by (auto simp: refs_ok_def)
    show "unat (ko_references (objects ?s1 ! j)) = handle_refs j ?s1 + ext j + (if j = ob then 1 else 0)"
      if "j < KOBJECT_MAX" for j
      using that hr [of j] ok obj by (auto simp: refs_ok_def)
    show "ko_active (objects ?s1 ! j) = (ko_references (objects ?s1 ! j) \<noteq> 0)" if "j < KOBJECT_MAX" for j
      using that ok obj by (simp add: refs_ok_def)
  qed
  with Some p ob show ?thesis by (simp add: handle_close_def Let_def)
qed

lemma release_ext_refs:
  assumes ok: "refs_ok ext s" and ob: "ob < KOBJECT_MAX" and held: "0 < ext ob"
  shows "refs_ok (ext(ob := ext ob - 1)) (object_release D (Some ob) s)"
  by (rule release_refs) (use ok ob held in \<open>auto simp: refs_ok_def\<close>)

lemma ref_step_ok:
  assumes ok: "refs_ok (fst x) (snd x)"
  shows "refs_ok (fst (ref_step D op x)) (snd (ref_step D op x))"
proof -
  obtain ext s where x: "x = (ext, s)" by fastforce
  with ok have ok: "refs_ok ext s" and hok: "handles_ok s" by (simp_all add: refs_ok_def)
  have "case ref_step D op (ext, s) of (ext', s') \<Rightarrow> refs_ok ext' s'"
  proof (cases op)
    case (Ref_open t ob r)
    have "refs_ok ext (snd (handle_open (Some t) (Some ob) r s))" if "ob < KOBJECT_MAX"
      using ok open_locked_refs [OF ok _ that] task_indexD [of "Some t" s]
      by (auto simp: handle_open_def split: option.splits)
    with Ref_open ok show ?thesis by (simp add: ref_step_def)
  next
    case (Ref_dup src t h r)
    have "ob < KOBJECT_MAX" if "handle_slot_for (Some src) h s = Some (u, k)"
      "hs_object (handles s ! u ! k) = Some ob" for u k ob
      using that handle_refs_pos [OF hok, of u k ob] task_indexD [of "Some src" s] ok
      by (auto simp: handle_slot_for_iff [OF hok] refs_ok_def)
    then have "refs_ok ext (snd (handle_duplicate (Some src) (Some t) h r s))"
      using ok open_locked_refs [OF ok] task_indexD [of "Some t" s]
      by (auto simp: handle_duplicate_def Let_def split: option.splits)
    with Ref_dup show ?thesis by (simp add: ref_step_def)
  next
    case (Ref_close t h)
    then show ?thesis using close_refs [OF ok] by (simp add: ref_step_def)
  next
    case (Ref_create ty v d)
    show ?thesis
    proof (cases "object_create ty v d s")
      case (Pair p s')
      show ?thesis
      proof (cases p)
        case None
        with Pair have "s' = s" by (auto simp: object_create_def split: option.splits if_splits)
        with None Pair Ref_create ok show ?thesis by (simp add: ref_step_def)
      next
        case (Some ob)
        with Pair Ref_create object_create_refs(1) [OF ok, of ty v d ob s'] show ?thesis
          by (simp add: ref_step_def)
      qed
    qed
  next
    case (Ref_retain ob)
    show ?thesis
    proof (cases "object_retain (Some ob) s")
      case (Pair b s')
      have "\<not> b \<Longrightarrow> s' = s" using Pair
        by (auto simp: object_retain_def object_retain_locked_def Let_def split: if_splits)
      with Pair Ref_retain ok object_retain_refs [OF ok, of ob s'] show ?thesis
        by (cases b) (auto simp: ref_step_def)
    qed
  next
    case (Ref_release ob)
    then show ?thesis using ok release_ext_refs [OF ok] by (simp add: ref_step_def)
  qed
  then show ?thesis by (simp add: x split: prod.splits)
qed

lemma ref_run_ok:
  "refs_ok ext s \<Longrightarrow> fold (ref_step D) ops (ext, s) = (ext', s') \<Longrightarrow> refs_ok ext' s'"
proof -
  have "refs_ok (fst x) (snd x) \<Longrightarrow> refs_ok (fst (fold (ref_step D) ops x)) (snd (fold (ref_step D) ops x))"
    for x
    by (induction ops arbitrary: x) (simp_all add: ref_step_ok)
  from this [of "(ext, s)"] show "refs_ok ext s \<Longrightarrow> fold (ref_step D) ops (ext, s) = (ext', s') \<Longrightarrow> refs_ok ext' s'"
    by simp
qed

end

lemma object_init_refs: "refs_ok (\<lambda>_. 0) (object_init s)"
proof -
  have "count_if (\<lambda>sl. hs_object sl = Some ob) (concat (handles (object_init s))) = 0" for ob
    unfolding count_if_zero by (auto simp: object_init_def)
  then show ?thesis
    by (simp add: refs_ok_def handles_ok_def handle_refs_def) (simp add: object_init_def)
qed

section \<open>Revocation\<close>

lemma find_handle_Some:
  assumes "handles_ok s" and "find_handle ob s = Some (t, i)"
  shows "t < MAX_TASKS" "i < KHANDLE_MAX" "hs_object (handles s ! t ! i) = Some ob"
proof -
  from assms(2) have
    r: "first_index (\<lambda>row. first_index (\<lambda>sl. hs_object sl = Some ob) row \<noteq> None) (handles s) = Some t"
    and c: "first_index (\<lambda>sl. hs_object sl = Some ob) (handles s ! t) = Some i"
    by (auto simp: find_handle_def split: option.splits)
  show t: "t < MAX_TASKS" using first_indexD(1) [OF r] assms(1) by (simp add: handles_ok_def)
  show "i < KHANDLE_MAX" using first_indexD(1) [OF c] handles_okD(2) [OF assms(1) t] by simp
  show "hs_object (handles s ! t ! i) = Some ob" using first_indexD(2) [OF c] .
qed

lemma find_handle_None: "find_handle ob s = None \<longleftrightarrow> handle_refs ob s = 0"
proof -
  let ?P = "\<lambda>sl. hs_object sl = Some ob"
  have "find_handle ob s = None \<longleftrightarrow>
    first_index (\<lambda>row. first_index ?P row \<noteq> None) (handles s) = None"
  proof (cases "first_index (\<lambda>row. first_index ?P row \<noteq> None) (handles s)")
    case None
    then show ?thesis by (simp add: find_handle_def)
  next
    case (Some t)
    from first_indexD(2) [OF Some] Some show ?thesis by (auto simp: find_handle_def)
  qed
  also have "\<dots> \<longleftrightarrow> (\<forall>row \<in> set (handles s). \<forall>sl \<in> set row. \<not> ?P sl)"
    unfolding first_index_None by simp
  also have "\<dots> \<longleftrightarrow> handle_refs ob s = 0"
    unfolding handle_refs_def count_if_zero by simp
  finally show ?thesis .
qed

context destroy_contract
begin

text \<open>
  The sweep ends, has cleared one slot for each handle the object had, leaves no handle to
  the object and no other handle changed.
\<close>

lemma revoke_sweep_spec:
  "handles_ok s \<Longrightarrow> \<exists>s'. revoke_sweep D ob r s = Some (r + of_nat (handle_refs ob s), s')
     \<and> handles_ok s' \<and> handle_refs ob s' = 0
     \<and> (\<forall>t i k q. k \<noteq> ob \<longrightarrow> holds_right s' t i k q = holds_right s t i k q)"
proof (induction "handle_refs ob s" arbitrary: s r)
  case 0
  then have "find_handle ob s = None" by (simp add: find_handle_None)
  then have "revoke_sweep D ob r s = Some (r, s)" by (subst revoke_sweep.simps) simp
  with 0 show ?case by auto
next
  case (Suc n)
  then have "find_handle ob s \<noteq> None" by (simp add: find_handle_None)
  then obtain u k where f: "find_handle ob s = Some (u, k)" by auto
  note fh = find_handle_Some [OF Suc.prems f]
  let ?s1 = "object_release D (Some ob) (clear_slot u k s)"
  note okt = handles_okD [OF Suc.prems fh(1)]
  have hs: "handles ?s1 = handles (clear_slot u k s)" by (rule release_handles)
  have hr: "handle_refs ob s = Suc (handle_refs ob ?s1)"
    using handle_refs_hs_upd [of u s k ob "\<lambda>sl. sl\<lparr>hs_object := None, hs_rights := 0,
       hs_generation := handle_gen (hs_generation sl)\<rparr>"] okt(1,2) fh(2,3) handle_refs_cong [OF hs]
    by (simp add: clear_slot_def)
  have ok1: "handles_ok ?s1"
    using clear_slot_handles_ok [OF Suc.prems fh(1,2)] handles_ok_cong [OF hs] by simp
  have keep: "holds_right ?s1 t i j q = holds_right s t i j q" if "j \<noteq> ob" for t i j q
    using that fh(3) by (auto simp: holds_right_def hs clear_slot_nth [OF Suc.prems fh(1,2)])
  have step: "revoke_sweep D ob r s = revoke_sweep D ob (r + 1) ?s1"
    by (subst revoke_sweep.simps) (simp add: f)
  from Suc.hyps(1) [OF _ ok1, of "r + 1"] Suc.hyps(2) hr obtain s' where
    "revoke_sweep D ob (r + 1) ?s1 = Some (r + 1 + of_nat (handle_refs ob ?s1), s')"
    "handles_ok s'" "handle_refs ob s' = 0"
    "\<forall>t i j q. j \<noteq> ob \<longrightarrow> holds_right s' t i j q = holds_right ?s1 t i j q" by auto
  with step hr keep show ?case by (auto simp: add.assoc)
qed

end

text \<open>A part of the state that object slots and callbacks leave alone survives a release.\<close>

lemma release_frame:
  assumes "\<And>i f s. F (obj_upd i f s) = F s" and "\<And>d i s. F (D d i s) = F s"
  shows "F (object_release D p s) = F s"
  by (simp add: object_release_def Let_def assms split: option.split)

lemma create_frame:
  assumes "\<And>i f s. F (obj_upd i f s) = F s"
  shows "F (snd (object_create type value destroy s)) = F s"
  by (simp add: object_create_def assms split: option.split)

end
