(* ===== verification/Events.thy ===== *)
theory Events
  imports Objects
begin

text \<open>
  Events and waiting, \<^verbatim>\<open>src/objects/event.c\<close>: auto-reset and manual-reset events, waits on up
  to 16 events with an optional deadline, signal, reset, the timeout tick and cancellation.
  The wake callback is \<^verbatim>\<open>task64_set_result\<close>, which the kernel passes to \<^verbatim>\<open>event_init\<close>. Each
  function runs with interrupts off and is one step. The invariant \<open>events_ok\<close> ties the
  waiter masks of the events to the wait sets of the tasks, and says that a signalled event
  has no waiter left parked.
\<close>

section \<open>State\<close>

definition EVENT_MAX :: nat where "EVENT_MAX = 64"
definition EVENT_WAIT_MANY_MAX :: nat where "EVENT_WAIT_MANY_MAX = 16"
definition EVENT_AUTO_RESET :: u32 where "EVENT_AUTO_RESET = 0"
definition EVENT_MANUAL_RESET :: u32 where "EVENT_MANUAL_RESET = 1"

record event_state =
  ev_mode :: u32
  ev_signaled :: bool
  ev_waiters :: u32
  ev_active :: bool

record events_st = objects_st +
  events :: "event_state list"
  wait_sets :: "nat option list list"
  wait_counts :: "nat list"
  wait_deadlines :: "u32 list"
  wait_timed :: "bool list"

definition ev_upd :: "nat \<Rightarrow> (event_state \<Rightarrow> event_state) \<Rightarrow> 'a events_st_scheme \<Rightarrow> 'a events_st_scheme" where
  "ev_upd e f s = s\<lparr>events := (events s)[e := f (events s ! e)]\<rparr>"

section \<open>Operations\<close>

text \<open>The index of the event an object stands for, \<^verbatim>\<open>state_for\<close>.\<close>

definition event_for :: "nat option \<Rightarrow> 'a events_st_scheme \<Rightarrow> nat option" where
  "event_for p s =
     (case p of None \<Rightarrow> None
      | Some i \<Rightarrow>
          let ob = objects s ! i in
          if \<not> ko_active ob \<or> ko_type ob \<noteq> KOBJECT_EVENT \<or> ko_value ob = 0
             \<or> EVENT_MAX < unat (ko_value ob) then None
          else let e = unat (ko_value ob) - 1 in
               if ev_active (events s ! e) then Some e else None)"

definition wait_index :: "nat \<Rightarrow> nat option \<Rightarrow> 'a events_st_scheme \<Rightarrow> int" where
  "wait_index slot p s =
     (if MAX_TASKS \<le> slot then -1
      else case first_index (\<lambda>q. q = p) (take (wait_counts s ! slot) (wait_sets s ! slot)) of
             None \<Rightarrow> -1 | Some i \<Rightarrow> int i)"

definition clear_wait_entry :: "nat \<Rightarrow> nat \<Rightarrow> 'a events_st_scheme \<Rightarrow> 'a events_st_scheme" where
  "clear_wait_entry slot index s =
     (let s1 = (case event_for (wait_sets s ! slot ! index) s of
                  None \<Rightarrow> s
                | Some e \<Rightarrow> ev_upd e (ev_waiters_update (\<lambda>w. w AND NOT (push_bit slot 1))) s)
      in s1\<lparr>wait_sets := (wait_sets s1)[slot := (wait_sets s1 ! slot)[index := None]]\<rparr>)"

definition clear_wait_set :: "nat \<Rightarrow> 'a events_st_scheme \<Rightarrow> 'a events_st_scheme" where
  "clear_wait_set slot s =
     (if MAX_TASKS \<le> slot then s
      else let s1 = fold (clear_wait_entry slot) [0..<wait_counts s ! slot] s
           in s1\<lparr>wait_counts := (wait_counts s1)[slot := 0],
                 wait_deadlines := (wait_deadlines s1)[slot := 0],
                 wait_timed := (wait_timed s1)[slot := False]\<rparr>)"

definition wake_slot :: "nat \<Rightarrow> int \<Rightarrow> 'a events_st_scheme \<Rightarrow> 'a events_st_scheme" where
  "wake_slot slot result s =
     (if task_pool_count s \<le> slot \<or> t_state (task_pool s ! slot) \<noteq> TASK_BLOCKED_EVENT then s
      else task64_set_result slot result
             (task_state_set (Some slot) TASK_RUNNING (clear_wait_set slot s)))"

text \<open>Wake every slot of a mask, lowest first, each with the result \<open>res\<close> gives for it.\<close>

definition wake_mask :: "u32 \<Rightarrow> (nat \<Rightarrow> 'a events_st_scheme \<Rightarrow> int) \<Rightarrow> 'a events_st_scheme
    \<Rightarrow> 'a events_st_scheme" where
  "wake_mask waiters res s =
     fold (\<lambda>slot s. if waiters AND push_bit slot 1 \<noteq> 0 then wake_slot slot (res slot s) s else s)
       [0..<MAX_TASKS] s"

definition event_destroy :: "nat \<Rightarrow> 'a events_st_scheme \<Rightarrow> 'a events_st_scheme" where
  "event_destroy i s =
     (let ob = objects s ! i in
      if ko_type ob \<noteq> KOBJECT_EVENT \<or> ko_value ob = 0 \<or> EVENT_MAX < unat (ko_value ob) then s
      else let e = unat (ko_value ob) - 1 in
           if \<not> ev_active (events s ! e) then s
           else let waiters = ev_waiters (events s ! e);
                    s1 = ev_upd e (\<lambda>st. st\<lparr>ev_waiters := 0, ev_signaled := False, ev_active := False\<rparr>) s
                in wake_mask waiters (\<lambda>_ _. -3) s1)"

definition event_init :: "'a events_st_scheme \<Rightarrow> 'a events_st_scheme" where
  "event_init s =
     s\<lparr>wait_counts := replicate MAX_TASKS 0, wait_deadlines := replicate MAX_TASKS 0,
       wait_timed := replicate MAX_TASKS False,
       wait_sets := replicate MAX_TASKS (replicate EVENT_WAIT_MANY_MAX None),
       events := replicate EVENT_MAX
         \<lparr>ev_mode = EVENT_AUTO_RESET, ev_signaled = False, ev_waiters = 0, ev_active = False\<rparr>\<rparr>"

definition event_create :: "u32 \<Rightarrow> bool \<Rightarrow> 'a events_st_scheme \<Rightarrow> nat option \<times> 'a events_st_scheme" where
  "event_create mode signaled s =
     (if mode \<noteq> EVENT_AUTO_RESET \<and> mode \<noteq> EVENT_MANUAL_RESET then (None, s)
      else case first_index (\<lambda>st. \<not> ev_active st) (events s) of
             None \<Rightarrow> (None, s)
           | Some e \<Rightarrow>
               let s1 = ev_upd e (\<lambda>_. \<lparr>ev_mode = mode, ev_signaled = signaled, ev_waiters = 0,
                                       ev_active = True\<rparr>) s
               in (case object_create KOBJECT_EVENT (of_nat (e + 1)) (Some event_destroy_fn) s1 of
                     (None, s2) \<Rightarrow> (None, ev_upd e (ev_active_update (\<lambda>_. False)) s2)
                   | (Some ob, s2) \<Rightarrow> (Some ob, s2)))"

text \<open>
  The first pass of \<^verbatim>\<open>event_wait_many\<close>: refuse a bad or repeated object, take the first
  signalled event, or go on to park.
\<close>

datatype wait_scan = Scan_refuse | Scan_ready nat nat | Scan_park

fun wait_scan_from :: "nat option list \<Rightarrow> nat \<Rightarrow> nat option list \<Rightarrow> 'a events_st_scheme \<Rightarrow> wait_scan" where
  "wait_scan_from prior index [] s = Scan_park"
| "wait_scan_from prior index (p # ps) s =
     (case event_for p s of
        None \<Rightarrow> Scan_refuse
      | Some e \<Rightarrow>
          if p \<in> set prior then Scan_refuse
          else if ev_signaled (events s ! e) then Scan_ready index e
          else wait_scan_from (prior @ [p]) (index + 1) ps s)"

definition park_entry :: "nat \<Rightarrow> nat \<times> nat option \<Rightarrow> 'a events_st_scheme \<Rightarrow> 'a events_st_scheme" where
  "park_entry slot = (\<lambda>(index, p) s.
     (let s1 = (case event_for p s of
                  None \<Rightarrow> s
                | Some e \<Rightarrow> ev_upd e (ev_waiters_update (\<lambda>w. w OR push_bit slot 1)) s)
      in s1\<lparr>wait_sets := (wait_sets s1)[slot := (wait_sets s1 ! slot)[index := p]]\<rparr>))"

definition park_task :: "nat option list \<Rightarrow> nat \<Rightarrow> u32 \<Rightarrow> bool \<Rightarrow> 'a events_st_scheme
    \<Rightarrow> 'a events_st_scheme" where
  "park_task obs slot deadline timed s =
     (let s1 = fold (park_entry slot) (enumerate 0 obs) s;
          s2 = s1\<lparr>wait_counts := (wait_counts s1)[slot := length obs],
                  wait_deadlines := (wait_deadlines s1)[slot := deadline],
                  wait_timed := (wait_timed s1)[slot := timed]\<rparr>
      in task_state_set (Some slot) TASK_BLOCKED_EVENT s2)"

text \<open>The answer: the code, the index of the event taken at once (if any), and the state.\<close>

definition event_wait_many :: "nat option list \<Rightarrow> nat \<Rightarrow> u32 \<Rightarrow> bool \<Rightarrow> 'a events_st_scheme
    \<Rightarrow> int \<times> nat option \<times> 'a events_st_scheme" where
  "event_wait_many obs slot deadline timed s =
     (if obs = [] \<or> EVENT_WAIT_MANY_MAX < length obs \<or> task_pool_count s \<le> slot \<or> MAX_TASKS \<le> slot
         \<or> t_state (task_pool s ! slot) \<noteq> TASK_RUNNING \<or> wait_counts s ! slot \<noteq> 0
      then (-1, None, s)
      else case wait_scan_from [] 0 obs s of
             Scan_refuse \<Rightarrow> (-1, None, s)
           | Scan_ready index e \<Rightarrow>
               (0, Some index,
                if ev_mode (events s ! e) = EVENT_AUTO_RESET
                then ev_upd e (ev_signaled_update (\<lambda>_. False)) s else s)
           | Scan_park \<Rightarrow> (1, None, park_task obs slot deadline timed s))"

definition event_wait :: "nat option \<Rightarrow> nat \<Rightarrow> 'a events_st_scheme \<Rightarrow> int \<times> 'a events_st_scheme" where
  "event_wait p slot s = (case event_wait_many [p] slot 0 False s of (r, _, s') \<Rightarrow> (r, s'))"

definition event_wait_timeout :: "nat option \<Rightarrow> nat \<Rightarrow> u32 \<Rightarrow> 'a events_st_scheme
    \<Rightarrow> int \<times> 'a events_st_scheme" where
  "event_wait_timeout p slot deadline s =
     (case event_wait_many [p] slot deadline True s of (r, _, s') \<Rightarrow> (r, s'))"

definition event_tick :: "u32 \<Rightarrow> int \<Rightarrow> 'a events_st_scheme \<Rightarrow> 'a events_st_scheme" where
  "event_tick now timeout_result s =
     fold (\<lambda>slot s. if \<not> wait_timed s ! slot \<or> not_due now (wait_deadlines s ! slot) then s
                    else wake_slot slot timeout_result s) [0..<task_pool_count s] s"

definition event_signal :: "nat option \<Rightarrow> 'a events_st_scheme \<Rightarrow> int \<times> 'a events_st_scheme" where
  "event_signal p s =
     (case event_for p s of
        None \<Rightarrow> (-1, s)
      | Some e \<Rightarrow>
          let waiters = ev_waiters (events s ! e) in
          if waiters = 0 then (0, ev_upd e (ev_signaled_update (\<lambda>_. True)) s)
          else if ev_mode (events s ! e) = EVENT_MANUAL_RESET
          then (0, wake_mask waiters (\<lambda>slot s. wait_index slot p s)
                     (ev_upd e (\<lambda>st. st\<lparr>ev_waiters := 0, ev_signaled := True\<rparr>) s))
          else (case first_index (\<lambda>slot. waiters AND push_bit slot 1 \<noteq> 0) [0..<MAX_TASKS] of
                  None \<Rightarrow> (-1, s)
                | Some slot \<Rightarrow>
                    (0, wake_slot slot (wait_index slot p s)
                          (ev_upd e (ev_waiters_update (\<lambda>w. w AND NOT (push_bit slot 1))) s))))"

definition event_reset :: "nat option \<Rightarrow> 'a events_st_scheme \<Rightarrow> int \<times> 'a events_st_scheme" where
  "event_reset p s =
     (case event_for p s of
        None \<Rightarrow> (-1, s)
      | Some e \<Rightarrow> (0, ev_upd e (ev_signaled_update (\<lambda>_. False)) s))"

definition event_cancel_task :: "nat \<Rightarrow> int \<Rightarrow> 'a events_st_scheme \<Rightarrow> 'a events_st_scheme" where
  "event_cancel_task slot result s =
     (if slot < MAX_TASKS
      then if t_state (task_pool s ! slot) = TASK_BLOCKED_EVENT then wake_slot slot result s
           else clear_wait_set slot s
      else s)"

text \<open>The dispatcher when only events carry a callback.\<close>

definition event_dispatch :: "destroy_fn \<Rightarrow> nat \<Rightarrow> 'a events_st_scheme \<Rightarrow> 'a events_st_scheme" where
  "event_dispatch d i s = (if d = event_destroy_fn then event_destroy i s else s)"

section \<open>Lemmas: frames\<close>

lemma ev_upd_simps [simp, table_simps]:
  "length (events (ev_upd e f s)) = length (events s)"
  "objects (ev_upd e f s) = objects s" "handles (ev_upd e f s) = handles s"
  "task_pool (ev_upd e f s) = task_pool s" "task_pool_count (ev_upd e f s) = task_pool_count s"
  "wait_sets (ev_upd e f s) = wait_sets s" "wait_counts (ev_upd e f s) = wait_counts s"
  "wait_deadlines (ev_upd e f s) = wait_deadlines s" "wait_timed (ev_upd e f s) = wait_timed s"
  "task_result (ev_upd e f s) = task_result s"
  by (simp_all add: ev_upd_def)

lemma ev_upd_nth: "e < length (events s) \<Longrightarrow>
    events (ev_upd e f s) ! k = (if k = e then f (events s ! e) else events s ! k)"
  by (simp add: ev_upd_def nth_list_update)

lemma task_upd_events [simp, table_simps]:
  "events (task_upd i f s) = events s" "wait_sets (task_upd i f s) = wait_sets s"
  "wait_counts (task_upd i f s) = wait_counts s" "wait_deadlines (task_upd i f s) = wait_deadlines s"
  "wait_timed (task_upd i f s) = wait_timed s"
  "events (task64_set_result i v s) = events s" "wait_sets (task64_set_result i v s) = wait_sets s"
  "wait_counts (task64_set_result i v s) = wait_counts s"
  "wait_deadlines (task64_set_result i v s) = wait_deadlines s"
  "wait_timed (task64_set_result i v s) = wait_timed s"
  by (simp_all add: task_upd_def task64_set_result_def)

lemma obj_upd_events [simp, table_simps]:
  "events (obj_upd i f s) = events s" "wait_sets (obj_upd i f s) = wait_sets s"
  "wait_counts (obj_upd i f s) = wait_counts s" "wait_deadlines (obj_upd i f s) = wait_deadlines s"
  "wait_timed (obj_upd i f s) = wait_timed s"
  by (simp_all add: obj_upd_def)

lemma event_for_cong:
  assumes "objects s = objects s'"
    and "\<And>e. e < EVENT_MAX \<Longrightarrow> ev_active (events s ! e) = ev_active (events s' ! e)"
  shows "event_for p s = event_for p s'"
proof (cases p)
  case (Some i)
  let ?v = "unat (ko_value (objects s' ! i))"
  have "ev_active (events s ! (?v - 1)) = ev_active (events s' ! (?v - 1))" if "?v \<le> EVENT_MAX" "ko_value (objects s' ! i) \<noteq> 0"
  proof (rule assms(2))
    have "?v \<noteq> 0" using that(2) by (simp only: unat_eq_zero not_False_eq_True)
    with that(1) show "?v - 1 < EVENT_MAX" by linarith
  qed
  with Some assms(1) show ?thesis by (auto simp: event_for_def Let_def)
qed (simp add: event_for_def)

lemma event_for_range: "event_for p s = Some e \<Longrightarrow> e < EVENT_MAX"
  by (auto simp: event_for_def Let_def EVENT_MAX_def split: option.splits if_splits)

lemma event_for_active: "event_for p s = Some e \<Longrightarrow> ev_active (events s ! e)"
  by (auto simp: event_for_def Let_def split: option.splits if_splits)

lemma mask_test:
  "(w :: u32) AND push_bit n 1 \<noteq> 0 \<longleftrightarrow> bit w n" "(w :: u32) AND 2 ^ n \<noteq> 0 \<longleftrightarrow> bit w n"
  by (simp_all add: bit_iff_and_push_bit_not_eq_0)

lemma bit_clear:
  "n < 32 \<Longrightarrow> bit ((w :: u32) AND NOT (push_bit m 1)) n \<longleftrightarrow> bit w n \<and> n \<noteq> m"
  "n < 32 \<Longrightarrow> bit ((w :: u32) AND NOT (2 ^ m)) n \<longleftrightarrow> bit w n \<and> n \<noteq> m"
  by (auto simp: bit_simps)

lemma bit_set:
  "n < 32 \<Longrightarrow> bit ((w :: u32) OR push_bit m 1) n \<longleftrightarrow> bit w n \<or> n = m"
  "n < 32 \<Longrightarrow> bit ((w :: u32) OR 2 ^ m) n \<longleftrightarrow> bit w n \<or> n = m"
  by (auto simp: bit_simps)

section \<open>Lemmas: clearing a wait set\<close>

definition wset :: "'a events_st_scheme \<Rightarrow> nat \<Rightarrow> nat option list" where
  "wset s t = take (wait_counts s ! t) (wait_sets s ! t)"

definition lens_ok :: "'a events_st_scheme \<Rightarrow> bool" where
  "lens_ok s \<longleftrightarrow> length (task_pool s) = MAX_TASKS \<and> length (objects s) = KOBJECT_MAX
     \<and> length (events s) = EVENT_MAX \<and> length (wait_sets s) = MAX_TASKS
     \<and> (\<forall>t < MAX_TASKS. length (wait_sets s ! t) = EVENT_WAIT_MANY_MAX)
     \<and> length (wait_counts s) = MAX_TASKS \<and> length (wait_deadlines s) = MAX_TASKS
     \<and> length (wait_timed s) = MAX_TASKS \<and> task_pool_count s \<le> MAX_TASKS"

lemma clear_wait_entries:
  assumes len: "length (events s) = EVENT_MAX" "slot < length (wait_sets s)"
    "length (wait_sets s ! slot) = EVENT_WAIT_MANY_MAX" and n: "n \<le> EVENT_WAIT_MANY_MAX"
  defines "r \<equiv> fold (clear_wait_entry slot) [0..<n] s"
  shows "r = s\<lparr>events := map (\<lambda>e. if \<exists>i < n. event_for (wait_sets s ! slot ! i) s = Some e
                  then ev_waiters_update (\<lambda>w. w AND NOT (push_bit slot 1)) (events s ! e)
                  else events s ! e) [0..<EVENT_MAX],
               wait_sets := (wait_sets s)[slot := map (\<lambda>i. if i < n then None else wait_sets s ! slot ! i)
                  [0..<EVENT_WAIT_MANY_MAX]]\<rparr>"
  using n unfolding r_def
proof (induction n)
  case 0
  have "map (\<lambda>e. events s ! e) [0..<EVENT_MAX] = events s" using len(1) by (metis map_nth)
  moreover have "map (\<lambda>i. wait_sets s ! slot ! i) [0..<EVENT_WAIT_MANY_MAX] = wait_sets s ! slot"
    using len(3) by (metis map_nth)
  ultimately show ?case by simp
next
  case (Suc n)
  let ?f = "\<lambda>n e. if \<exists>i < n. event_for (wait_sets s ! slot ! i) s = Some e
                  then ev_waiters_update (\<lambda>w. w AND NOT (push_bit slot 1)) (events s ! e)
                  else events s ! e"
  let ?g = "\<lambda>n i. if i < n then None else wait_sets s ! slot ! i"
  let ?m = "s\<lparr>events := map (?f n) [0..<EVENT_MAX],
              wait_sets := (wait_sets s)[slot := map (?g n) [0..<EVENT_WAIT_MANY_MAX]]\<rparr>"
  have n: "n < EVENT_WAIT_MANY_MAX" using Suc.prems by simp
  have ih: "fold (clear_wait_entry slot) [0..<n] s = ?m" using Suc by simp
  have entry: "wait_sets ?m ! slot ! n = wait_sets s ! slot ! n" using len(2) n by simp
  have ef: "event_for p ?m = event_for p s" for p
  proof (rule event_for_cong)
    show "ev_active (events ?m ! e) = ev_active (events s ! e)" if "e < EVENT_MAX" for e
      using that by auto
  qed simp
  let ?P = "event_for (wait_sets s ! slot ! n) s"
  have ws: "(wait_sets ?m)[slot := (wait_sets ?m ! slot)[n := None]]
      = (wait_sets s)[slot := map (?g (Suc n)) [0..<EVENT_WAIT_MANY_MAX]]"
    using len(2) n by (auto intro!: arg_cong [of _ _ "list_update (wait_sets s) slot"] nth_equalityI
        simp: nth_list_update less_Suc_eq)
  have ev: "(case ?P of None \<Rightarrow> map (?f n) [0..<EVENT_MAX]
      | Some e \<Rightarrow> (map (?f n) [0..<EVENT_MAX])[e := ev_waiters_update (\<lambda>w. w AND NOT (push_bit slot 1))
          (map (?f n) [0..<EVENT_MAX] ! e)]) = map (?f (Suc n)) [0..<EVENT_MAX]"
  proof (cases ?P)
    case None
    then show ?thesis by (auto simp: less_Suc_eq)
  next
    case (Some e)
    have "e < EVENT_MAX" using Some by (rule event_for_range)
    with Some show ?thesis
      by (auto intro!: nth_equalityI simp: nth_list_update less_Suc_eq and.assoc)
  qed
  have "fold (clear_wait_entry slot) [0..<Suc n] s = clear_wait_entry slot n ?m" by (simp add: ih)
  also have "\<dots> = s\<lparr>events := map (?f (Suc n)) [0..<EVENT_MAX],
      wait_sets := (wait_sets s)[slot := map (?g (Suc n)) [0..<EVENT_WAIT_MANY_MAX]]\<rparr>"
    unfolding clear_wait_entry_def entry ef Let_def ev [symmetric] ws [symmetric]
    by (cases ?P) (simp_all add: ev_upd_def)
  finally show ?case .
qed

text \<open>What clearing the wait set of a task leaves.\<close>

lemma clear_wait_set_spec:
  assumes lens: "lens_ok s" and slot: "slot < MAX_TASKS" and cnt: "wait_counts s ! slot \<le> EVENT_WAIT_MANY_MAX"
  defines "r \<equiv> clear_wait_set slot s"
  shows "objects r = objects s" "handles r = handles s" "task_pool r = task_pool s"
    "task_pool_count r = task_pool_count s" "lens_ok r"
    "wait_counts r = (wait_counts s)[slot := 0]" "t \<noteq> slot \<Longrightarrow> wait_sets r ! t = wait_sets s ! t"
    "wait_timed r = (wait_timed s)[slot := False]" "wait_deadlines r = (wait_deadlines s)[slot := 0]"
    "e < EVENT_MAX \<Longrightarrow> events r ! e = (if Some e \<in> (\<lambda>p. event_for p s) ` set (wset s slot)
       then ev_waiters_update (\<lambda>w. w AND NOT (push_bit slot 1)) (events s ! e) else events s ! e)"
    "event_for p r = event_for p s"
proof -
  have len: "length (events s) = EVENT_MAX" "slot < length (wait_sets s)"
    "length (wait_sets s ! slot) = EVENT_WAIT_MANY_MAX"
    using lens slot by (simp_all add: lens_ok_def)
  let ?n = "wait_counts s ! slot"
  let ?m = "fold (clear_wait_entry slot) [0..<?n] s"
  note cf = clear_wait_entries [OF len cnt]
  have r: "r = ?m\<lparr>wait_counts := (wait_counts ?m)[slot := 0],
      wait_deadlines := (wait_deadlines ?m)[slot := 0], wait_timed := (wait_timed ?m)[slot := False]\<rparr>"
    using slot by (simp add: r_def clear_wait_set_def Let_def)
  show ob: "objects r = objects s" and "handles r = handles s" "task_pool r = task_pool s"
    "task_pool_count r = task_pool_count s" "wait_counts r = (wait_counts s)[slot := 0]"
    "t \<noteq> slot \<Longrightarrow> wait_sets r ! t = wait_sets s ! t"
    "wait_timed r = (wait_timed s)[slot := False]" "wait_deadlines r = (wait_deadlines s)[slot := 0]"
    by (simp_all add: r cf)
  have "length (wait_sets r ! t) = EVENT_WAIT_MANY_MAX" if "t < MAX_TASKS" for t
    using lens that len(2) by (cases "t = slot") (simp_all add: r cf lens_ok_def)
  then show "lens_ok r" using lens by (simp add: r cf lens_ok_def)
  have ws: "(\<exists>i < ?n. event_for (wait_sets s ! slot ! i) s = Some e)
      \<longleftrightarrow> Some e \<in> (\<lambda>p. event_for p s) ` set (wset s slot)" for e
  proof -
    have "set (wset s slot) = (\<lambda>i. wait_sets s ! slot ! i) ` {0..<?n}"
      unfolding wset_def using cnt len(3) by (intro nth_image [symmetric]) simp
    then show ?thesis by (auto simp: image_iff intro!: bexI)
  qed
  show ev: "events r ! e = (if Some e \<in> (\<lambda>p. event_for p s) ` set (wset s slot)
       then ev_waiters_update (\<lambda>w. w AND NOT (push_bit slot 1)) (events s ! e) else events s ! e)"
    if "e < EVENT_MAX" for e
    using that by (simp add: r cf ws)
  show "event_for p r = event_for p s"
    by (rule event_for_cong [OF ob]) (simp add: ev)
qed

section \<open>The waiting invariant\<close>

text \<open>
  \<open>X\<close> are tasks whose wait set is about to be cleared, \<open>Y\<close> objects being destroyed; both are
  empty between operations.
\<close>

definition waits_ok :: "nat set \<Rightarrow> 'a events_st_scheme \<Rightarrow> bool" where
  "waits_ok X s \<longleftrightarrow>
     (\<forall>t < MAX_TASKS. wait_counts s ! t \<le> EVENT_WAIT_MANY_MAX
        \<and> (0 < wait_counts s ! t \<longrightarrow> t < task_pool_count s \<and> t_state (task_pool s ! t) = TASK_BLOCKED_EVENT))
   \<and> (\<forall>t < MAX_TASKS. t \<notin> X \<longrightarrow> (\<forall>p \<in> set (wset s t). \<exists>ob e. p = Some ob \<and> ob < KOBJECT_MAX
        \<and> event_for p s = Some e \<and> bit (ev_waiters (events s ! e)) t))
   \<and> (\<forall>e < EVENT_MAX. ev_active (events s ! e) \<longrightarrow>
        (\<forall>t < MAX_TASKS. bit (ev_waiters (events s ! e)) t \<longrightarrow> Some e \<in> (\<lambda>p. event_for p s) ` set (wset s t)))
   \<and> (\<forall>e < EVENT_MAX. ev_active (events s ! e) \<and> ev_signaled (events s ! e) \<longrightarrow> ev_waiters (events s ! e) = 0)"

definition owners_ok :: "nat set \<Rightarrow> 'a events_st_scheme \<Rightarrow> bool" where
  "owners_ok Y s \<longleftrightarrow>
     (\<forall>ob < KOBJECT_MAX. ob \<notin> Y \<longrightarrow> ko_active (objects s ! ob) \<longrightarrow> ko_type (objects s ! ob) = KOBJECT_EVENT \<longrightarrow>
        (\<exists>e. event_for (Some ob) s = Some e
           \<and> (\<forall>ob' < KOBJECT_MAX. ob' \<notin> Y \<longrightarrow> event_for (Some ob') s = Some e \<longrightarrow> ob' = ob)))"

definition events_inv :: "nat set \<Rightarrow> nat set \<Rightarrow> 'a events_st_scheme \<Rightarrow> bool" where
  "events_inv X Y s \<longleftrightarrow> lens_ok s \<and> waits_ok X s \<and> owners_ok Y s"

definition events_ok :: "'a events_st_scheme \<Rightarrow> bool" where
  "events_ok s \<longleftrightarrow> events_inv {} {} s"

lemma owners_ok_cong:
  "objects s = objects s' \<Longrightarrow> (\<And>p. event_for p s = event_for p s') \<Longrightarrow> owners_ok Y s = owners_ok Y s'"
  by (simp add: owners_ok_def)

lemma owners_okD:
  "owners_ok Y s \<Longrightarrow> ob < KOBJECT_MAX \<Longrightarrow> ob \<notin> Y \<Longrightarrow> ko_active (objects s ! ob)
     \<Longrightarrow> ko_type (objects s ! ob) = KOBJECT_EVENT \<Longrightarrow> \<exists>e. event_for (Some ob) s = Some e
           \<and> (\<forall>ob' < KOBJECT_MAX. ob' \<notin> Y \<longrightarrow> event_for (Some ob') s = Some e \<longrightarrow> ob' = ob)"
  unfolding owners_ok_def by blast

lemma waits_okD:
  assumes "waits_ok X s"
  shows "t < MAX_TASKS \<Longrightarrow> wait_counts s ! t \<le> EVENT_WAIT_MANY_MAX"
    "t < MAX_TASKS \<Longrightarrow> wait_counts s ! t \<noteq> 0 \<Longrightarrow> t < task_pool_count s"
    "t < MAX_TASKS \<Longrightarrow> wait_counts s ! t \<noteq> 0 \<Longrightarrow> t_state (task_pool s ! t) = TASK_BLOCKED_EVENT"
    "t < MAX_TASKS \<Longrightarrow> t \<notin> X \<Longrightarrow> p \<in> set (wset s t) \<Longrightarrow> \<exists>ob e. p = Some ob \<and> ob < KOBJECT_MAX
        \<and> event_for p s = Some e \<and> bit (ev_waiters (events s ! e)) t"
    "e < EVENT_MAX \<Longrightarrow> ev_active (events s ! e) \<Longrightarrow> t < MAX_TASKS \<Longrightarrow> bit (ev_waiters (events s ! e)) t
       \<Longrightarrow> Some e \<in> (\<lambda>p. event_for p s) ` set (wset s t)"
    "e < EVENT_MAX \<Longrightarrow> ev_active (events s ! e) \<Longrightarrow> ev_signaled (events s ! e) \<Longrightarrow> ev_waiters (events s ! e) = 0"
  using assms unfolding waits_ok_def by blast+

lemma clear_wait_set_inv:
  assumes lens: "lens_ok s" and w: "waits_ok X s" and slot: "slot < MAX_TASKS"
  shows "waits_ok (X - {slot}) (clear_wait_set slot s)"
    and "e < EVENT_MAX \<Longrightarrow> ev_active (events s ! e) \<Longrightarrow> \<not> bit (ev_waiters (events (clear_wait_set slot s) ! e)) slot"
proof -
  note sp = clear_wait_set_spec [OF lens slot waits_okD(1) [OF w slot]]
  let ?r = "clear_wait_set slot s"
  have len: "slot < length (wait_counts s)" using lens slot by (simp add: lens_ok_def)
  have ws: "wset ?r t = (if t = slot then [] else wset s t)" for t
    using sp(6,7) len by (auto simp: wset_def)
  have bits: "bit (ev_waiters (events ?r ! e)) t \<longleftrightarrow> bit (ev_waiters (events s ! e)) t
      \<and> \<not> (t = slot \<and> Some e \<in> (\<lambda>p. event_for p s) ` set (wset s slot))"
    if "e < EVENT_MAX" "t < MAX_TASKS" for e t
    using that by (auto simp: sp(10) bit_clear MAX_TASKS_def)
  have act: "ev_active (events ?r ! e) = ev_active (events s ! e)"
    "ev_signaled (events ?r ! e) = ev_signaled (events s ! e)" if "e < EVENT_MAX" for e
    using that by (simp_all add: sp(10))
  show dead: "\<not> bit (ev_waiters (events ?r ! e)) slot" if "e < EVENT_MAX" "ev_active (events s ! e)" for e
    using that bits [OF that(1) slot] waits_okD(5) [OF w that slot] by blast
  show "waits_ok (X - {slot}) ?r"
    unfolding waits_ok_def
  proof (intro conjI allI impI ballI)
    fix t assume t: "t < MAX_TASKS"
    show "wait_counts ?r ! t \<le> EVENT_WAIT_MANY_MAX"
      using waits_okD(1) [OF w t] len by (simp add: sp(6) nth_list_update)
    show "t < task_pool_count ?r" "t_state (task_pool ?r ! t) = TASK_BLOCKED_EVENT"
      if "0 < wait_counts ?r ! t"
      using that waits_okD(2,3) [OF w t] len by (auto simp: sp(3,4,6) nth_list_update split: if_splits)
    show "\<exists>ob e. p = Some ob \<and> ob < KOBJECT_MAX \<and> event_for p ?r = Some e \<and> bit (ev_waiters (events ?r ! e)) t"
      if "t \<notin> X - {slot}" "p \<in> set (wset ?r t)" for p
    proof -
      have ts: "t \<noteq> slot" "t \<notin> X" "p \<in> set (wset s t)" using that by (auto simp: ws split: if_splits)
      with waits_okD(4) [OF w t ts(2,3)] show ?thesis
        using bits [OF event_for_range t] unfolding sp(11) by fastforce
    qed
  next
    fix e t assume e: "e < EVENT_MAX" "ev_active (events ?r ! e)" and t: "t < MAX_TASKS" "bit (ev_waiters (events ?r ! e)) t"
    have "t \<noteq> slot" using dead [of e] e t(2) act by auto
    with waits_okD(5) [OF w e(1) _ t(1)] e t bits [OF e(1) t(1)] act(1) [OF e(1)]
    show "Some e \<in> (\<lambda>p. event_for p ?r) ` set (wset ?r t)" unfolding sp(11) ws by simp
  next
    fix e assume e: "e < EVENT_MAX" "ev_active (events ?r ! e) \<and> ev_signaled (events ?r ! e)"
    then have "ev_waiters (events s ! e) = 0" using waits_okD(6) [OF w e(1)] act [OF e(1)] by simp
    then show "ev_waiters (events ?r ! e) = 0" using e(1) by (simp add: sp(10))
  qed
qed

lemma task_state_frame:
  "objects (task_state_set t st s) = objects s" "handles (task_state_set t st s) = handles s"
  "events (task_state_set t st s) = events s" "wait_sets (task_state_set t st s) = wait_sets s"
  "wait_counts (task_state_set t st s) = wait_counts s" "wait_timed (task_state_set t st s) = wait_timed s"
  "wait_deadlines (task_state_set t st s) = wait_deadlines s"
  "task_pool_count (task_state_set t st s) = task_pool_count s"
  "length (task_pool (task_state_set t st s)) = length (task_pool s)"
  by (cases t; simp add: task_state_set_def)+

lemma event_for_state_set [simp]: "event_for p (task_state_set t st s) = event_for p s"
  by (rule event_for_cong) (simp_all add: task_state_frame)

lemma event_for_result [simp]: "event_for p (task64_set_result i v s) = event_for p s"
  by (rule event_for_cong) simp_all

lemma task_state_set_state: "i < length (task_pool s) \<Longrightarrow>
    t_state (task_pool (task_state_set (Some i) st s) ! j) = (if j = i then st else t_state (task_pool s ! j))"
  by (simp add: task_state_set_def)

text \<open>A wake frees the task from every event it waited on and leaves the others as they were.\<close>

lemma wake_slot_inv:
  assumes inv: "events_inv X Y s" and slot: "slot < MAX_TASKS"
  shows "events_inv (X - {slot}) Y (wake_slot slot r s)"
proof (cases "task_pool_count s \<le> slot \<or> t_state (task_pool s ! slot) \<noteq> TASK_BLOCKED_EVENT")
  case True
  have w: "waits_ok X s" using inv by (simp add: events_inv_def)
  have "wait_counts s ! slot = 0" using waits_okD(2,3) [OF w slot] True by (metis not_le)
  then have "wset s slot = []" by (simp add: wset_def)
  then have "waits_ok (X - {slot}) s" using w unfolding waits_ok_def by auto
  with inv True show ?thesis by (simp add: wake_slot_def events_inv_def)
next
  case False
  have lens: "lens_ok s" and w: "waits_ok X s" and own: "owners_ok Y s"
    using inv by (simp_all add: events_inv_def)
  let ?c = "clear_wait_set slot s"
  let ?r = "task64_set_result slot r (task_state_set (Some slot) TASK_RUNNING ?c)"
  note sp = clear_wait_set_spec [OF lens slot waits_okD(1) [OF w slot]]
  have r: "wake_slot slot r s = ?r" using False by (simp add: wake_slot_def)
  have cw: "waits_ok (X - {slot}) ?c" by (rule clear_wait_set_inv [OF lens w slot])
  have len: "slot < length (task_pool ?c)" "slot < length (wait_counts s)"
    using lens slot by (simp_all add: sp(3) lens_ok_def)
  have ws: "wset ?r t = wset ?c t" for t by (simp add: wset_def task_state_frame)
  have z: "wait_counts ?c ! slot = 0" using len(2) by (simp add: sp(6))
  have ef: "event_for p ?r = event_for p ?c" for p by (simp add: task_state_frame)
  have st: "t_state (task_pool (task_state_set (Some slot) TASK_RUNNING ?c) ! t) = TASK_BLOCKED_EVENT"
    if "0 < wait_counts ?c ! t" "t_state (task_pool ?c ! t) = TASK_BLOCKED_EVENT" for t
    using that z by (cases "t = slot") (auto simp: task_state_set_state [OF len(1)])
  have "waits_ok (X - {slot}) ?r"
    using cw unfolding waits_ok_def ws ef by (auto simp: task_state_frame st)
  moreover have "lens_ok ?r" using sp(5) by (simp add: lens_ok_def task_state_frame)
  moreover have "owners_ok Y ?r"
  proof -
    have "event_for p ?r = event_for p s" for p by (simp only: ef sp(11))
    moreover have "objects ?r = objects s" by (simp add: task_state_frame sp(1))
    ultimately show ?thesis using own owners_ok_cong [of ?r s Y] by simp
  qed
  ultimately show ?thesis by (simp add: r events_inv_def)
qed

lemma wake_mask_inv:
  assumes "events_inv {t. bit w t} Y s"
  shows "events_inv {} Y (wake_mask w res s)"
proof -
  let ?g = "\<lambda>slot s. if w AND push_bit slot 1 \<noteq> 0 then wake_slot slot (res slot s) s else s"
  have "n \<le> MAX_TASKS \<Longrightarrow> events_inv {t. bit w t \<and> n \<le> t} Y (fold ?g [0..<n] s)" for n
  proof (induction n)
    case 0
    with assms show ?case by simp
  next
    case (Suc n)
    let ?m = "fold ?g [0..<n] s"
    have ih: "events_inv {t. bit w t \<and> n \<le> t} Y ?m" using Suc by simp
    show ?case
    proof (cases "bit w n")
      case True
      have "{t. bit w t \<and> n \<le> t} - {n} = {t. bit w t \<and> Suc n \<le> t}" by auto
      moreover have "events_inv ({t. bit w t \<and> n \<le> t} - {n}) Y (wake_slot n (res n ?m) ?m)"
        using ih Suc.prems by (intro wake_slot_inv) simp_all
      ultimately show ?thesis using True by (simp add: mask_test)
    next
      case False
      then have "{t. bit w t \<and> n \<le> t} = {t. bit w t \<and> Suc n \<le> t}"
        by (auto simp: Suc_le_eq order.order_iff_strict)
      with ih False show ?thesis by (simp add: mask_test)
    qed
  qed
  from this [of MAX_TASKS] have "events_inv {t. bit w t \<and> MAX_TASKS \<le> t} Y (wake_mask w res s)"
    by (simp add: wake_mask_def)
  moreover have "{t. bit w t \<and> MAX_TASKS \<le> t} = {}"
    using bit_imp_le_length [of w] by (auto simp: MAX_TASKS_def) (meson not_le)
  ultimately show ?thesis by simp
qed

section \<open>Every operation keeps the invariant\<close>

lemma waits_ok_cong:
  assumes "waits_ok X s" and "wait_counts s' = wait_counts s" "wait_sets s' = wait_sets s"
    "events s' = events s" "task_pool s' = task_pool s" "task_pool_count s' = task_pool_count s"
    and "\<And>p. event_for p s' = event_for p s"
  shows "waits_ok X s'"
proof -
  have "wset s' t = wset s t" for t using assms by (simp add: wset_def)
  with assms show ?thesis by (simp add: waits_ok_def)
qed

text \<open>Dropping waiters of one event: the tasks dropped are the ones still to be cleared.\<close>

lemma drop_waiters_inv:
  assumes inv: "events_inv {} Y s" and e: "e < EVENT_MAX"
    and sub: "\<And>t. t < MAX_TASKS \<Longrightarrow> bit (ev_waiters (f (events s ! e))) t \<Longrightarrow> bit (ev_waiters (events s ! e)) t"
    and act: "ev_active (f (events s ! e)) = ev_active (events s ! e)"
    and sig: "ev_signaled (f (events s ! e)) \<Longrightarrow> ev_waiters (f (events s ! e)) = 0"
  shows "events_inv {t. bit (ev_waiters (events s ! e)) t \<and> \<not> bit (ev_waiters (f (events s ! e))) t} Y (ev_upd e f s)"
proof -
  let ?r = "ev_upd e f s"
  have lens: "lens_ok s" and w: "waits_ok {} s" and own: "owners_ok Y s"
    using inv by (simp_all add: events_inv_def)
  have len: "e < length (events s)" using lens e by (simp add: lens_ok_def)
  note nth = ev_upd_nth [OF len, of f]
  have ef: "event_for p ?r = event_for p s" for p
    by (rule event_for_cong) (simp_all add: nth act)
  have ws: "wset ?r t = wset s t" for t by (simp add: wset_def)
  have "waits_ok {t. bit (ev_waiters (events s ! e)) t \<and> \<not> bit (ev_waiters (f (events s ! e))) t} ?r"
    unfolding waits_ok_def ws ef
  proof (intro conjI allI impI ballI)
    fix t assume t: "t < MAX_TASKS"
    show "wait_counts ?r ! t \<le> EVENT_WAIT_MANY_MAX" using waits_okD(1) [OF w t] by simp
    show "t < task_pool_count ?r" "t_state (task_pool ?r ! t) = TASK_BLOCKED_EVENT"
      if "0 < wait_counts ?r ! t" using waits_okD(2,3) [OF w t] that by simp_all
    show "\<exists>ob e'. p = Some ob \<and> ob < KOBJECT_MAX \<and> event_for p s = Some e' \<and> bit (ev_waiters (events ?r ! e')) t"
      if tx: "t \<notin> {t. bit (ev_waiters (events s ! e)) t \<and> \<not> bit (ev_waiters (f (events s ! e))) t}"
        and px: "p \<in> set (wset s t)" for p
    proof -
      obtain ob e' where "p = Some ob" "ob < KOBJECT_MAX" "event_for p s = Some e'" "bit (ev_waiters (events s ! e')) t"
        using waits_okD(4) [OF w t _ px] by auto
      with tx show ?thesis by (auto simp: nth)
    qed
  next
    fix e' t assume "e' < EVENT_MAX" "ev_active (events ?r ! e')" "t < MAX_TASKS" "bit (ev_waiters (events ?r ! e')) t"
    then show "Some e' \<in> (\<lambda>p. event_for p s) ` set (wset s t)"
      using waits_okD(5) [OF w, of e' t] sub [of t] act by (auto simp: nth split: if_splits)
  next
    fix e' assume "e' < EVENT_MAX" "ev_active (events ?r ! e') \<and> ev_signaled (events ?r ! e')"
    then show "ev_waiters (events ?r ! e') = 0"
      using waits_okD(6) [OF w, of e'] sig by (auto simp: nth split: if_splits)
  qed
  moreover have "lens_ok ?r" using lens by (simp add: lens_ok_def)
  moreover have "owners_ok Y ?r" using own owners_ok_cong [of ?r s Y] ef by simp
  ultimately show ?thesis by (simp add: events_inv_def)
qed

lemma event_reset_ok: "events_ok s \<Longrightarrow> events_ok (snd (event_reset p s))"
proof (cases "event_for p s")
  case (Some e)
  assume ok: "events_ok s"
  have "events_inv {} {} (ev_upd e (ev_signaled_update (\<lambda>_. False)) s)"
    using drop_waiters_inv [of "{}" s e "ev_signaled_update (\<lambda>_. False)"] ok event_for_range [OF Some]
    by (simp add: events_ok_def)
  with Some show ?thesis by (simp add: event_reset_def events_ok_def)
qed (simp add: event_reset_def)

lemma event_signal_ok:
  assumes ok: "events_ok s"
  shows "events_ok (snd (event_signal p s))"
proof (cases "event_for p s")
  case None
  with ok show ?thesis by (simp add: event_signal_def)
next
  case (Some e)
  note e = event_for_range [OF Some]
  have inv: "events_inv {} {} s" using ok by (simp add: events_ok_def)
  let ?w = "ev_waiters (events s ! e)"
  consider "?w = 0" | "?w \<noteq> 0" "ev_mode (events s ! e) = EVENT_MANUAL_RESET"
    | "?w \<noteq> 0" "ev_mode (events s ! e) \<noteq> EVENT_MANUAL_RESET" by blast
  then show ?thesis
  proof cases
    case 1
    then have "events_inv {} {} (ev_upd e (ev_signaled_update (\<lambda>_. True)) s)"
      using drop_waiters_inv [OF inv e, of "ev_signaled_update (\<lambda>_. True)"] by simp
    with 1 Some show ?thesis by (simp add: event_signal_def events_ok_def)
  next
    case 2
    have "events_inv {t. bit ?w t} {} (ev_upd e (\<lambda>st. st\<lparr>ev_waiters := 0, ev_signaled := True\<rparr>) s)"
      using drop_waiters_inv [OF inv e, of "\<lambda>st. st\<lparr>ev_waiters := 0, ev_signaled := True\<rparr>"] by simp
    from wake_mask_inv [OF this] 2 Some show ?thesis by (simp add: event_signal_def events_ok_def Let_def)
  next
    case 3
    show ?thesis
    proof (cases "first_index (\<lambda>slot. ?w AND push_bit slot 1 \<noteq> 0) [0..<MAX_TASKS]")
      case None
      with 3 Some ok show ?thesis by (simp add: event_signal_def)
    next
      case slot: (Some slot)
      have sm: "slot < MAX_TASKS" using first_indexD(1) [OF slot] by simp
      let ?f = "ev_waiters_update (\<lambda>w. w AND NOT (push_bit slot 1))"
      have ns: "\<not> ev_signaled (events s ! e)"
        using 3(1) waits_okD(6) [of "{}" s e] inv event_for_active [OF Some] e by (auto simp: events_inv_def)
      have drop: "events_inv {t. bit ?w t \<and> \<not> bit (?w AND NOT (push_bit slot 1)) t} {} (ev_upd e ?f s)"
        using drop_waiters_inv [OF inv e, of ?f] ns by (simp add: bit_clear MAX_TASKS_def)
      have "{t. bit ?w t \<and> \<not> bit (?w AND NOT (push_bit slot 1)) t} - {slot} = {}"
        by (auto simp: bit_simps dest: bit_imp_le_length)
      with wake_slot_inv [OF drop sm]
      have "events_inv {} {} (wake_slot slot (wait_index slot p s) (ev_upd e ?f s))" by (simp only:)
      with 3 Some slot show ?thesis by (simp add: event_signal_def events_ok_def Let_def)
    qed
  qed
qed

lemma event_tick_ok:
  assumes "events_ok s"
  shows "events_ok (event_tick now r s)"
proof -
  have "events_inv {} {} s \<Longrightarrow> \<forall>slot \<in> set xs. slot < MAX_TASKS \<Longrightarrow>
    events_inv {} {} (fold (\<lambda>slot s. if \<not> wait_timed s ! slot \<or> not_due now (wait_deadlines s ! slot) then s
                    else wake_slot slot r s) xs s)" for xs
  proof (induction xs arbitrary: s)
    case (Cons slot xs)
    have "events_inv {} {} (wake_slot slot r s)"
      using wake_slot_inv [OF Cons.prems(1), of slot r] Cons.prems(2) by simp
    with Cons show ?case by simp
  qed simp
  moreover have "task_pool_count s \<le> MAX_TASKS" using assms by (simp add: events_ok_def events_inv_def lens_ok_def)
  ultimately show ?thesis using assms by (simp add: event_tick_def events_ok_def)
qed

lemma event_cancel_task_ok:
  assumes ok: "events_ok s"
  shows "events_ok (event_cancel_task slot r s)"
proof -
  have inv: "lens_ok s" "waits_ok {} s" "owners_ok {} s" using ok by (simp_all add: events_ok_def events_inv_def)
  have "events_inv {} {} (clear_wait_set slot s)" if "slot < MAX_TASKS"
  proof -
    note sp = clear_wait_set_spec [OF inv(1) that waits_okD(1) [OF inv(2) that]]
    have "owners_ok {} (clear_wait_set slot s)"
      using inv(3) owners_ok_cong [of "clear_wait_set slot s" s "{}"] sp(1,11) by simp
    with clear_wait_set_inv(1) [OF inv(1,2) that] sp(5) show ?thesis by (simp add: events_inv_def)
  qed
  moreover have "events_inv {} {} (wake_slot slot r s)" if "slot < MAX_TASKS"
    using wake_slot_inv [of "{}" "{}" s slot r] ok that by (simp add: events_ok_def)
  ultimately show ?thesis using ok by (simp add: event_cancel_task_def events_ok_def)
qed

text \<open>Parking writes the wait set and enters the task in the masks, in one pass.\<close>

lemma park_entries:
  assumes "length (events s) = EVENT_MAX" "slot < length (wait_sets s)"
    "length (wait_sets s ! slot) = EVENT_WAIT_MANY_MAX" "k + length obs \<le> EVENT_WAIT_MANY_MAX"
  shows "fold (park_entry slot) (enumerate k obs) s =
    s\<lparr>events := map (\<lambda>e. if Some e \<in> (\<lambda>p. event_for p s) ` set obs
                  then ev_waiters_update (\<lambda>w. w OR push_bit slot 1) (events s ! e)
                  else events s ! e) [0..<EVENT_MAX],
      wait_sets := (wait_sets s)[slot := take k (wait_sets s ! slot) @ obs
                  @ drop (k + length obs) (wait_sets s ! slot)]\<rparr>"
  using assms
proof (induction obs arbitrary: k s)
  case Nil
  have "map (\<lambda>e. events s ! e) [0..<EVENT_MAX] = events s" using Nil(1) by (metis map_nth)
  then show ?case by simp
next
  case (Cons p ps)
  let ?s1 = "park_entry slot (k, p) s"
  have k: "k < EVENT_WAIT_MANY_MAX" using Cons.prems(4) by simp
  have ev1: "events ?s1 ! e = (if event_for p s = Some e
      then ev_waiters_update (\<lambda>w. w OR push_bit slot 1) (events s ! e) else events s ! e)"
    if "e < EVENT_MAX" for e
    using that Cons.prems(1) event_for_range [of p s]
    by (cases "event_for p s") (auto simp: park_entry_def ev_upd_def nth_list_update)
  have row: "wait_sets ?s1 ! slot = (wait_sets s ! slot)[k := p]"
    using Cons.prems(2) by (cases "event_for p s") (simp_all add: park_entry_def ev_upd_def)
  have ef: "event_for q ?s1 = event_for q s" for q
  proof (rule event_for_cong)
    show "objects ?s1 = objects s"
      by (cases "event_for p s") (simp_all add: park_entry_def)
  qed (simp add: ev1)
  have l1: "length (events ?s1) = EVENT_MAX" "slot < length (wait_sets ?s1)"
    "length (wait_sets ?s1 ! slot) = EVENT_WAIT_MANY_MAX" "Suc k + length ps \<le> EVENT_WAIT_MANY_MAX"
    using Cons.prems row by (cases "event_for p s"; simp add: park_entry_def)+
  have ev: "map (\<lambda>e. if Some e \<in> (\<lambda>q. event_for q s) ` set ps
        then ev_waiters_update (\<lambda>w. w OR push_bit slot 1) (events ?s1 ! e) else events ?s1 ! e) [0..<EVENT_MAX]
      = map (\<lambda>e. if Some e \<in> (\<lambda>q. event_for q s) ` set (p # ps)
        then ev_waiters_update (\<lambda>w. w OR push_bit slot 1) (events s ! e) else events s ! e) [0..<EVENT_MAX]"
  proof (rule map_cong [OF refl])
    fix e assume "e \<in> set [0..<EVENT_MAX]"
    then have "e < EVENT_MAX" by simp
    then show "(if Some e \<in> (\<lambda>q. event_for q s) ` set ps
        then ev_waiters_update (\<lambda>w. w OR push_bit slot 1) (events ?s1 ! e) else events ?s1 ! e)
      = (if Some e \<in> (\<lambda>q. event_for q s) ` set (p # ps)
        then ev_waiters_update (\<lambda>w. w OR push_bit slot 1) (events s ! e) else events s ! e)"
      by (auto simp: ev1 or.assoc)
  qed
  have ws: "(wait_sets ?s1)[slot := take (Suc k) (wait_sets ?s1 ! slot) @ ps
        @ drop (Suc k + length ps) (wait_sets ?s1 ! slot)]
      = (wait_sets s)[slot := take k (wait_sets s ! slot) @ (p # ps)
        @ drop (k + length (p # ps)) (wait_sets s ! slot)]"
  proof -
    have "take (Suc k) ((wait_sets s ! slot)[k := p]) = take k (wait_sets s ! slot) @ [p]"
      using k Cons.prems(3) by (simp add: take_Suc_conv_app_nth)
    moreover have "drop (Suc k + length ps) ((wait_sets s ! slot)[k := p]) = drop (Suc k + length ps) (wait_sets s ! slot)"
      by simp
    moreover have "wait_sets ?s1 = (wait_sets s)[slot := (wait_sets s ! slot)[k := p]]"
      by (cases "event_for p s") (simp_all add: park_entry_def)
    ultimately show ?thesis by (simp only: nth_list_update_eq [OF Cons.prems(2)] list_update_overwrite append.assoc append_Cons append_Nil
          list.size add_Suc_right add_Suc add_0_right)
  qed
  have rest: "?s1\<lparr>events := E, wait_sets := W\<rparr> = s\<lparr>events := E, wait_sets := W\<rparr>" for E W
    by (cases "event_for p s") (simp_all add: park_entry_def ev_upd_def)
  show ?case
    using Cons.IH [OF l1] unfolding ef ev ws rest by (simp only: enumerate_simps fold_simps)
qed

lemma wait_scan_park:
  "wait_scan_from prior k ps s = Scan_park \<Longrightarrow> p \<in> set ps \<Longrightarrow>
     \<exists>e. event_for p s = Some e \<and> \<not> ev_signaled (events s ! e)"
  by (induction prior k ps s rule: wait_scan_from.induct) (auto split: option.splits if_splits)

lemma wait_scan_ready:
  "wait_scan_from prior k ps s = Scan_ready i e \<Longrightarrow>
     k \<le> i \<and> i < k + length ps \<and> event_for (ps ! (i - k)) s = Some e \<and> ev_signaled (events s ! e)"
proof (induction prior k ps s rule: wait_scan_from.induct)
  case (2 prior index p ps s)
  show ?case
  proof (cases "event_for p s")
    case None
    with 2 show ?thesis by simp
  next
    case (Some e')
    with 2 show ?thesis by (cases "i = index") (auto simp: nth_Cons' split: if_splits)
  qed
qed simp

lemma event_wait_many_cases:
  obtains (refuse) "event_wait_many obs slot deadline timed s = (-1, None, s)"
  | (ready) i e where "wait_scan_from [] 0 obs s = Scan_ready i e"
      "event_wait_many obs slot deadline timed s = (0, Some i,
         if ev_mode (events s ! e) = EVENT_AUTO_RESET then ev_upd e (ev_signaled_update (\<lambda>_. False)) s else s)"
  | (park) "wait_scan_from [] 0 obs s = Scan_park" "length obs \<le> EVENT_WAIT_MANY_MAX" "slot < task_pool_count s"
      "slot < MAX_TASKS" "wait_counts s ! slot = 0"
      "event_wait_many obs slot deadline timed s = (1, None, park_task obs slot deadline timed s)"
proof (cases "obs = [] \<or> EVENT_WAIT_MANY_MAX < length obs \<or> task_pool_count s \<le> slot \<or> MAX_TASKS \<le> slot
       \<or> t_state (task_pool s ! slot) \<noteq> TASK_RUNNING \<or> wait_counts s ! slot \<noteq> 0")
  case True
  then show thesis by (intro refuse) (simp add: event_wait_many_def)
next
  case guard: False
  then have eq: "event_wait_many obs slot deadline timed s =
    (case wait_scan_from [] 0 obs s of
       Scan_refuse \<Rightarrow> (-1, None, s)
     | Scan_ready index e \<Rightarrow> (0, Some index, if ev_mode (events s ! e) = EVENT_AUTO_RESET
          then ev_upd e (ev_signaled_update (\<lambda>_. False)) s else s)
     | Scan_park \<Rightarrow> (1, None, park_task obs slot deadline timed s))"
    by (simp only: event_wait_many_def if_False)
  show thesis
  proof (cases "wait_scan_from [] 0 obs s")
    case Scan_refuse
    then show thesis by (intro refuse) (simp add: eq)
  next
    case (Scan_ready i e)
    then show thesis by (intro ready) (simp_all add: eq)
  next
    case Scan_park
    then show thesis using guard by (intro park) (simp_all add: eq)
  qed
qed

text \<open>What parking changes.\<close>

lemma park_task_spec:
  fixes deadline :: u32 and timed :: bool
  assumes lens: "lens_ok s" and slot: "slot < MAX_TASKS" and n: "length obs \<le> EVENT_WAIT_MANY_MAX"
  defines "r \<equiv> park_task obs slot deadline timed s"
  shows "e < EVENT_MAX \<Longrightarrow> events r ! e = (if Some e \<in> (\<lambda>p. event_for p s) ` set obs
        then ev_waiters_update (\<lambda>w. w OR push_bit slot 1) (events s ! e) else events s ! e)"
    "objects r = objects s" "event_for p r = event_for p s" "task_pool_count r = task_pool_count s"
    "wait_counts r = (wait_counts s)[slot := length obs]"
    "wset r t = (if t = slot then obs else wset s t)"
    "t_state (task_pool r ! t) = (if t = slot then TASK_BLOCKED_EVENT else t_state (task_pool s ! t))"
    "lens_ok r"
proof -
  have len: "length (events s) = EVENT_MAX" "slot < length (wait_sets s)"
    "length (wait_sets s ! slot) = EVENT_WAIT_MANY_MAX" "slot < length (wait_counts s)"
    "slot < length (task_pool s)"
    using lens slot by (simp_all add: lens_ok_def)
  have k0: "0 + length obs \<le> EVENT_WAIT_MANY_MAX" using n by simp
  note pe = park_entries [OF len(1,2,3) k0]
  note rd = r_def park_task_def Let_def
  show ev: "events r ! e = (if Some e \<in> (\<lambda>p. event_for p s) ` set obs
      then ev_waiters_update (\<lambda>w. w OR push_bit slot 1) (events s ! e) else events s ! e)"
    if "e < EVENT_MAX" for e
    using that unfolding rd by (simp add: task_state_frame pe)
  show obj: "objects r = objects s" and pc: "task_pool_count r = task_pool_count s"
    and cnt: "wait_counts r = (wait_counts s)[slot := length obs]"
    unfolding rd by (simp_all add: task_state_frame pe)
  show "event_for p r = event_for p s" by (rule event_for_cong) (simp_all add: obj ev)
  have wsr: "wait_sets r = (wait_sets s)[slot := obs @ drop (length obs) (wait_sets s ! slot)]"
    unfolding rd by (simp add: task_state_frame pe)
  show "wset r t = (if t = slot then obs else wset s t)"
    using len(2,4) by (auto simp: wset_def cnt wsr)
  show "t_state (task_pool r ! t) = (if t = slot then TASK_BLOCKED_EVENT else t_state (task_pool s ! t))"
    unfolding rd using len(5) by (subst task_state_set_state) (simp_all add: pe)
  have rowlen: "length (wait_sets r ! t) = EVENT_WAIT_MANY_MAX" if "t < MAX_TASKS" for t
    using that lens len(2,3) n by (cases "t = slot") (simp_all add: wsr lens_ok_def)
  have "length (events r) = EVENT_MAX" "length (wait_deadlines r) = MAX_TASKS"
    "length (wait_timed r) = MAX_TASKS" "length (task_pool r) = MAX_TASKS"
    using lens unfolding rd by (simp_all add: task_state_frame pe lens_ok_def)
  then show "lens_ok r" using lens rowlen by (simp add: lens_ok_def obj pc cnt wsr)
qed

lemma park_task_inv:
  assumes inv: "events_inv {} {} s" and scan: "wait_scan_from [] 0 obs s = Scan_park"
    and n: "length obs \<le> EVENT_WAIT_MANY_MAX" and slot: "slot < task_pool_count s" "slot < MAX_TASKS"
    and idle: "wait_counts s ! slot = 0"
    and ptr: "\<forall>p \<in> set obs. \<forall>ob. p = Some ob \<longrightarrow> ob < KOBJECT_MAX"
  shows "events_inv {} {} (park_task obs slot deadline timed s)"
proof -
  let ?r = "park_task obs slot deadline timed s"
  have lens: "lens_ok s" and w: "waits_ok {} s" and own: "owners_ok {} s"
    using inv by (simp_all add: events_inv_def)
  note sp = park_task_spec [OF lens slot(2) n, where deadline = deadline and timed = timed]
  have len: "slot < length (wait_counts s)" using lens slot by (simp add: lens_ok_def)
  have bits: "bit (ev_waiters (events ?r ! e)) t \<longleftrightarrow> bit (ev_waiters (events s ! e)) t
      \<or> t = slot \<and> Some e \<in> (\<lambda>p. event_for p s) ` set obs" if "e < EVENT_MAX" "t < MAX_TASKS" for e t
    using that by (auto simp: sp(1) bit_set MAX_TASKS_def)
  have act: "ev_active (events ?r ! e) = ev_active (events s ! e)"
    "ev_signaled (events ?r ! e) = ev_signaled (events s ! e)" if "e < EVENT_MAX" for e
    using that by (simp_all add: sp(1))
  have free: "\<not> bit (ev_waiters (events s ! e)) slot" if "e < EVENT_MAX" "ev_active (events s ! e)" for e
    using waits_okD(5) [OF w that slot(2)] idle by (auto simp: wset_def)
  have "waits_ok {} ?r" unfolding waits_ok_def
  proof (intro conjI allI impI ballI)
    fix t assume t: "t < MAX_TASKS"
    show "wait_counts ?r ! t \<le> EVENT_WAIT_MANY_MAX"
      using waits_okD(1) [OF w t] n len by (simp add: sp(5) nth_list_update)
    show "t < task_pool_count ?r" "t_state (task_pool ?r ! t) = TASK_BLOCKED_EVENT"
      if "0 < wait_counts ?r ! t"
      using that waits_okD(2,3) [OF w t] slot len by (auto simp: sp(4,5,7) nth_list_update split: if_splits)
    show "\<exists>ob e. p = Some ob \<and> ob < KOBJECT_MAX \<and> event_for p ?r = Some e \<and> bit (ev_waiters (events ?r ! e)) t"
      if px: "p \<in> set (wset ?r t)" for p
    proof (cases "t = slot")
      case True
      with px have p: "p \<in> set obs" by (simp add: sp(6))
      obtain e where e: "event_for p s = Some e" using wait_scan_park [OF scan p] by auto
      then obtain ob where "p = Some ob" by (cases p) (auto simp: event_for_def)
      moreover have "bit (ev_waiters (events ?r ! e)) t"
        using bits [OF event_for_range [OF e] t] True p e by force
      ultimately show ?thesis using e p ptr by (auto simp: sp(3))
    next
      case False
      with px have "p \<in> set (wset s t)" by (simp add: sp(6))
      then obtain ob e where "p = Some ob" "ob < KOBJECT_MAX" "event_for p s = Some e" "bit (ev_waiters (events s ! e)) t"
        using waits_okD(4) [OF w t] by blast
      with bits [OF event_for_range t] show ?thesis by (auto simp: sp(3))
    qed
  next
    fix e t assume e: "e < EVENT_MAX" "ev_active (events ?r ! e)" and t: "t < MAX_TASKS" "bit (ev_waiters (events ?r ! e)) t"
    then show "Some e \<in> (\<lambda>p. event_for p ?r) ` set (wset ?r t)"
      using bits [OF e(1) t(1)] waits_okD(5) [OF w e(1) _ t(1)] act [OF e(1)] free [OF e(1)]
      unfolding sp(3) by (auto simp: sp(6) split: if_splits)
  next
    fix e assume e: "e < EVENT_MAX" and "ev_active (events ?r ! e) \<and> ev_signaled (events ?r ! e)"
    then have a: "ev_active (events s ! e)" "ev_signaled (events s ! e)" using act by simp_all
    have "Some e \<notin> (\<lambda>p. event_for p s) ` set obs"
      using wait_scan_park [OF scan] a(2) by force
    then show "ev_waiters (events ?r ! e) = 0" using waits_okD(6) [OF w e a] e by (simp add: sp(1))
  qed
  moreover have "owners_ok {} ?r" using own owners_ok_cong [of ?r s "{}"] sp(2,3) by simp
  ultimately show ?thesis using sp(8) by (simp add: events_inv_def)
qed

lemma event_wait_many_ok:
  assumes ok: "events_ok s" and ptr: "\<forall>p \<in> set obs. \<forall>ob. p = Some ob \<longrightarrow> ob < KOBJECT_MAX"
  shows "events_ok (snd (snd (event_wait_many obs slot deadline timed s)))"
proof -
  have inv: "events_inv {} {} s" using ok by (simp add: events_ok_def)
  show ?thesis
  proof (cases rule: event_wait_many_cases [of obs slot deadline timed s])
    case refuse
    with ok show ?thesis by simp
  next
    case (ready i e)
    have "e < EVENT_MAX" using wait_scan_ready [OF ready(1)] event_for_range by blast
    from drop_waiters_inv [OF inv this, of "ev_signaled_update (\<lambda>_. False)"] ready(2) ok show ?thesis
      by (simp add: events_ok_def)
  next
    case park
    with park_task_inv [OF inv park(1,2,3,4,5) ptr] show ?thesis by (simp add: events_ok_def)
  qed
qed

section \<open>Events as a provider of a destroy callback\<close>

lemma clear_wait_entry_frame:
  "objects (clear_wait_entry slot i s) = objects s" "handles (clear_wait_entry slot i s) = handles s"
  "task_pool (clear_wait_entry slot i s) = task_pool s"
  "task_pool_count (clear_wait_entry slot i s) = task_pool_count s"
  by (cases "event_for (wait_sets s ! slot ! i) s"; simp add: clear_wait_entry_def)+

lemma clear_wait_set_frame:
  "objects (clear_wait_set slot s) = objects s" "handles (clear_wait_set slot s) = handles s"
  "task_pool (clear_wait_set slot s) = task_pool s"
  "task_pool_count (clear_wait_set slot s) = task_pool_count s"
  by (simp_all add: clear_wait_set_def Let_def fold_frame clear_wait_entry_frame)

lemma wake_slot_frame:
  "objects (wake_slot slot r s) = objects s" "handles (wake_slot slot r s) = handles s"
  "task_pool_count (wake_slot slot r s) = task_pool_count s"
  "task_index t (wake_slot slot r s) = task_index t s"
proof -
  show "objects (wake_slot slot r s) = objects s" "handles (wake_slot slot r s) = handles s"
    "task_pool_count (wake_slot slot r s) = task_pool_count s"
    by (simp_all add: wake_slot_def task_state_frame clear_wait_set_frame)
  have "t_state (task_pool (wake_slot slot r s) ! i) = t_state (task_pool s ! i) \<or>
    t_state (task_pool s ! i) = TASK_BLOCKED_EVENT \<and> t_state (task_pool (wake_slot slot r s) ! i) = TASK_RUNNING" for i
    by (cases "slot < length (task_pool s)"; cases "i = slot")
      (auto simp: wake_slot_def task_state_set_def task_upd_def clear_wait_set_frame not_less list_update_beyond)
  then show "task_index t (wake_slot slot r s) = task_index t s"
    by (cases t) (auto simp: task_index_def, (metis task_state.distinct)+)
qed

lemma wake_mask_frame:
  "objects (wake_mask w res s) = objects s" "handles (wake_mask w res s) = handles s"
  "task_pool_count (wake_mask w res s) = task_pool_count s"
  "task_index t (wake_mask w res s) = task_index t s"
  unfolding wake_mask_def by (rule fold_frame; simp add: wake_slot_frame)+

lemma event_destroy_frame:
  "objects (event_destroy i s) = objects s" "handles (event_destroy i s) = handles s"
  "task_index t (event_destroy i s) = task_index t s"
proof -
  have "task_index t (ev_upd e f s) = task_index t s" for e f
    by (rule task_index_cong) simp
  then show "objects (event_destroy i s) = objects s" "handles (event_destroy i s) = handles s"
    "task_index t (event_destroy i s) = task_index t s"
    by (simp_all add: event_destroy_def Let_def wake_mask_frame)
qed

interpretation ev: leaf_destroy event_dispatch
  by unfold_locales (simp_all add: event_dispatch_def event_destroy_frame)

text \<open>Waking tasks neither creates nor destroys an event.\<close>

lemma ev_upd_active:
  "(\<And>st. ev_active (f st) = ev_active st) \<Longrightarrow> map ev_active (events (ev_upd e f s)) = map ev_active (events s)"
  by (cases "e < length (events s)")
    (simp_all add: ev_upd_def map_update list_update_id list_update_beyond, metis list_update_id nth_map)

lemma clear_wait_entry_active: "map ev_active (events (clear_wait_entry slot i s)) = map ev_active (events s)"
  by (cases "event_for (wait_sets s ! slot ! i) s") (simp_all add: clear_wait_entry_def ev_upd_active)

lemma wake_slot_active: "map ev_active (events (wake_slot slot r s)) = map ev_active (events s)"
proof -
  have "map ev_active (events (fold (clear_wait_entry slot) xs s)) = map ev_active (events s)" for xs
    by (rule fold_frame) (rule clear_wait_entry_active)
  then show ?thesis by (simp add: wake_slot_def clear_wait_set_def task_state_frame Let_def)
qed

lemma wake_mask_active: "map ev_active (events (wake_mask w res s)) = map ev_active (events s)"
  unfolding wake_mask_def by (rule fold_frame) (simp add: wake_slot_active)

lemma event_for_wake:
  assumes "length (events s) = EVENT_MAX" "objects s' = objects s" "map ev_active (events s') = map ev_active (events s)"
  shows "event_for p s' = event_for p s"
proof (rule event_for_cong [OF assms(2)])
  fix e assume "e < EVENT_MAX"
  with assms(1,3) show "ev_active (events s' ! e) = ev_active (events s ! e)"
    by (metis length_map nth_map)
qed

text \<open>Destroying an event wakes everything that waited on it and forgets it.\<close>

lemma event_destroy_inv:
  assumes inv: "events_inv {} {} s" and i: "i < KOBJECT_MAX" and oact: "ko_active (objects s ! i)"
    and ty: "ko_type (objects s ! i) = KOBJECT_EVENT"
  shows "events_inv {} {i} (event_destroy i s)"
    and "event_for (Some i) (event_destroy i s) = None"
proof -
  have lens: "lens_ok s" and w: "waits_ok {} s" and own: "owners_ok {} s"
    using inv by (simp_all add: events_inv_def)
  obtain e where e: "event_for (Some i) s = Some e"
    and uniq: "\<And>ob. ob < KOBJECT_MAX \<Longrightarrow> event_for (Some ob) s = Some e \<Longrightarrow> ob = i"
    using own i oact ty unfolding owners_ok_def by blast
  note em = event_for_range [OF e]
  have len: "e < length (events s)" using em lens by (simp add: lens_ok_def)
  let ?w = "ev_waiters (events s ! e)"
  let ?f = "\<lambda>st. st\<lparr>ev_waiters := 0, ev_signaled := False, ev_active := False\<rparr>"
  let ?s1 = "ev_upd e ?f s"
  have dd: "event_destroy i s = wake_mask ?w (\<lambda>_ _. -3) ?s1"
    using e by (auto simp: event_destroy_def event_for_def Let_def split: if_splits)
  note nth = ev_upd_nth [OF len, of ?f]
  have ef: "event_for p ?s1 = (if event_for p s = Some e then None else event_for p s)" for p
    by (cases p) (auto simp: event_for_def Let_def nth split: if_splits)
  have ws: "wset ?s1 t = wset s t" for t by (simp add: wset_def)
  have "waits_ok {t. bit ?w t} ?s1"
    unfolding waits_ok_def ws
  proof (intro conjI allI impI ballI)
    fix t assume t: "t < MAX_TASKS"
    show "wait_counts ?s1 ! t \<le> EVENT_WAIT_MANY_MAX" using waits_okD(1) [OF w t] by simp
    show "t < task_pool_count ?s1" "t_state (task_pool ?s1 ! t) = TASK_BLOCKED_EVENT"
      if "0 < wait_counts ?s1 ! t" using waits_okD(2,3) [OF w t] that by simp_all
    show "\<exists>ob e'. p = Some ob \<and> ob < KOBJECT_MAX \<and> event_for p ?s1 = Some e' \<and> bit (ev_waiters (events ?s1 ! e')) t"
      if tx: "t \<notin> {t. bit ?w t}" and px: "p \<in> set (wset s t)" for p
    proof -
      obtain ob e' where "p = Some ob" "ob < KOBJECT_MAX" "event_for p s = Some e'" "bit (ev_waiters (events s ! e')) t"
        using waits_okD(4) [OF w t _ px] by auto
      with tx show ?thesis by (auto simp: nth ef)
    qed
  next
    fix e' t assume e': "e' < EVENT_MAX" "ev_active (events ?s1 ! e')" and t: "t < MAX_TASKS" "bit (ev_waiters (events ?s1 ! e')) t"
    then have ne: "e' \<noteq> e" by (auto simp: nth)
    with e' t have "ev_active (events s ! e')" "bit (ev_waiters (events s ! e')) t" by (simp_all add: nth)
    with waits_okD(5) [OF w e'(1) _ t(1)] obtain p where "p \<in> set (wset s t)" "event_for p s = Some e'" by auto
    with ne show "Some e' \<in> (\<lambda>p. event_for p ?s1) ` set (wset s t)" by (intro image_eqI [of _ _ p]) (simp_all add: ef)
  next
    fix e' assume "e' < EVENT_MAX" "ev_active (events ?s1 ! e') \<and> ev_signaled (events ?s1 ! e')"
    then show "ev_waiters (events ?s1 ! e') = 0"
      using waits_okD(6) [OF w, of e'] by (auto simp: nth split: if_splits)
  qed
  moreover have "lens_ok ?s1" using lens by (simp add: lens_ok_def)
  moreover have "owners_ok {i} ?s1"
    unfolding owners_ok_def
  proof (intro allI impI)
    fix ob assume ob: "ob < KOBJECT_MAX" "ob \<notin> {i}" "ko_active (objects ?s1 ! ob)" "ko_type (objects ?s1 ! ob) = KOBJECT_EVENT"
    then obtain e' where e': "event_for (Some ob) s = Some e'"
      and u: "\<forall>ob' < KOBJECT_MAX. event_for (Some ob') s = Some e' \<longrightarrow> ob' = ob"
      using own unfolding owners_ok_def by auto
    have "e' \<noteq> e" using uniq [OF ob(1)] e' ob(2) by auto
    with e' u show "\<exists>e. event_for (Some ob) ?s1 = Some e
        \<and> (\<forall>ob' < KOBJECT_MAX. ob' \<notin> {i} \<longrightarrow> event_for (Some ob') ?s1 = Some e \<longrightarrow> ob' = ob)"
      by (intro exI [of _ e']) (simp add: ef)
  qed
  ultimately have i1: "events_inv {t. bit ?w t} {i} ?s1" by (simp add: events_inv_def)
  from wake_mask_inv [OF i1] show "events_inv {} {i} (event_destroy i s)" by (simp add: dd)
  have "event_for (Some i) (event_destroy i s) = event_for (Some i) ?s1"
    unfolding dd using lens by (intro event_for_wake wake_mask_frame wake_mask_active) (simp add: lens_ok_def)
  then show "event_for (Some i) (event_destroy i s) = None" by (simp add: ef e)
qed

lemma obj_upd_event_for:
  assumes "\<And>ob. ko_active (f ob) = ko_active ob" "\<And>ob. ko_type (f ob) = ko_type ob"
    "\<And>ob. ko_value (f ob) = ko_value ob"
  shows "event_for p (obj_upd i f s) = event_for p s"
proof (cases p)
  case (Some j)
  have "ko_active (objects (obj_upd i f s) ! j) = ko_active (objects s ! j)"
    "ko_type (objects (obj_upd i f s) ! j) = ko_type (objects s ! j)"
    "ko_value (objects (obj_upd i f s) ! j) = ko_value (objects s ! j)"
    using assms by (cases "i < length (objects s)"; simp add: obj_upd_def nth_list_update list_update_beyond)+
  with Some show ?thesis by (simp add: event_for_def)
qed (simp add: event_for_def)

lemma lens_ok_obj_upd [simp]: "lens_ok (obj_upd i f s) = lens_ok s"
  by (simp add: lens_ok_def)

lemma owners_ok_mono: "owners_ok {} s \<Longrightarrow> owners_ok Y s"
  unfolding owners_ok_def by blast

lemma obj_upd_fields:
  assumes "\<And>ob. ko_active (f ob) = ko_active ob" "\<And>ob. ko_type (f ob) = ko_type ob"
  shows "ko_active (objects (obj_upd i f s) ! j) = ko_active (objects s ! j)"
    "ko_type (objects (obj_upd i f s) ! j) = ko_type (objects s ! j)"
  using assms by (cases "i < length (objects s)"; simp add: obj_upd_def nth_list_update list_update_beyond)+

lemma obj_upd_events_inv:
  assumes inv: "events_inv X Y s" and "\<And>ob. ko_active (f ob) = ko_active ob" "\<And>ob. ko_type (f ob) = ko_type ob"
    "\<And>ob. ko_value (f ob) = ko_value ob"
  shows "events_inv X Y (obj_upd i f s)"
proof -
  note ef = obj_upd_event_for [of f, OF assms(2,3,4)]
  have "owners_ok Y (obj_upd i f s)"
    using inv unfolding events_inv_def owners_ok_def ef obj_upd_fields [of f, OF assms(2,3)] by blast
  moreover have "waits_ok X s" using inv by (simp add: events_inv_def)
  then have "waits_ok X (obj_upd i f s)" by (rule waits_ok_cong) (simp_all add: ef)
  ultimately show ?thesis using inv by (simp add: events_inv_def)
qed

lemma obj_dead_inv:
  assumes inv: "events_inv {} {i} s" and i: "i < KOBJECT_MAX" and dead: "event_for (Some i) s = None"
  shows "events_inv {} {} (obj_upd i (\<lambda>ob. ob\<lparr>ko_type := KOBJECT_NONE, ko_value := 0, ko_active := False\<rparr>) s)"
    (is "events_inv {} {} ?r")
proof -
  have len: "i < length (objects s)" using inv i by (simp add: events_inv_def lens_ok_def)
  have ef: "event_for p ?r = event_for p s" for p
  proof (cases p)
    case (Some j)
    with dead len show ?thesis
      by (cases "j = i") (simp_all add: event_for_def Let_def)
  qed (simp add: event_for_def)
  have "owners_ok {} ?r" unfolding owners_ok_def
  proof (intro allI impI)
    fix ob assume ob: "ob < KOBJECT_MAX" "ko_active (objects ?r ! ob)" "ko_type (objects ?r ! ob) = KOBJECT_EVENT"
    have ne: "ob \<noteq> i" using ob(2) len by auto
    have "owners_ok {i} s" using inv by (simp add: events_inv_def)
    from owners_okD [OF this ob(1)] ne ob(2,3) obtain e where "event_for (Some ob) s = Some e"
      "\<forall>ob' < KOBJECT_MAX. ob' \<notin> {i} \<longrightarrow> event_for (Some ob') s = Some e \<longrightarrow> ob' = ob" by auto
    with dead show "\<exists>e. event_for (Some ob) ?r = Some e
        \<and> (\<forall>ob' < KOBJECT_MAX. ob' \<notin> {} \<longrightarrow> event_for (Some ob') ?r = Some e \<longrightarrow> ob' = ob)"
      by (intro exI [of _ e]) (auto simp: ef)
  qed
  moreover have "waits_ok {} s" using inv by (simp add: events_inv_def)
  then have "waits_ok {} ?r" by (rule waits_ok_cong) (simp_all add: ef)
  ultimately show ?thesis using inv by (simp add: events_inv_def)
qed

text \<open>Every event object was created with the callback that takes its waiters along.\<close>

definition event_callbacks :: "'a objects_st_scheme \<Rightarrow> bool" where
  "event_callbacks s \<longleftrightarrow> (\<forall>ob < KOBJECT_MAX. ko_active (objects s ! ob) \<longrightarrow>
     ko_type (objects s ! ob) = KOBJECT_EVENT \<longrightarrow> ko_destroy (objects s ! ob) = Some event_destroy_fn)"

lemma event_release_ok:
  assumes ok: "events_ok s" and cb: "event_callbacks s" and i: "i < KOBJECT_MAX"
  shows "events_ok (object_release event_dispatch (Some i) s)"
proof (cases "ko_active (objects s ! i) \<and> ko_references (objects s ! i) \<noteq> 0")
  case False
  with ok show ?thesis by (auto simp: object_release_def Let_def)
next
  case True
  let ?ob = "objects s ! i"
  let ?s1 = "obj_upd i (ko_references_update (\<lambda>r. r - 1)) s"
  let ?s2 = "obj_upd i (ko_destroy_update (\<lambda>_. None)) ?s1"
  let ?s3 = "case ko_destroy ?ob of None \<Rightarrow> ?s2 | Some d \<Rightarrow> event_dispatch d i ?s2"
  have inv: "events_inv {} {} s" using ok by (simp add: events_ok_def)
  have i1: "events_inv {} {} ?s1" by (rule obj_upd_events_inv [OF inv]) simp_all
  have i2: "events_inv {} {} ?s2" by (rule obj_upd_events_inv [OF i1]) simp_all
  have len: "i < length (objects s)" using inv i by (simp add: events_inv_def lens_ok_def)
  have o2: "ko_active (objects ?s2 ! i)" "ko_type (objects ?s2 ! i) = ko_type ?ob" using True len by simp_all
  have "events_inv {} {i} ?s3 \<and> event_for (Some i) ?s3 = None"
  proof (cases "ko_type ?ob = KOBJECT_EVENT")
    case ty: True
    with True cb i have "ko_destroy ?ob = Some event_destroy_fn" by (simp add: event_callbacks_def)
    with event_destroy_inv [OF i2 i o2(1)] ty o2(2) show ?thesis by (simp add: event_dispatch_def)
  next
    case ty: False
    then have "event_destroy i ?s2 = ?s2" using o2 by (simp add: event_destroy_def)
    then have "?s3 = ?s2" by (cases "ko_destroy ?ob") (simp_all add: event_dispatch_def)
    moreover have "events_inv {} {i} ?s2" using i2 owners_ok_mono by (auto simp: events_inv_def)
    moreover have "event_for (Some i) ?s2 = None" using o2 ty by (simp add: event_for_def)
    ultimately show ?thesis by simp
  qed
  then have "events_inv {} {} (obj_upd i (\<lambda>ob. ob\<lparr>ko_type := KOBJECT_NONE, ko_value := 0, ko_active := False\<rparr>) ?s3)"
    using obj_dead_inv [OF _ i] by blast
  with True i1 show ?thesis by (simp add: object_release_def Let_def events_ok_def)
qed

lemma event_create_fail_inv:
  assumes inv: "events_inv {} {} s" and e: "e < EVENT_MAX" and free: "\<not> ev_active (events s ! e)"
    and f: "\<not> ev_active (f (events s ! e))"
  shows "events_inv {} {} (ev_upd e f s)"
proof -
  have lens: "lens_ok s" and w: "waits_ok {} s" and own: "owners_ok {} s"
    using inv by (simp_all add: events_inv_def)
  have len: "e < length (events s)" using lens e by (simp add: lens_ok_def)
  note nth = ev_upd_nth [OF len, of f]
  have ef: "event_for p (ev_upd e f s) = event_for p s" for p
    by (rule event_for_cong) (simp_all add: nth free f)
  have "owners_ok {} (ev_upd e f s)" using own owners_ok_cong [of "ev_upd e f s" s "{}"] ef by simp
  moreover have "waits_ok {} (ev_upd e f s)"
  proof -
    have ws: "wset (ev_upd e f s) t = wset s t" for t by (simp add: wset_def)
    have ne: "event_for p s = Some k \<Longrightarrow> k \<noteq> e" for p k using event_for_active free by blast
    show ?thesis unfolding waits_ok_def ws ef
    proof (intro conjI allI impI ballI)
      fix t assume t: "t < MAX_TASKS"
      show "wait_counts (ev_upd e f s) ! t \<le> EVENT_WAIT_MANY_MAX" using waits_okD(1) [OF w t] by simp
      show "t < task_pool_count (ev_upd e f s)" "t_state (task_pool (ev_upd e f s) ! t) = TASK_BLOCKED_EVENT"
        if "0 < wait_counts (ev_upd e f s) ! t" using waits_okD(2,3) [OF w t] that by simp_all
      show "\<exists>ob k. p = Some ob \<and> ob < KOBJECT_MAX \<and> event_for p s = Some k \<and> bit (ev_waiters (events (ev_upd e f s) ! k)) t"
        if px: "p \<in> set (wset s t)" for p
        using waits_okD(4) [OF w t _ px] ne by (auto simp: nth)
    next
      fix k t assume "k < EVENT_MAX" "ev_active (events (ev_upd e f s) ! k)" "t < MAX_TASKS"
        "bit (ev_waiters (events (ev_upd e f s) ! k)) t"
      then show "Some k \<in> (\<lambda>p. event_for p s) ` set (wset s t)"
        using waits_okD(5) [OF w, of k t] f by (simp add: nth split: if_splits)
    next
      fix k assume "k < EVENT_MAX" "ev_active (events (ev_upd e f s) ! k) \<and> ev_signaled (events (ev_upd e f s) ! k)"
      then show "ev_waiters (events (ev_upd e f s) ! k) = 0"
        using waits_okD(6) [OF w, of k] f by (simp add: nth split: if_splits)
    qed
  qed
  ultimately show ?thesis using lens by (simp add: events_inv_def lens_ok_def)
qed

lemma event_create_new_inv:
  fixes d :: "destroy_fn option" and m :: u32 and g :: bool
  assumes inv: "events_inv {} {} s" and e: "e < EVENT_MAX" and free: "\<not> ev_active (events s ! e)"
    and ob: "ob < KOBJECT_MAX" "\<not> ko_active (objects s ! ob)"
  defines "s2 \<equiv> obj_upd ob (\<lambda>_. \<lparr>ko_type = KOBJECT_EVENT, ko_references = 1, ko_value = of_nat (e + 1),
                          ko_destroy = d, ko_active = True\<rparr>)
      (ev_upd e (\<lambda>_. \<lparr>ev_mode = m, ev_signaled = g, ev_waiters = 0, ev_active = True\<rparr>) s)"
  shows "events_inv {} {} s2" and "event_for (Some ob) s2 = Some e"
proof -
  have lens: "lens_ok s" and w: "waits_ok {} s" and own: "owners_ok {} s"
    using inv by (simp_all add: events_inv_def)
  have len: "e < length (events s)" "ob < length (objects s)" using lens e ob(1) by (simp_all add: lens_ok_def)
  have ev: "events s2 ! k = (if k = e then \<lparr>ev_mode = m, ev_signaled = g, ev_waiters = 0, ev_active = True\<rparr>
      else events s ! k)" for k
    using len(1) by (simp add: s2_def ev_upd_nth)
  have obj: "objects s2 ! j = (if j = ob then \<lparr>ko_type = KOBJECT_EVENT, ko_references = 1,
      ko_value = of_nat (e + 1), ko_destroy = d, ko_active = True\<rparr> else objects s ! j)" for j
    using len(2) by (simp add: s2_def)
  have v: "unat (of_nat (e + 1) :: u64) = e + 1"
    using e by (simp only: unat_of_nat EVENT_MAX_def) (rule mod_less, simp)
  show new: "event_for (Some ob) s2 = Some e"
  proof -
    have "(of_nat (e + 1) :: u64) \<noteq> 0" using v by (metis add_is_0 unsigned_0 zero_neq_one)
    moreover have "\<not> EVENT_MAX < e + 1" using e by simp
    ultimately show ?thesis
      unfolding event_for_def Let_def option.case obj ev by (simp only: v kernel_object.simps event_state.simps
          if_True if_False refl diff_add_inverse2 not_True_eq_False simp_thms)
  qed
  have old: "event_for (Some j) s2 = event_for (Some j) s" if "j < KOBJECT_MAX" "j \<noteq> ob" for j
  proof (cases "ko_active (objects s ! j) \<and> ko_type (objects s ! j) = KOBJECT_EVENT")
    case True
    with owners_okD [OF own that(1)] obtain k where k: "event_for (Some j) s = Some k" by auto
    then have "k \<noteq> e" using event_for_active free by blast
    with k that(2) show ?thesis by (auto simp: event_for_def Let_def obj ev split: if_splits)
  next
    case False
    with that(2) show ?thesis by (auto simp: event_for_def Let_def obj)
  qed
  have noe: "event_for p s \<noteq> Some e" for p using event_for_active free by blast
  have none: "event_for (Some ob) s = None" using ob(2) by (simp add: event_for_def)
  have ws: "wset s2 t = wset s t" for t by (simp add: wset_def s2_def)
  have lnk: "event_for p s2 = event_for p s" if "t < MAX_TASKS" "p \<in> set (wset s t)" for p t
    using waits_okD(4) [OF w that(1) _ that(2)] old none by fastforce
  have "waits_ok {} s2" unfolding waits_ok_def ws
  proof (intro conjI allI impI ballI)
    fix t assume t: "t < MAX_TASKS"
    show "wait_counts s2 ! t \<le> EVENT_WAIT_MANY_MAX" using waits_okD(1) [OF w t] by (simp add: s2_def)
    show "t < task_pool_count s2" "t_state (task_pool s2 ! t) = TASK_BLOCKED_EVENT"
      if "0 < wait_counts s2 ! t" using waits_okD(2,3) [OF w t] that by (simp_all add: s2_def)
    show "\<exists>o' e'. p = Some o' \<and> o' < KOBJECT_MAX \<and> event_for p s2 = Some e' \<and> bit (ev_waiters (events s2 ! e')) t"
      if px: "p \<in> set (wset s t)" for p
    proof -
      obtain o' e' where "p = Some o'" "o' < KOBJECT_MAX" "event_for p s = Some e'" "bit (ev_waiters (events s ! e')) t"
        using waits_okD(4) [OF w t _ px] by auto
      moreover from this(3) have "e' \<noteq> e" using noe by auto
      ultimately show ?thesis using lnk [OF t px] by (simp add: ev)
    qed
  next
    fix e' t assume e': "e' < EVENT_MAX" "ev_active (events s2 ! e')" and t: "t < MAX_TASKS" "bit (ev_waiters (events s2 ! e')) t"
    then have "e' \<noteq> e" by (auto simp: ev)
    with e' t waits_okD(5) [OF w e'(1) _ t(1)] obtain p where "p \<in> set (wset s t)" "event_for p s = Some e'"
      by (auto simp: ev)
    with lnk [OF t(1)] show "Some e' \<in> (\<lambda>p. event_for p s2) ` set (wset s t)" by (metis image_eqI)
  next
    fix e' assume "e' < EVENT_MAX" "ev_active (events s2 ! e') \<and> ev_signaled (events s2 ! e')"
    then show "ev_waiters (events s2 ! e') = 0" using waits_okD(6) [OF w, of e'] by (auto simp: ev split: if_splits)
  qed
  moreover have "owners_ok {} s2" unfolding owners_ok_def
  proof (intro allI impI)
    fix j assume j: "j < KOBJECT_MAX" "ko_active (objects s2 ! j)" "ko_type (objects s2 ! j) = KOBJECT_EVENT"
    show "\<exists>k. event_for (Some j) s2 = Some k
        \<and> (\<forall>j' < KOBJECT_MAX. j' \<notin> {} \<longrightarrow> event_for (Some j') s2 = Some k \<longrightarrow> j' = j)"
    proof (cases "j = ob")
      case True
      have "j' = ob" if "j' < KOBJECT_MAX" "event_for (Some j') s2 = Some e" for j'
        using that old [of j'] noe [of "Some j'"] by fastforce
      with True new show ?thesis by auto
    next
      case False
      with owners_okD [OF own j(1)] j obtain k where k: "event_for (Some j) s = Some k"
        "\<forall>j' < KOBJECT_MAX. event_for (Some j') s = Some k \<longrightarrow> j' = j" by (auto simp: obj)
      have "j' = j" if "j' < KOBJECT_MAX" "event_for (Some j') s2 = Some k" for j'
        using that k old [of j'] new noe [of "Some j"] by (cases "j' = ob") auto
      with k(1) old [OF j(1) False] show ?thesis by auto
    qed
  qed
  ultimately show "events_inv {} {} s2" using lens by (simp add: events_inv_def lens_ok_def s2_def)
qed

lemma event_create_ok:
  assumes ok: "events_ok s" and cb: "event_callbacks s"
  shows "events_ok (snd (event_create mode sig s))" and "event_callbacks (snd (event_create mode sig s))"
proof -
  have inv: "events_inv {} {} s" using ok by (simp add: events_ok_def)
  have len: "length (events s) = EVENT_MAX" "length (objects s) = KOBJECT_MAX"
    using inv by (simp_all add: events_inv_def lens_ok_def)
  have "events_ok (snd (event_create mode sig s)) \<and> event_callbacks (snd (event_create mode sig s))"
  proof (cases "(mode \<noteq> EVENT_AUTO_RESET \<and> mode \<noteq> EVENT_MANUAL_RESET) \<or> first_index (\<lambda>st. \<not> ev_active st) (events s) = None")
    case True
    with ok cb show ?thesis by (auto simp: event_create_def)
  next
    case False
    then obtain e where fe: "first_index (\<lambda>st. \<not> ev_active st) (events s) = Some e" by auto
    have e: "e < EVENT_MAX" "\<not> ev_active (events s ! e)" using first_indexD(1,2) [OF fe] len by simp_all
    let ?n = "\<lambda>_. \<lparr>ev_mode = mode, ev_signaled = sig, ev_waiters = 0, ev_active = True\<rparr>"
    let ?s1 = "ev_upd e ?n s"
    have eq: "event_create mode sig s =
        (case object_create KOBJECT_EVENT (of_nat (e + 1)) (Some event_destroy_fn) ?s1 of
           (None, s2) \<Rightarrow> (None, ev_upd e (ev_active_update (\<lambda>_. False)) s2) | (Some ob, s2) \<Rightarrow> (Some ob, s2))"
      using False fe by (auto simp: event_create_def Let_def)
    show ?thesis
    proof (cases "first_index (\<lambda>ob. \<not> ko_active ob) (objects s)")
      case None
      then have oc: "object_create KOBJECT_EVENT (of_nat (e + 1)) (Some event_destroy_fn) ?s1 = (None, ?s1)"
        by (simp add: object_create_def)
      have "ev_upd e (ev_active_update (\<lambda>_. False)) ?s1 = ev_upd e (\<lambda>st. (?n st)\<lparr>ev_active := False\<rparr>) s"
        using e len by (simp add: ev_upd_def)
      moreover have "events_inv {} {} (ev_upd e (\<lambda>st. (?n st)\<lparr>ev_active := False\<rparr>) s)"
        by (rule event_create_fail_inv [OF inv e]) simp
      moreover have "snd (event_create mode sig s) = ev_upd e (ev_active_update (\<lambda>_. False)) ?s1"
        unfolding eq oc by simp
      ultimately show ?thesis using cb by (simp add: events_ok_def event_callbacks_def)
    next
      case (Some ob)
      have ob: "ob < KOBJECT_MAX" "\<not> ko_active (objects s ! ob)" using first_indexD(1,2) [OF Some] len by simp_all
      let ?o = "\<lambda>_. \<lparr>ko_type = KOBJECT_EVENT, ko_references = 1, ko_value = of_nat (e + 1),
                      ko_destroy = Some event_destroy_fn, ko_active = True\<rparr>"
      have oc: "object_create KOBJECT_EVENT (of_nat (e + 1)) (Some event_destroy_fn) ?s1 = (Some ob, obj_upd ob ?o ?s1)"
        using Some by (simp add: object_create_def KOBJECT_EVENT_def KOBJECT_NONE_def)
      have "events_inv {} {} (obj_upd ob ?o ?s1)" by (rule event_create_new_inv [OF inv e ob])
      moreover have "event_callbacks (obj_upd ob ?o ?s1)"
        using cb ob len by (auto simp: event_callbacks_def obj_upd_def nth_list_update)
      moreover have "snd (event_create mode sig s) = obj_upd ob ?o ?s1" unfolding eq oc by simp
      ultimately show ?thesis by (simp only: events_ok_def)
    qed
  qed
  then show "events_ok (snd (event_create mode sig s))" "event_callbacks (snd (event_create mode sig s))" by auto
qed

lemma event_callbacks_cong: "objects s = objects s' \<Longrightarrow> event_callbacks s = event_callbacks s'"
  by (simp add: event_callbacks_def)

lemma event_release_callbacks:
  assumes "event_callbacks s" and "length (objects s) = KOBJECT_MAX"
  shows "event_callbacks (object_release event_dispatch (Some i) s)"
  using assms
  by (cases "i < KOBJECT_MAX")
    (auto simp: event_callbacks_def object_release_def Let_def obj_upd_def nth_list_update ev.D_objects
      list_update_beyond KOBJECT_EVENT_def KOBJECT_NONE_def split: option.splits)

section \<open>Runs\<close>

text \<open>Every call into the module, with pointers to entries of the object table.\<close>

datatype event_op = Ev_create u32 bool | Ev_wait "nat list" nat u32 bool | Ev_signal nat
  | Ev_reset nat | Ev_tick u32 int | Ev_cancel nat int | Ev_release nat

definition event_step :: "event_op \<Rightarrow> 'a events_st_scheme \<Rightarrow> 'a events_st_scheme" where
  "event_step op s =
     (case op of
        Ev_create mode sig \<Rightarrow> snd (event_create mode sig s)
      | Ev_wait obs slot deadline timed \<Rightarrow>
          if list_all (\<lambda>ob. ob < KOBJECT_MAX) obs
          then snd (snd (event_wait_many (map Some obs) slot deadline timed s)) else s
      | Ev_signal ob \<Rightarrow> snd (event_signal (Some ob) s)
      | Ev_reset ob \<Rightarrow> snd (event_reset (Some ob) s)
      | Ev_tick now r \<Rightarrow> event_tick now r s
      | Ev_cancel slot r \<Rightarrow> event_cancel_task slot r s
      | Ev_release ob \<Rightarrow> if ob < KOBJECT_MAX then object_release event_dispatch (Some ob) s else s)"

lemma event_op_objects:
  "objects (snd (snd (event_wait_many obs slot deadline timed s))) = objects s"
  "objects (snd (event_signal p s)) = objects s" "objects (snd (event_reset p s)) = objects s"
  "objects (event_tick now r s) = objects s" "objects (event_cancel_task slot r s) = objects s"
proof -
  have "objects (park_entry slot x s) = objects s" for x s
    by (cases x; cases "event_for (snd x) s") (simp_all add: park_entry_def)
  then have "objects (fold (park_entry slot) xs s) = objects s" for xs by (rule fold_frame)
  then have "objects (park_task obs slot deadline timed s) = objects s"
    by (simp add: park_task_def Let_def task_state_frame)
  then show "objects (snd (snd (event_wait_many obs slot deadline timed s))) = objects s"
    by (cases rule: event_wait_many_cases [of obs slot deadline timed s]) simp_all
  show "objects (snd (event_signal p s)) = objects s"
    by (auto simp: event_signal_def Let_def wake_mask_frame wake_slot_frame split: option.splits)
  show "objects (snd (event_reset p s)) = objects s"
    by (auto simp: event_reset_def split: option.splits)
  show "objects (event_tick now r s) = objects s"
    unfolding event_tick_def by (rule fold_frame) (simp add: wake_slot_frame)
  show "objects (event_cancel_task slot r s) = objects s"
    by (simp add: event_cancel_task_def wake_slot_frame clear_wait_set_frame)
qed

lemma event_step_ok:
  assumes "events_ok s" and "event_callbacks s"
  shows "events_ok (event_step op s) \<and> event_callbacks (event_step op s)"
proof -
  have cb: "event_callbacks (snd (snd (event_wait_many obs slot deadline timed s)))"
    "event_callbacks (snd (event_signal p s))" "event_callbacks (snd (event_reset p s))"
    "event_callbacks (event_tick now r s)" "event_callbacks (event_cancel_task slot r s)"
    for obs slot deadline timed p now r
    using assms(2) event_callbacks_cong event_op_objects by metis+
  have len: "length (objects s) = KOBJECT_MAX" using assms(1) by (simp add: events_ok_def events_inv_def lens_ok_def)
  show ?thesis
  proof (cases op)
    case (Ev_wait obs slot deadline timed)
    then show ?thesis
      using event_wait_many_ok [OF assms(1), of "map Some obs" slot deadline timed] assms cb(1)
      by (auto simp: event_step_def list_all_iff)
  next
    case (Ev_release ob)
    then show ?thesis
      using event_release_ok [OF assms] event_release_callbacks [OF assms(2) len] assms by (simp add: event_step_def)
  qed (simp_all add: event_step_def cb event_create_ok [OF assms] event_signal_ok [OF assms(1)]
      event_reset_ok [OF assms(1)] event_tick_ok [OF assms(1)] event_cancel_task_ok [OF assms(1)])
qed

lemma event_run_ok:
  "events_ok s \<Longrightarrow> event_callbacks s \<Longrightarrow> events_ok (fold event_step ops s) \<and> event_callbacks (fold event_step ops s)"
  by (induction ops arbitrary: s) (simp_all add: event_step_ok)

lemma event_boot_ok:
  assumes "length (task_pool s) = MAX_TASKS" and "task_pool_count s \<le> MAX_TASKS"
  shows "events_ok (event_init (object_init s)) \<and> event_callbacks (event_init (object_init s))"
  using assms
  by (simp add: events_ok_def events_inv_def lens_ok_def waits_ok_def owners_ok_def event_callbacks_def
      event_init_def object_init_def wset_def)

section \<open>What a wake does to the tasks\<close>

lemma clear_wait_set_result: "task_result (clear_wait_set slot s) = task_result s"
proof -
  have "task_result (clear_wait_entry slot i s) = task_result s" for i and s :: "'a events_st_scheme"
    by (cases "event_for (wait_sets s ! slot ! i) s") (simp_all add: clear_wait_entry_def)
  then have "task_result (fold (clear_wait_entry slot) xs s) = task_result s" for xs by (rule fold_frame)
  then show ?thesis by (simp add: clear_wait_set_def Let_def)
qed

lemma wake_slot_effect:
  assumes inv: "events_inv X Y s" and slot: "slot < MAX_TASKS" and wc: "wait_counts s ! slot \<noteq> 0"
  shows "t_state (task_pool (wake_slot slot r s) ! t) = (if t = slot then TASK_RUNNING else t_state (task_pool s ! t))"
    and "task_result (wake_slot slot r s) t = (if t = slot then Some r else task_result s t)"
    and "wait_counts (wake_slot slot r s) = (wait_counts s)[slot := 0]"
    and "t \<noteq> slot \<Longrightarrow> wait_sets (wake_slot slot r s) ! t = wait_sets s ! t"
    and "wait_timed (wake_slot slot r s) = (wait_timed s)[slot := False]"
    and "wait_deadlines (wake_slot slot r s) = (wait_deadlines s)[slot := 0]"
proof -
  have lens: "lens_ok s" and w: "waits_ok X s" using inv by (simp_all add: events_inv_def)
  note sp = clear_wait_set_spec [OF lens slot waits_okD(1) [OF w slot]]
  have b: "slot < task_pool_count s" "t_state (task_pool s ! slot) = TASK_BLOCKED_EVENT"
    using waits_okD(2,3) [OF w slot wc] .
  have len: "slot < length (task_pool (clear_wait_set slot s))" using lens slot by (simp add: sp(3) lens_ok_def)
  have eq: "wake_slot slot r s = task64_set_result slot r (task_state_set (Some slot) TASK_RUNNING (clear_wait_set slot s))"
    using b by (simp add: wake_slot_def)
  show "t_state (task_pool (wake_slot slot r s) ! t) = (if t = slot then TASK_RUNNING else t_state (task_pool s ! t))"
    by (simp add: eq task_state_set_state [OF len] sp(3))
  show "task_result (wake_slot slot r s) t = (if t = slot then Some r else task_result s t)"
    by (simp add: eq task64_set_result_def task_state_set_def clear_wait_set_result)
  show "wait_counts (wake_slot slot r s) = (wait_counts s)[slot := 0]"
    "t \<noteq> slot \<Longrightarrow> wait_sets (wake_slot slot r s) ! t = wait_sets s ! t"
    "wait_timed (wake_slot slot r s) = (wait_timed s)[slot := False]"
    "wait_deadlines (wake_slot slot r s) = (wait_deadlines s)[slot := 0]"
    by (simp_all add: eq task_state_frame sp(6,7,8,9))
qed

text \<open>The index a waiter is woken with is the place of the event in its own wait set.\<close>

lemma wait_index_correct:
  assumes ok: "events_ok s" and e: "event_for (Some ob) s = Some e" and ob: "ob < KOBJECT_MAX"
    and slot: "slot < MAX_TASKS" and bt: "bit (ev_waiters (events s ! e)) slot"
  shows "\<exists>i < wait_counts s ! slot. wait_index slot (Some ob) s = int i \<and> wait_sets s ! slot ! i = Some ob"
proof -
  have lens: "lens_ok s" and w: "waits_ok {} s" and own: "owners_ok {} s"
    using ok by (simp_all add: events_ok_def events_inv_def)
  obtain q where q: "q \<in> set (wset s slot)" "event_for q s = Some e"
    using waits_okD(5) [OF w event_for_range [OF e] event_for_active [OF e] slot bt] by auto
  obtain ob' where ob': "q = Some ob'" "ob' < KOBJECT_MAX" using waits_okD(4) [OF w slot _ q(1)] by auto
  have "ko_active (objects s ! ob)" "ko_type (objects s ! ob) = KOBJECT_EVENT"
    using e by (auto simp: event_for_def Let_def split: if_splits)
  from owners_okD [OF own ob _ this] e ob' q(2) have "ob' = ob" by auto
  with q(1) ob' have mem: "Some ob \<in> set (wset s slot)" by simp
  then have "first_index (\<lambda>p. p = Some ob) (wset s slot) \<noteq> None" unfolding first_index_None by blast
  then obtain i where i: "first_index (\<lambda>p. p = Some ob) (wset s slot) = Some i" by auto
  note fd = first_indexD(1,2) [OF i]
  from fd have "i < wait_counts s ! slot" "wait_sets s ! slot ! i = Some ob" by (auto simp: wset_def)
  with i slot show ?thesis by (auto simp: wait_index_def wset_def)
qed

lemma wset_count: "p \<in> set (wset s t) \<Longrightarrow> wait_counts s ! t \<noteq> 0"
  by (cases "wait_counts s ! t") (simp_all add: wset_def)

lemma waiter_parked:
  assumes "waits_ok X s" and "event_for p s = Some e" and "t < MAX_TASKS" and "bit (ev_waiters (events s ! e)) t"
  shows "wait_counts s ! t \<noteq> 0"
  using waits_okD(5) [OF assms(1) event_for_range [OF assms(2)] event_for_active [OF assms(2)] assms(3,4)] wset_count
  by blast

lemma event_signal_auto:
  assumes ok: "events_ok s" and e: "event_for (Some ob) s = Some e" and ob: "ob < KOBJECT_MAX"
    and md: "ev_mode (events s ! e) \<noteq> EVENT_MANUAL_RESET" and wt: "ev_waiters (events s ! e) \<noteq> 0"
  obtains slot s' where "slot < MAX_TASKS" "bit (ev_waiters (events s ! e)) slot"
    "\<forall>t < slot. \<not> bit (ev_waiters (events s ! e)) t" "event_signal (Some ob) s = (0, s')"
    "\<forall>t. t_state (task_pool s' ! t) = (if t = slot then TASK_RUNNING else t_state (task_pool s ! t))"
    "\<forall>t. task_result s' t = (if t = slot then Some (wait_index slot (Some ob) s) else task_result s t)"
    "wait_counts s' = (wait_counts s)[slot := 0]" "\<not> ev_signaled (events s ! e)"
proof -
  have inv: "events_inv {} {} s" and w: "waits_ok {} s" using ok by (simp_all add: events_ok_def events_inv_def)
  note em = event_for_range [OF e]
  let ?w = "ev_waiters (events s ! e)"
  have "\<exists>n < 32. bit ?w n"
  proof (rule ccontr)
    assume "\<not> (\<exists>n < 32. bit ?w n)"
    then have "?w = 0" by (intro bit_word_eqI) simp
    with wt show False by simp
  qed
  then have "first_index (\<lambda>slot. ?w AND push_bit slot 1 \<noteq> 0) [0..<MAX_TASKS] \<noteq> None"
    unfolding first_index_None mask_test by (auto simp: MAX_TASKS_def)
  then obtain slot where fi: "first_index (\<lambda>slot. ?w AND push_bit slot 1 \<noteq> 0) [0..<MAX_TASKS] = Some slot" by auto
  note fd = first_indexD [OF fi, unfolded mask_test]
  have slot: "slot < MAX_TASKS" using fd(1) by simp
  have bt: "bit ?w slot" using fd(2) slot by simp
  have low: "\<not> bit ?w t" if "t < slot" for t using fd(3) [OF that] that slot by simp
  let ?f = "ev_waiters_update (\<lambda>w. w AND NOT (push_bit slot 1))"
  let ?s1 = "ev_upd e ?f s"
  have ns: "\<not> ev_signaled (events s ! e)" using waits_okD(6) [OF w em event_for_active [OF e]] wt by auto
  have inv1: "events_inv {t. bit ?w t \<and> \<not> bit (?w AND NOT (push_bit slot 1)) t} {} ?s1"
    using drop_waiters_inv [OF inv em, of ?f] ns by (simp add: bit_clear MAX_TASKS_def)
  have wc: "wait_counts ?s1 ! slot \<noteq> 0" using waiter_parked [OF w e slot bt] by simp
  note eff = wake_slot_effect [OF inv1 slot wc, where r = "wait_index slot (Some ob) s"]
  have "event_signal (Some ob) s = (0, wake_slot slot (wait_index slot (Some ob) s) ?s1)"
    using e md wt fi by (simp add: event_signal_def Let_def)
  with slot bt low eff ns show thesis by (intro that) auto
qed

lemma wake_slot_other:
  assumes inv: "events_inv X Y s" and slot: "slot < MAX_TASKS" and t: "t \<noteq> slot"
  shows "task_pool (wake_slot slot r s) ! t = task_pool s ! t"
    "task_result (wake_slot slot r s) t = task_result s t"
    "wait_counts (wake_slot slot r s) ! t = wait_counts s ! t"
    "wait_timed (wake_slot slot r s) ! t = wait_timed s ! t"
    "wait_deadlines (wake_slot slot r s) ! t = wait_deadlines s ! t"
proof -
  have lens: "lens_ok s" and w: "waits_ok X s" using inv by (simp_all add: events_inv_def)
  note sp = clear_wait_set_spec [OF lens slot waits_okD(1) [OF w slot]]
  show "task_pool (wake_slot slot r s) ! t = task_pool s ! t"
    "task_result (wake_slot slot r s) t = task_result s t"
    "wait_counts (wake_slot slot r s) ! t = wait_counts s ! t"
    "wait_timed (wake_slot slot r s) ! t = wait_timed s ! t"
    "wait_deadlines (wake_slot slot r s) ! t = wait_deadlines s ! t"
    using t by (simp_all add: wake_slot_def task_state_frame sp(3,6,8,9) task_state_set_def
        task64_set_result_def clear_wait_set_result)
qed

text \<open>After a tick no timed wait whose deadline has come is still parked.\<close>

lemma event_tick_expired:
  assumes ok: "events_ok s" and t: "t < task_pool_count s" and td: "wait_timed s ! t"
    and due: "\<not> not_due now (wait_deadlines s ! t)" and wc: "wait_counts s ! t \<noteq> 0"
  shows "t_state (task_pool (event_tick now r s) ! t) = TASK_RUNNING \<and> task_result (event_tick now r s) t = Some r"
proof -
  let ?g = "\<lambda>slot s. if \<not> wait_timed s ! slot \<or> not_due now (wait_deadlines s ! slot) then s
                    else wake_slot slot r s"
  have cnt: "task_pool_count s \<le> MAX_TASKS" using ok by (simp add: events_ok_def events_inv_def lens_ok_def)
  have "n \<le> task_pool_count s \<Longrightarrow> events_inv {} {} (fold ?g [0..<n] s) \<and>
      (if t < n then t_state (task_pool (fold ?g [0..<n] s) ! t) = TASK_RUNNING
                     \<and> task_result (fold ?g [0..<n] s) t = Some r
       else wait_timed (fold ?g [0..<n] s) ! t = wait_timed s ! t
          \<and> wait_deadlines (fold ?g [0..<n] s) ! t = wait_deadlines s ! t
          \<and> wait_counts (fold ?g [0..<n] s) ! t = wait_counts s ! t)" for n
  proof (induction n)
    case 0
    with ok show ?case by (simp add: events_ok_def)
  next
    case (Suc n)
    let ?m = "fold ?g [0..<n] s"
    have n: "n < MAX_TASKS" using Suc.prems cnt by simp
    have inv: "events_inv {} {} ?m" using Suc by simp
    have inv': "events_inv {} {} (wake_slot n r ?m)" using wake_slot_inv [OF inv n] by simp
    show ?case
    proof (cases "t = n")
      case True
      with Suc td due wc have c: "wait_timed ?m ! n" "\<not> not_due now (wait_deadlines ?m ! n)" "wait_counts ?m ! n \<noteq> 0"
        by simp_all
      with True inv' wake_slot_effect(1,2) [OF inv n c(3), of r n] show ?thesis by simp
    next
      case False
      with Suc inv' wake_slot_other [OF inv n False, of r] show ?thesis by (auto simp: less_Suc_eq)
    qed
  qed
  from this [of "task_pool_count s"] t show ?thesis by (simp add: event_tick_def)
qed

section \<open>The rest of the kernel state\<close>

text \<open>No operation of this module touches the state of the components built on it.\<close>

lemma upd_more [simp]:
  "events_st.more (ev_upd e f s) = events_st.more s"
  "events_st.more (obj_upd i g (s :: 'a events_st_scheme)) = events_st.more s"
  "events_st.more (hs_upd t i h (s :: 'a events_st_scheme)) = events_st.more s"
  "events_st.more (task_upd i k (s :: 'a events_st_scheme)) = events_st.more s"
  "events_st.more (task64_set_result i v (s :: 'a events_st_scheme)) = events_st.more s"
  by (cases s; simp add: ev_upd_def obj_upd_def hs_upd_def task_upd_def task64_set_result_def)+

lemma state_set_more [simp]: "events_st.more (task_state_set t st (s :: 'a events_st_scheme)) = events_st.more s"
  by (cases t) (simp_all add: task_state_set_def)

lemma wait_fields_more [simp]:
  "events_st.more (s\<lparr>wait_sets := ws\<rparr>) = events_st.more s"
  "events_st.more (s\<lparr>wait_counts := wc, wait_deadlines := wd, wait_timed := wt\<rparr>) = events_st.more s"
  by (cases s; simp)+

lemma clear_wait_set_more [simp]: "events_st.more (clear_wait_set slot s) = events_st.more s"
proof -
  have "events_st.more (clear_wait_entry slot i s) = events_st.more s" for i and s :: "'a events_st_scheme"
    by (cases "event_for (wait_sets s ! slot ! i) s") (simp_all add: clear_wait_entry_def)
  then have "events_st.more (fold (clear_wait_entry slot) xs s) = events_st.more s" for xs by (rule fold_frame)
  then show ?thesis by (simp add: clear_wait_set_def Let_def)
qed

lemma wake_slot_more [simp]: "events_st.more (wake_slot slot r s) = events_st.more s"
  by (simp add: wake_slot_def)

lemma wake_mask_more [simp]: "events_st.more (wake_mask w res s) = events_st.more s"
  unfolding wake_mask_def by (rule fold_frame) simp

lemma event_ops_more [simp]:
  "events_st.more (snd (event_signal p s)) = events_st.more s"
  "events_st.more (snd (event_reset p s)) = events_st.more s"
  "events_st.more (event_destroy i s) = events_st.more s"
  "events_st.more (event_dispatch d i s) = events_st.more s"
  by (auto simp: event_signal_def event_reset_def event_destroy_def event_dispatch_def Let_def split: option.splits)

lemma event_create_more [simp]: "events_st.more (snd (event_create mode sig s)) = events_st.more s"
  by (auto simp: event_create_def object_create_def Let_def split: option.splits)

lemma event_release_more [simp]:
  "events_st.more (object_release event_dispatch p (s :: 'a events_st_scheme)) = events_st.more s"
  by (auto simp: object_release_def Let_def split: option.splits)

section \<open>Properties\<close>

text \<open>
  C6. No wake-up is lost: from boot, whatever calls are made, a task that waits on an event
  is parked, the event is live and knows the task as a waiter, and it is not signalled; and
  every waiter an event knows is parked with that event in its wait set.
\<close>

theorem event_no_lost_wakeup:
  assumes "length (task_pool s0) = MAX_TASKS" and "task_pool_count s0 \<le> MAX_TASKS"
    and "s = fold event_step ops (event_init (object_init s0))" and t: "t < MAX_TASKS"
  shows "(\<forall>p \<in> set (wset s t). \<exists>ob e. p = Some ob \<and> event_for p s = Some e
            \<and> bit (ev_waiters (events s ! e)) t \<and> \<not> ev_signaled (events s ! e)
            \<and> t_state (task_pool s ! t) = TASK_BLOCKED_EVENT)
       \<and> (\<forall>e < EVENT_MAX. ev_active (events s ! e) \<and> bit (ev_waiters (events s ! e)) t \<longrightarrow>
            (\<exists>p \<in> set (wset s t). event_for p s = Some e))"
proof -
  have "events_ok s"
    unfolding assms(3) using event_run_ok [of "event_init (object_init s0)" ops] event_boot_ok [OF assms(1,2)] by blast
  then have w: "waits_ok {} s" by (simp add: events_ok_def events_inv_def)
  have "\<exists>ob e. p = Some ob \<and> event_for p s = Some e \<and> bit (ev_waiters (events s ! e)) t
      \<and> \<not> ev_signaled (events s ! e) \<and> t_state (task_pool s ! t) = TASK_BLOCKED_EVENT"
    if p: "p \<in> set (wset s t)" for p
  proof -
    obtain ob e where e: "p = Some ob" "event_for p s = Some e" "bit (ev_waiters (events s ! e)) t"
      using waits_okD(4) [OF w t _ p] by blast
    have "ev_waiters (events s ! e) \<noteq> 0" using e(3) by auto
    then have "\<not> ev_signaled (events s ! e)"
      using waits_okD(6) [OF w event_for_range [OF e(2)] event_for_active [OF e(2)]] by blast
    moreover have "wait_counts s ! t \<noteq> 0" using p by (rule wset_count)
    ultimately show ?thesis using e waits_okD(3) [OF w t] by blast
  qed
  moreover have "\<exists>p \<in> set (wset s t). event_for p s = Some e"
    if "e < EVENT_MAX" "ev_active (events s ! e)" "bit (ev_waiters (events s ! e)) t" for e
    using waits_okD(5) [OF w that(1,2) t that(3)] by force
  ultimately show ?thesis by blast
qed

text \<open>
  C16. Signalling an auto-reset event with waiters wakes exactly one task, the one with the
  lowest slot, and hands it the place of the event in its own wait set; every other task
  keeps its state and its result.
\<close>

theorem event_signal_wakes_lowest:
  assumes "events_ok s" and "event_for (Some ob) s = Some e" and "ob < KOBJECT_MAX"
    and "ev_mode (events s ! e) \<noteq> EVENT_MANUAL_RESET" and "ev_waiters (events s ! e) \<noteq> 0"
  shows "\<exists>slot s' i. bit (ev_waiters (events s ! e)) slot \<and> (\<forall>t < slot. \<not> bit (ev_waiters (events s ! e)) t)
    \<and> event_signal (Some ob) s = (0, s')
    \<and> (\<forall>t. t_state (task_pool s' ! t) = (if t = slot then TASK_RUNNING else t_state (task_pool s ! t)))
    \<and> (\<forall>t. task_result s' t = (if t = slot then Some (int i) else task_result s t))
    \<and> i < wait_counts s ! slot \<and> wait_sets s ! slot ! i = Some ob"
proof -
  obtain slot s' where sp: "slot < MAX_TASKS" "bit (ev_waiters (events s ! e)) slot"
    "\<forall>t < slot. \<not> bit (ev_waiters (events s ! e)) t" "event_signal (Some ob) s = (0, s')"
    "\<forall>t. t_state (task_pool s' ! t) = (if t = slot then TASK_RUNNING else t_state (task_pool s ! t))"
    "\<forall>t. task_result s' t = (if t = slot then Some (wait_index slot (Some ob) s) else task_result s t)"
    using event_signal_auto [OF assms] by metis
  obtain i where "i < wait_counts s ! slot" "wait_index slot (Some ob) s = int i" "wait_sets s ! slot ! i = Some ob"
    using wait_index_correct [OF assms(1,2,3) sp(1,2)] by blast
  with sp show ?thesis by metis
qed

text \<open>C17. After a tick no task is still parked whose timed wait has come due: it runs with the timeout result.\<close>

theorem event_tick_wakes_expired:
  assumes "events_ok s" and "t < task_pool_count s" and "wait_timed s ! t"
    and "\<not> not_due now (wait_deadlines s ! t)" and "wait_counts s ! t \<noteq> 0"
  shows "t_state (task_pool (event_tick now r s) ! t) = TASK_RUNNING \<and> task_result (event_tick now r s) t = Some r"
  using assms by (rule event_tick_expired)

section \<open>Witnesses\<close>

definition events_boot :: events_st where
  "events_boot = \<lparr>task_pool = replicate MAX_TASKS zero_task, task_pool_count = 3, task_result = (\<lambda>_. None),
     objects = [], handles = [], events = [], wait_sets = [], wait_counts = [], wait_deadlines = [], wait_timed = []\<rparr>"

definition two_waiters :: events_st where
  "two_waiters = fold event_step [Ev_create 0 False, Ev_create 0 False, Ev_wait [1, 0] 2 7 True, Ev_wait [0] 1 0 False]
     (event_init (object_init events_boot))"

lemma events_boot_shape: "length (task_pool events_boot) = MAX_TASKS" "task_pool_count events_boot \<le> MAX_TASKS"
  by (simp_all add: events_boot_def MAX_TASKS_def)

lemma two_waiters_ok: "events_ok two_waiters"
  unfolding two_waiters_def using event_run_ok event_boot_ok [OF events_boot_shape] by blast

lemma two_waiters_shape:
  "wset two_waiters 2 = [Some 1, Some 0]" "event_for (Some 0) two_waiters = Some 0"
  "ev_mode (events two_waiters ! 0) = 0" "ev_waiters (events two_waiters ! 0) = 6"
  "task_pool_count two_waiters = 3" "wait_timed two_waiters ! 2" "wait_deadlines two_waiters ! 2 = 7"
  "wait_counts two_waiters ! 2 = 2" "fst (event_signal (Some 0) two_waiters) = 0"
  by code_simp+

theorem event_no_lost_wakeup_witness:
  "\<exists>ob e. event_for (Some 1) two_waiters = Some e \<and> Some 1 = Some ob \<and> bit (ev_waiters (events two_waiters ! e)) 2
     \<and> \<not> ev_signaled (events two_waiters ! e) \<and> t_state (task_pool two_waiters ! 2) = TASK_BLOCKED_EVENT"
  using event_no_lost_wakeup [OF events_boot_shape two_waiters_def, of 2]
  by (auto simp: MAX_TASKS_def two_waiters_shape)

theorem event_signal_wakes_lowest_witness:
  "\<exists>slot s'. event_signal (Some 0) two_waiters = (0, s') \<and> t_state (task_pool s' ! slot) = TASK_RUNNING"
proof -
  have "ev_mode (events two_waiters ! 0) \<noteq> EVENT_MANUAL_RESET" "ev_waiters (events two_waiters ! 0) \<noteq> 0"
    by (simp_all add: two_waiters_shape EVENT_MANUAL_RESET_def)
  from event_signal_wakes_lowest [OF two_waiters_ok two_waiters_shape(2) _ this] show ?thesis
    by (auto simp: KOBJECT_MAX_def)
qed

theorem event_tick_wakes_expired_witness:
  "t_state (task_pool (event_tick 9 (-2) two_waiters) ! 2) = TASK_RUNNING"
proof -
  have "\<not> not_due 9 (wait_deadlines two_waiters ! 2)" unfolding two_waiters_shape by code_simp
  then show ?thesis
    using event_tick_wakes_expired [OF two_waiters_ok, of 2 9 "-2"] by (simp add: two_waiters_shape)
qed

end
