(* ===== verification/Bridge.thy ===== *)
theory Bridge
  imports Events
begin

text \<open>
  Endpoints and notification bridges, \<^verbatim>\<open>src/objects/endpoint.c\<close> and \<^verbatim>\<open>src/objects/bridge.c\<close>: an
  endpoint is an object with a notify and a cleanup function, a bridge is the one kind of
  endpoint the kernel creates, a queue of 64 notifications with an auto-reset event. Function
  pointers are the tags \<open>endpoint_fn\<close>; a context pointer is the index of a bridge. The queue
  is a \<open>bounded_fifo\<close>, and the notifications of a bridge are numbered without a gap.
\<close>

section \<open>State\<close>

definition ENDPOINT_MAX :: nat where "ENDPOINT_MAX = 64"
definition BRIDGE_ENDPOINT_MAX :: nat where "BRIDGE_ENDPOINT_MAX = 32"
definition BRIDGE_QUEUE_MAX :: nat where "BRIDGE_QUEUE_MAX = 64"

datatype endpoint_fn = bridge_notify_fn | bridge_cleanup_fn

record endpoint_state =
  en_notify :: "endpoint_fn option"
  en_cleanup :: "endpoint_fn option"
  en_context :: "nat option"
  en_active :: bool

record bridge_notification =
  bn_source :: u32
  bn_sequence :: u32

record bridge_state =
  br_event :: "nat option"
  br_queue :: "bridge_notification list"
  br_head :: nat
  br_count :: nat
  br_sequence :: u32
  br_active :: bool

record bridges_st = events_st +
  endpoints :: "endpoint_state list"
  bridges :: "bridge_state list"

definition br_upd :: "nat \<Rightarrow> (bridge_state \<Rightarrow> bridge_state) \<Rightarrow> 'a bridges_st_scheme \<Rightarrow> 'a bridges_st_scheme" where
  "br_upd b f s = s\<lparr>bridges := (bridges s)[b := f (bridges s ! b)]\<rparr>"

definition en_upd :: "nat \<Rightarrow> (endpoint_state \<Rightarrow> endpoint_state) \<Rightarrow> 'a bridges_st_scheme \<Rightarrow> 'a bridges_st_scheme" where
  "en_upd e f s = s\<lparr>endpoints := (endpoints s)[e := f (endpoints s ! e)]\<rparr>"

section \<open>The notification queue\<close>

definition bridge_enqueue :: "u32 \<Rightarrow> bridge_state \<Rightarrow> bridge_state option" where
  "bridge_enqueue source st =
     (if BRIDGE_QUEUE_MAX \<le> br_count st then None
      else let tail = (br_head st + br_count st) mod BRIDGE_QUEUE_MAX in
           Some (st\<lparr>br_queue := (br_queue st)[tail := \<lparr>bn_source = source, bn_sequence = br_sequence st\<rparr>],
                    br_sequence := br_sequence st + 1, br_count := br_count st + 1\<rparr>))"

definition bridge_dequeue :: "bridge_state \<Rightarrow> (bridge_notification \<times> bridge_state) option" where
  "bridge_dequeue st =
     (if br_count st = 0 then None
      else Some (br_queue st ! br_head st,
                 st\<lparr>br_head := (br_head st + 1) mod BRIDGE_QUEUE_MAX, br_count := br_count st - 1\<rparr>))"

section \<open>Bridges\<close>

definition state_from_context :: "nat option \<Rightarrow> 'a bridges_st_scheme \<Rightarrow> nat option" where
  "state_from_context c s =
     (case c of None \<Rightarrow> None
      | Some b \<Rightarrow> if BRIDGE_ENDPOINT_MAX \<le> b \<or> \<not> br_active (bridges s ! b) then None else Some b)"

definition bridge_notify :: "nat option \<Rightarrow> u32 \<Rightarrow> 'a bridges_st_scheme \<Rightarrow> int \<times> 'a bridges_st_scheme" where
  "bridge_notify c source s =
     (case state_from_context c s of
        None \<Rightarrow> (-1, s)
      | Some b \<Rightarrow>
          (case bridge_enqueue source (bridges s ! b) of
             None \<Rightarrow> (-1, s)
           | Some st \<Rightarrow> event_signal (br_event st) (br_upd b (\<lambda>_. st) s)))"

definition bridge_cleanup :: "nat option \<Rightarrow> 'a bridges_st_scheme \<Rightarrow> 'a bridges_st_scheme" where
  "bridge_cleanup c s =
     (case state_from_context c s of
        None \<Rightarrow> s
      | Some b \<Rightarrow>
          let event = br_event (bridges s ! b);
              s1 = br_upd b (\<lambda>st. st\<lparr>br_event := None, br_head := 0, br_count := 0, br_sequence := 0,
                                     br_active := False\<rparr>) s
          in object_release event_dispatch event s1)"

definition bridge_init :: "'a bridges_st_scheme \<Rightarrow> 'a bridges_st_scheme" where
  "bridge_init s = s\<lparr>bridges := map (\<lambda>st. st\<lparr>br_event := None, br_head := 0, br_count := 0,
     br_sequence := 0, br_active := False\<rparr>) (bridges s)\<rparr>"

section \<open>Endpoints\<close>

definition endpoint_for :: "nat option \<Rightarrow> 'a bridges_st_scheme \<Rightarrow> nat option" where
  "endpoint_for p s =
     (case p of None \<Rightarrow> None
      | Some i \<Rightarrow>
          let ob = objects s ! i in
          if \<not> ko_active ob \<or> ko_type ob \<noteq> KOBJECT_ENDPOINT \<or> ko_value ob = 0
             \<or> ENDPOINT_MAX < unat (ko_value ob) then None
          else let e = unat (ko_value ob) - 1 in
               if en_active (endpoints s ! e) then Some e else None)"

definition endpoint_destroy :: "nat \<Rightarrow> 'a bridges_st_scheme \<Rightarrow> 'a bridges_st_scheme" where
  "endpoint_destroy i s =
     (let ob = objects s ! i in
      if ko_type ob \<noteq> KOBJECT_ENDPOINT \<or> ko_value ob = 0 \<or> ENDPOINT_MAX < unat (ko_value ob) then s
      else let e = unat (ko_value ob) - 1;
               st = endpoints s ! e;
               s1 = (case en_cleanup st of
                       Some bridge_cleanup_fn \<Rightarrow> bridge_cleanup (en_context st) s
                     | _ \<Rightarrow> s)
           in en_upd e (\<lambda>_. \<lparr>en_notify = None, en_cleanup = None, en_context = None, en_active = False\<rparr>) s1)"

definition endpoint_init :: "'a bridges_st_scheme \<Rightarrow> 'a bridges_st_scheme" where
  "endpoint_init s = s\<lparr>endpoints := replicate ENDPOINT_MAX
     \<lparr>en_notify = None, en_cleanup = None, en_context = None, en_active = False\<rparr>\<rparr>"

definition endpoint_create_ex :: "endpoint_fn option \<Rightarrow> nat option \<Rightarrow> endpoint_fn option
    \<Rightarrow> 'a bridges_st_scheme \<Rightarrow> nat option \<times> 'a bridges_st_scheme" where
  "endpoint_create_ex notify c cleanup s =
     (if notify = None then (None, s)
      else case first_index (\<lambda>st. \<not> en_active st) (endpoints s) of
             None \<Rightarrow> (None, s)
           | Some e \<Rightarrow>
               let s1 = en_upd e (\<lambda>_. \<lparr>en_notify = notify, en_cleanup = cleanup, en_context = c,
                                       en_active = True\<rparr>) s
               in (case object_create KOBJECT_ENDPOINT (of_nat (e + 1)) (Some endpoint_destroy_fn) s1 of
                     (None, s2) \<Rightarrow> (None, en_upd e (\<lambda>_. \<lparr>en_notify = None, en_cleanup = None,
                                      en_context = None, en_active = False\<rparr>) s2)
                   | (Some ob, s2) \<Rightarrow> (Some ob, s2)))"

definition endpoint_create :: "endpoint_fn option \<Rightarrow> nat option \<Rightarrow> 'a bridges_st_scheme
    \<Rightarrow> nat option \<times> 'a bridges_st_scheme" where
  "endpoint_create notify c s = endpoint_create_ex notify c None s"

text \<open>A call through the notify pointer; only \<^verbatim>\<open>bridge_notify\<close> is ever installed as one.\<close>

definition endpoint_signal :: "nat option \<Rightarrow> u32 \<Rightarrow> 'a bridges_st_scheme \<Rightarrow> int \<times> 'a bridges_st_scheme" where
  "endpoint_signal p source s =
     (case endpoint_for p s of
        None \<Rightarrow> (-1, s)
      | Some e \<Rightarrow>
          (case en_notify (endpoints s ! e) of
             Some bridge_notify_fn \<Rightarrow> bridge_notify (en_context (endpoints s ! e)) source s
           | _ \<Rightarrow> (-1, s)))"

definition endpoint_context :: "nat option \<Rightarrow> 'a bridges_st_scheme \<Rightarrow> nat option" where
  "endpoint_context p s =
     (case endpoint_for p s of None \<Rightarrow> None | Some e \<Rightarrow> en_context (endpoints s ! e))"

section \<open>Bridge endpoints\<close>

definition bridge_for :: "nat option \<Rightarrow> 'a bridges_st_scheme \<Rightarrow> nat option" where
  "bridge_for p s =
     (case p of None \<Rightarrow> None
      | Some i \<Rightarrow> if ko_type (objects s ! i) \<noteq> KOBJECT_ENDPOINT then None
                  else state_from_context (endpoint_context p s) s)"

definition bridge_endpoint_create :: "'a bridges_st_scheme \<Rightarrow> nat option \<times> 'a bridges_st_scheme" where
  "bridge_endpoint_create s =
     (case first_index (\<lambda>st. \<not> br_active st) (bridges s) of
        None \<Rightarrow> (None, s)
      | Some b \<Rightarrow>
          (case event_create EVENT_AUTO_RESET False s of
             (None, s1) \<Rightarrow> (None, br_upd b (br_event_update (\<lambda>_. None)) s1)
           | (Some ev, s1) \<Rightarrow>
               let s2 = br_upd b (\<lambda>st. st\<lparr>br_event := Some ev, br_head := 0, br_count := 0,
                                          br_sequence := 1, br_active := True\<rparr>) s1
               in (case endpoint_create_ex (Some bridge_notify_fn) (Some b) (Some bridge_cleanup_fn) s2 of
                     (None, s3) \<Rightarrow> (None, bridge_cleanup (Some b) s3)
                   | (Some ob, s3) \<Rightarrow> (Some ob, s3))))"

definition bridge_endpoint_wait :: "nat option \<Rightarrow> nat \<Rightarrow> 'a bridges_st_scheme \<Rightarrow> int \<times> 'a bridges_st_scheme" where
  "bridge_endpoint_wait p slot s =
     (case bridge_for p s of None \<Rightarrow> (-1, s) | Some b \<Rightarrow> event_wait (br_event (bridges s ! b)) slot s)"

definition bridge_endpoint_wait_event :: "nat option \<Rightarrow> 'a bridges_st_scheme \<Rightarrow> nat option" where
  "bridge_endpoint_wait_event p s =
     (case bridge_for p s of None \<Rightarrow> None | Some b \<Rightarrow> br_event (bridges s ! b))"

definition bridge_endpoint_read :: "nat option \<Rightarrow> 'a bridges_st_scheme
    \<Rightarrow> bridge_notification option \<times> 'a bridges_st_scheme" where
  "bridge_endpoint_read p s =
     (case bridge_for p s of
        None \<Rightarrow> (None, s)
      | Some b \<Rightarrow>
          (case bridge_dequeue (bridges s ! b) of
             None \<Rightarrow> (None, s)
           | Some (n, st) \<Rightarrow>
               let s1 = br_upd b (\<lambda>_. st) s
               in (Some n, if br_count st \<noteq> 0 then snd (event_signal (br_event st) s1)
                           else snd (event_reset (br_event st) s1))))"

definition bridge_active_count :: "'a bridges_st_scheme \<Rightarrow> nat" where
  "bridge_active_count s = count_if br_active (bridges s)"

text \<open>The dispatcher with the callbacks of events and endpoints.\<close>

definition bridge_dispatch :: "destroy_fn \<Rightarrow> nat \<Rightarrow> 'a bridges_st_scheme \<Rightarrow> 'a bridges_st_scheme" where
  "bridge_dispatch d i s =
     (case d of event_destroy_fn \<Rightarrow> event_destroy i s
      | endpoint_destroy_fn \<Rightarrow> endpoint_destroy i s
      | _ \<Rightarrow> s)"

section \<open>The queue is a bounded first-in first-out queue\<close>

definition bridge_ok :: "bridge_state \<Rightarrow> bool" where
  "bridge_ok st \<longleftrightarrow> length (br_queue st) = BRIDGE_QUEUE_MAX \<and> br_head st < BRIDGE_QUEUE_MAX
     \<and> br_count st \<le> BRIDGE_QUEUE_MAX"

definition bridge_contents :: "bridge_state \<Rightarrow> bridge_notification list" where
  "bridge_contents st = ring_list (br_queue st) (br_head st) (br_count st)"

lemma bridge_enqueue_spec:
  assumes "bridge_ok st"
  shows "bridge_enqueue source st = None \<longleftrightarrow> BRIDGE_QUEUE_MAX \<le> length (bridge_contents st)"
    and "bridge_enqueue source st = Some st' \<Longrightarrow> bridge_ok st' \<and> br_sequence st' = br_sequence st + 1
      \<and> bridge_contents st' = bridge_contents st @ [\<lparr>bn_source = source, bn_sequence = br_sequence st\<rparr>]"
proof -
  show "bridge_enqueue source st = None \<longleftrightarrow> BRIDGE_QUEUE_MAX \<le> length (bridge_contents st)"
    by (simp add: bridge_enqueue_def bridge_contents_def Let_def)
  assume "bridge_enqueue source st = Some st'"
  then have c: "br_count st < length (br_queue st)"
    and st': "st' = st\<lparr>br_queue := (br_queue st)[(br_head st + br_count st) mod length (br_queue st)
        := \<lparr>bn_source = source, bn_sequence = br_sequence st\<rparr>],
        br_sequence := br_sequence st + 1, br_count := br_count st + 1\<rparr>"
    using assms by (auto simp: bridge_enqueue_def bridge_ok_def Let_def split: if_splits)
  then show "bridge_ok st' \<and> br_sequence st' = br_sequence st + 1
      \<and> bridge_contents st' = bridge_contents st @ [\<lparr>bn_source = source, bn_sequence = br_sequence st\<rparr>]"
    using assms ring_list_put [OF c, of "br_head st"] by (simp add: bridge_ok_def bridge_contents_def)
qed

lemma bridge_dequeue_spec:
  assumes "bridge_ok st"
  shows "bridge_dequeue st = None \<longleftrightarrow> bridge_contents st = []"
    and "bridge_dequeue st = Some (n, st') \<Longrightarrow> bridge_ok st' \<and> br_sequence st' = br_sequence st
      \<and> bridge_contents st = n # bridge_contents st'"
proof -
  show "bridge_dequeue st = None \<longleftrightarrow> bridge_contents st = []"
    by (simp add: bridge_dequeue_def bridge_contents_def)
  assume "bridge_dequeue st = Some (n, st')"
  then have c: "0 < br_count st" and n: "n = br_queue st ! br_head st"
    and st': "st' = st\<lparr>br_head := (br_head st + 1) mod BRIDGE_QUEUE_MAX, br_count := br_count st - 1\<rparr>"
    by (auto simp: bridge_dequeue_def split: if_splits)
  have "(br_head st + 1) mod BRIDGE_QUEUE_MAX < BRIDGE_QUEUE_MAX" by (simp add: BRIDGE_QUEUE_MAX_def)
  then show "bridge_ok st' \<and> br_sequence st' = br_sequence st \<and> bridge_contents st = n # bridge_contents st'"
    using assms ring_list_get [OF c, of "br_head st" "br_queue st"]
    by (auto simp: bridge_ok_def bridge_contents_def st' n)
qed

definition bridge_take :: "bridge_state \<Rightarrow> (u32 \<times> bridge_state) option" where
  "bridge_take st = map_option (\<lambda>(n, st'). (bn_source n, st')) (bridge_dequeue st)"

interpretation bq: bounded_fifo "\<lambda>st. map bn_source (bridge_contents st)" bridge_ok BRIDGE_QUEUE_MAX
  bridge_enqueue bridge_take
proof (unfold_locales, goal_cases)
  case (1 q x)
  then show ?case using bridge_enqueue_spec(1) [of q x] by simp
next
  case (2 q x q')
  then show ?case using bridge_enqueue_spec(2) by blast
next
  case (3 q x q')
  then show ?case using bridge_enqueue_spec(2) [OF 3] by simp
next
  case (4 q)
  then show ?case using bridge_dequeue_spec(1) [of q] by (simp add: bridge_take_def)
next
  case (5 q x q')
  then show ?case using bridge_dequeue_spec(2) by (auto simp: bridge_take_def)
next
  case (6 q x q')
  then show ?case using bridge_dequeue_spec(2) [OF 6(1)] by (auto simp: bridge_take_def)
qed

text \<open>Queued notifications carry consecutive numbers, the last one just below the next to give.\<close>

definition bridge_numbered :: "bridge_state \<Rightarrow> bool" where
  "bridge_numbered st \<longleftrightarrow> map bn_sequence (bridge_contents st)
     = map (\<lambda>k. br_sequence st - of_nat (br_count st) + of_nat k) [0..<br_count st]"

lemma bridge_enqueue_numbered:
  assumes "bridge_ok st" and "bridge_numbered st" and "bridge_enqueue source st = Some st'"
  shows "bridge_numbered st'"
proof -
  have c: "br_count st' = Suc (br_count st)"
    using assms(3) by (auto simp: bridge_enqueue_def Let_def split: if_splits)
  have "br_sequence st + 1 - of_nat (Suc (br_count st)) = br_sequence st - of_nat (br_count st)" by simp
  with bridge_enqueue_spec(2) [OF assms(1,3)] assms(2) c show ?thesis
    by (simp add: bridge_numbered_def)
qed

lemma bridge_dequeue_numbered:
  assumes "bridge_ok st" and "bridge_numbered st" and "bridge_dequeue st = Some (n, st')"
  shows "bridge_numbered st'" and "bn_sequence n = br_sequence st - of_nat (br_count st)"
proof -
  have c: "br_count st = Suc (br_count st')"
    using assms(3) by (auto simp: bridge_dequeue_def split: if_splits)
  have up: "[0..<Suc (br_count st')] = 0 # map Suc [0..<br_count st']"
    by (metis map_Suc_upt upt_conv_Cons zero_less_Suc)
  have seq: "br_sequence st' = br_sequence st" and cont: "bridge_contents st = n # bridge_contents st'"
    using bridge_dequeue_spec(2) [OF assms(1,3)] by simp_all
  from assms(2) have eq: "bn_sequence n # map bn_sequence (bridge_contents st')
      = map (\<lambda>k. br_sequence st - of_nat (br_count st) + of_nat k) (0 # map Suc [0..<br_count st'])"
    unfolding bridge_numbered_def cont c up by simp
  then show "bn_sequence n = br_sequence st - of_nat (br_count st)" by simp
  have "br_sequence st - of_nat (Suc (br_count st')) + of_nat (Suc k) = br_sequence st - of_nat (br_count st') + of_nat k"
    for k by (simp add: algebra_simps)
  with eq show "bridge_numbered st'" unfolding bridge_numbered_def seq c by (simp add: comp_def)
qed

section \<open>Frames\<close>

lemma bridges_of_more: "events_st.more s = events_st.more s' \<Longrightarrow>
    bridges s = bridges s' \<and> endpoints s = endpoints s'"
  by (cases s; cases s') simp

lemma event_ops_bridges [simp]:
  "bridges (snd (event_signal p s)) = bridges s" "endpoints (snd (event_signal p s)) = endpoints s"
  "bridges (snd (event_reset p s)) = bridges s" "endpoints (snd (event_reset p s)) = endpoints s"
  "bridges (snd (event_create m g s)) = bridges s" "endpoints (snd (event_create m g s)) = endpoints s"
  "bridges (object_release event_dispatch q s) = bridges s"
  "endpoints (object_release event_dispatch q s) = endpoints s"
  using bridges_of_more [OF event_ops_more(1)] bridges_of_more [OF event_ops_more(2)]
    bridges_of_more [OF event_create_more] bridges_of_more [OF event_release_more] by blast+

lemma br_upd_simps [simp, table_simps]:
  "objects (br_upd b f s) = objects s" "handles (br_upd b f s) = handles s" "task_pool (br_upd b f s) = task_pool s"
  "events (br_upd b f s) = events s" "endpoints (br_upd b f s) = endpoints s"
  "bridges (br_upd b f s) = (bridges s)[b := f (bridges s ! b)]"
  "objects (en_upd e g s) = objects s" "handles (en_upd e g s) = handles s" "task_pool (en_upd e g s) = task_pool s"
  "events (en_upd e g s) = events s" "bridges (en_upd e g s) = bridges s"
  by (simp_all add: br_upd_def en_upd_def)

lemma endpoint_for_cong:
  "objects s = objects s' \<Longrightarrow> endpoints s = endpoints s' \<Longrightarrow> endpoint_for p s = endpoint_for p s'"
  by (cases p) (simp_all add: endpoint_for_def Let_def)

lemma bridge_cleanup_frame:
  "handles (bridge_cleanup c s) = handles s" "task_index t (bridge_cleanup c s) = task_index t s"
proof -
  have ti: "task_index t (br_upd b f s) = task_index t s" for b f by (rule task_index_cong) simp
  show "handles (bridge_cleanup c s) = handles s" "task_index t (bridge_cleanup c s) = task_index t s"
    by (auto simp: bridge_cleanup_def Let_def ev.release_handles ev.release_task_index ti split: option.splits)
qed

lemma endpoint_destroy_frame:
  "handles (endpoint_destroy i s) = handles s" "task_index t (endpoint_destroy i s) = task_index t s"
proof -
  have ti: "task_index t (en_upd e f s) = task_index t s" for e f and s :: "'a bridges_st_scheme"
    by (rule task_index_cong) simp
  show "handles (endpoint_destroy i s) = handles s" "task_index t (endpoint_destroy i s) = task_index t s"
    by (auto simp: endpoint_destroy_def Let_def ti bridge_cleanup_frame split: option.splits endpoint_fn.splits)
qed

interpretation bd: destroy_contract bridge_dispatch
  by unfold_locales
    (auto simp: bridge_dispatch_def event_destroy_frame endpoint_destroy_frame split: destroy_fn.splits)

section \<open>Notifications through an endpoint\<close>

text \<open>
  A run of signals and reads on one endpoint: what the queue accepted, what was read, and the
  state at the end.
\<close>

definition bridge_step :: "nat option \<Rightarrow> u32 fifo_op \<Rightarrow> 'a bridges_st_scheme
    \<Rightarrow> u32 list \<times> u32 list \<times> 'a bridges_st_scheme" where
  "bridge_step p op s =
     (case op of
        Put source \<Rightarrow>
          (case bridge_for p s of
             None \<Rightarrow> ([], [], s)
           | Some b \<Rightarrow> (if br_count (bridges s ! b) < BRIDGE_QUEUE_MAX then [source] else [], [],
                        snd (endpoint_signal p source s)))
      | Get \<Rightarrow> (case bridge_endpoint_read p s of
                  (None, s') \<Rightarrow> ([], [], s') | (Some n, s') \<Rightarrow> ([], [bn_source n], s')))"

fun bridge_run :: "nat option \<Rightarrow> u32 fifo_op list \<Rightarrow> 'a bridges_st_scheme
    \<Rightarrow> u32 list \<times> u32 list \<times> 'a bridges_st_scheme" where
  "bridge_run p [] s = ([], [], s)"
| "bridge_run p (op # ops) s =
     (case bridge_step p op s of (i, d, s') \<Rightarrow>
      case bridge_run p ops s' of (ins, outs, r) \<Rightarrow> (i @ ins, d @ outs, r))"

text \<open>An endpoint object that stands for bridge \<open>b\<close>.\<close>

definition bridge_object :: "nat option \<Rightarrow> nat \<Rightarrow> 'a bridges_st_scheme \<Rightarrow> bool" where
  "bridge_object p b s \<longleftrightarrow> (\<exists>e. endpoint_for p s = Some e \<and> en_notify (endpoints s ! e) = Some bridge_notify_fn
     \<and> en_context (endpoints s ! e) = Some b) \<and> b < BRIDGE_ENDPOINT_MAX \<and> b < length (bridges s)
     \<and> br_active (bridges s ! b)"

lemma bridge_object_for:
  assumes "bridge_object p b s"
  shows "bridge_for p s = Some b" and "endpoint_signal p source s = bridge_notify (Some b) source s"
proof -
  obtain e where e: "endpoint_for p s = Some e" "en_notify (endpoints s ! e) = Some bridge_notify_fn"
    "en_context (endpoints s ! e) = Some b" and b: "b < BRIDGE_ENDPOINT_MAX" "br_active (bridges s ! b)"
    using assms by (auto simp: bridge_object_def)
  obtain i where i: "p = Some i" using e(1) by (cases p) (auto simp: endpoint_for_def)
  have "ko_type (objects s ! i) = KOBJECT_ENDPOINT"
    using e(1) by (auto simp: i endpoint_for_def Let_def split: if_splits)
  with e b show "bridge_for p s = Some b"
    by (simp add: bridge_for_def i state_from_context_def endpoint_context_def)
  show "endpoint_signal p source s = bridge_notify (Some b) source s"
    using e by (simp add: endpoint_signal_def)
qed

lemma bridge_enqueue_active: "bridge_enqueue x st = Some st' \<Longrightarrow> br_active st' = br_active st"
  by (auto simp: bridge_enqueue_def Let_def split: if_splits)

lemma bridge_dequeue_active: "bridge_dequeue st = Some (n, st') \<Longrightarrow> br_active st' = br_active st"
  by (auto simp: bridge_dequeue_def split: if_splits)

lemma bridge_object_keep:
  assumes ob: "bridge_object p b s" and "objects s' = objects s" "endpoints s' = endpoints s"
    "bridges s' = (bridges s)[b := st]" "br_active st"
  shows "bridge_object p b s'"
  using ob assms(2-5) endpoint_for_cong [OF assms(2,3), of p] by (simp add: bridge_object_def)

lemma bridge_step_refines:
  assumes ob: "bridge_object p b s" and st: "bridge_step p op s = (i, d, s')"
  shows "fifo_step bridge_enqueue bridge_take op (bridges s ! b) = (i, d, bridges s' ! b) \<and> bridge_object p b s'"
proof -
  note bf = bridge_object_for [OF ob]
  have b: "b < length (bridges s)" "b < BRIDGE_ENDPOINT_MAX" "br_active (bridges s ! b)"
    using ob by (auto simp: bridge_object_def)
  show ?thesis
  proof (cases op)
    case (Put source)
    show ?thesis
    proof (cases "bridge_enqueue source (bridges s ! b)")
      case None
      with Put st bf b have "s' = s" "i = []" "d = []"
        by (auto simp: bridge_step_def bridge_notify_def state_from_context_def bridge_enqueue_def Let_def split: if_splits)
      with None Put ob show ?thesis by (simp add: fifo_step_def)
    next
      case (Some q)
      have room: "br_count (bridges s ! b) < BRIDGE_QUEUE_MAX"
        using Some by (auto simp: bridge_enqueue_def split: if_splits)
      have "s' = snd (event_signal (br_event q) (br_upd b (\<lambda>_. q) s))" "i = [source]" "d = []"
        using Put st Some room b by (auto simp: bridge_step_def bf bridge_notify_def state_from_context_def)
      with Some Put b bridge_object_keep [OF ob, of s' q] bridge_enqueue_active [OF Some] show ?thesis
        by (simp add: fifo_step_def event_op_objects)
    qed
  next
    case Get
    show ?thesis
    proof (cases "bridge_dequeue (bridges s ! b)")
      case None
      with Get st bf have "s' = s" "i = []" "d = []"
        by (auto simp: bridge_step_def bridge_endpoint_read_def)
      with None Get ob show ?thesis by (simp add: fifo_step_def bridge_take_def)
    next
      case (Some x)
      obtain n q where x: "x = (n, q)" by fastforce
      have "i = []" "d = [bn_source n]" and s': "s' = (if br_count q \<noteq> 0
          then snd (event_signal (br_event q) (br_upd b (\<lambda>_. q) s)) else snd (event_reset (br_event q) (br_upd b (\<lambda>_. q) s)))"
        using Get st Some x bf by (auto simp: bridge_step_def bridge_endpoint_read_def Let_def)
      moreover have "bridges s' = (bridges s)[b := q]" "objects s' = objects s" "endpoints s' = endpoints s"
        by (simp_all add: s' event_op_objects)
      ultimately show ?thesis
        using Some x Get b bridge_object_keep [OF ob, of s' q] bridge_dequeue_active [of "bridges s ! b" n q]
        by (simp add: fifo_step_def bridge_take_def)
    qed
  qed
qed

text \<open>The kernel's bridge refines the abstract queue, operation by operation.\<close>

lemma bridge_run_refines:
  "bridge_object p b s \<Longrightarrow> bridge_run p ops s = (ins, outs, r) \<Longrightarrow>
     fifo_run bridge_enqueue bridge_take ops (bridges s ! b) = (ins, outs, bridges r ! b) \<and> bridge_object p b r"
proof (induction ops arbitrary: s ins outs r)
  case Nil
  then show ?case by simp
next
  case (Cons op ops)
  obtain i d s' where st: "bridge_step p op s = (i, d, s')" by (metis prod_cases3)
  obtain ins' outs' r' where rn: "bridge_run p ops s' = (ins', outs', r')" by (metis prod_cases3)
  have "r' = r" "ins = i @ ins'" "outs = d @ outs'" using Cons.prems(2) st rn by simp_all
  with Cons.IH [OF _ rn] bridge_step_refines [OF Cons.prems(1) st] show ?case by auto
qed

section \<open>Properties\<close>

text \<open>
  C20. Notifications through a bridge endpoint are neither lost, duplicated nor reordered:
  whatever signals and reads are made, the queue before followed by the accepted signals is
  what was read followed by the queue after, and the queue never holds more than its 64 places.
\<close>

theorem bridge_delivers_in_order:
  assumes "bridge_object p b s" and "bridge_ok (bridges s ! b)" and "bridge_run p ops s = (ins, outs, r)"
  shows "map bn_source (bridge_contents (bridges s ! b)) @ ins = outs @ map bn_source (bridge_contents (bridges r ! b))
    \<and> length (bridge_contents (bridges r ! b)) \<le> BRIDGE_QUEUE_MAX"
proof -
  have run: "fifo_run bridge_enqueue bridge_take ops (bridges s ! b) = (ins, outs, bridges r ! b)"
    using bridge_run_refines [OF assms(1,3)] by blast
  have "length (map bn_source (bridge_contents (bridges s ! b))) \<le> BRIDGE_QUEUE_MAX"
    using assms(2) by (simp add: bridge_contents_def bridge_ok_def)
  from bq.run_order [OF assms(2) run] bq.run_bounded [OF assms(2) this run] show ?thesis by simp
qed

text \<open>
  A reader can tell that it missed nothing: on a bridge whose queue is numbered, a signal
  keeps it numbered, and two reads in a row give numbers that differ by one.
\<close>

theorem bridge_numbers_consecutive:
  assumes "bridge_ok st" and "bridge_numbered st"
  shows "(\<forall>source st'. bridge_enqueue source st = Some st' \<longrightarrow> bridge_numbered st')
    \<and> (\<forall>n m st' st''. bridge_dequeue st = Some (n, st') \<and> bridge_dequeue st' = Some (m, st'')
         \<longrightarrow> bn_sequence m = bn_sequence n + 1)"
proof (intro conjI allI impI)
  fix source st' assume "bridge_enqueue source st = Some st'"
  then show "bridge_numbered st'" by (rule bridge_enqueue_numbered [OF assms])
next
  fix n m st' st'' assume d: "bridge_dequeue st = Some (n, st') \<and> bridge_dequeue st' = Some (m, st'')"
  have ok': "bridge_ok st'" and seq: "br_sequence st' = br_sequence st"
    using bridge_dequeue_spec(2) [OF assms(1)] d by blast+
  note n1 = bridge_dequeue_numbered [OF assms, of n st']
  have "bn_sequence m = br_sequence st' - of_nat (br_count st')"
    using bridge_dequeue_numbered(2) [OF ok'] n1(1) d by blast
  moreover have "bn_sequence n = br_sequence st - of_nat (br_count st)" using n1(2) d by blast
  moreover have "br_count st = Suc (br_count st')" using d by (auto simp: bridge_dequeue_def split: if_splits)
  ultimately show "bn_sequence m = bn_sequence n + 1" using seq by simp
qed

section \<open>Witnesses\<close>

definition bridge_boot :: bridges_st where
  "bridge_boot = snd (bridge_endpoint_create (bridge_init (endpoint_init
     (event_init (object_init \<lparr>task_pool = replicate MAX_TASKS zero_task, task_pool_count = 3,
       task_result = (\<lambda>_. None), objects = [], handles = [], events = [], wait_sets = [], wait_counts = [],
       wait_deadlines = [], wait_timed = [], endpoints = [],
       bridges = replicate BRIDGE_ENDPOINT_MAX \<lparr>br_event = None,
         br_queue = replicate BRIDGE_QUEUE_MAX \<lparr>bn_source = 0, bn_sequence = 0\<rparr>,
         br_head = 0, br_count = 0, br_sequence = 0, br_active = False\<rparr>\<rparr>)))))"

lemma bridge_boot_shape:
  "endpoint_for (Some 1) bridge_boot = Some 0" "en_notify (endpoints bridge_boot ! 0) = Some bridge_notify_fn"
  "en_context (endpoints bridge_boot ! 0) = Some 0" "bridges bridge_boot \<noteq> []"
  "br_active (bridges bridge_boot ! 0)" "bridge_ok (bridges bridge_boot ! 0)"
  "bridge_contents (bridges bridge_boot ! 0) = []"
  by code_simp+

theorem bridge_delivers_in_order_witness:
  "fst (snd (bridge_run (Some 1) [Put 7, Put 9, Get, Get] bridge_boot)) = [7, 9]"
proof -
  obtain ins outs r where run: "bridge_run (Some 1) [Put 7, Put 9, Get, Get] bridge_boot = (ins, outs, r)"
    by (metis prod_cases3)
  have ins: "ins = [7, 9]" and rest: "br_count (bridges r ! 0) = 0"
  proof -
    have "fst (bridge_run (Some 1) [Put 7, Put 9, Get, Get] bridge_boot) = [7, 9]"
      "br_count (bridges (snd (snd (bridge_run (Some 1) [Put 7, Put 9, Get, Get] bridge_boot))) ! 0) = 0"
      by code_simp+
    then show "ins = [7, 9]" "br_count (bridges r ! 0) = 0" using run by simp_all
  qed
  have "bridge_contents (bridges r ! 0) = []" using rest by (simp add: bridge_contents_def)
  moreover have "bridge_object (Some 1) 0 bridge_boot"
    by (simp add: bridge_object_def bridge_boot_shape BRIDGE_ENDPOINT_MAX_def del: One_nat_def)
  from bridge_delivers_in_order [OF this bridge_boot_shape(6) run] calculation(1) have "ins = outs"
    by (simp add: bridge_boot_shape)
  with run ins show ?thesis by simp
qed

theorem bridge_numbers_consecutive_witness:
  "bridge_numbered (the (bridge_enqueue 7 (bridges bridge_boot ! 0)))"
proof -
  have n: "bridge_numbered (bridges bridge_boot ! 0)" by code_simp
  have e: "bridge_enqueue 7 (bridges bridge_boot ! 0) = Some (the (bridge_enqueue 7 (bridges bridge_boot ! 0)))"
    by code_simp
  show ?thesis using bridge_numbers_consecutive [OF bridge_boot_shape(6) n] e by blast
qed

end
