(* ===== verification/Completions.thy ===== *)
theory Completions
  imports Bridge
begin

text \<open>
  Completion queues, \<^verbatim>\<open>src/objects/completion.c\<close>: 32 request slots per queue with
  generation-tagged 64-bit ids, finished, cancelled or timed out once and collected once by
  a poll. The request table of a queue is a \<open>gen_table\<close>; the kernel operations wrap it with
  the queue's event.
\<close>

section \<open>State\<close>

definition COMPLETION_MAX :: nat where "COMPLETION_MAX = 32"
definition COMPLETION_REQUEST_MAX :: nat where "COMPLETION_REQUEST_MAX = 32"

datatype request_state = COMPLETION_FREE | COMPLETION_PENDING | COMPLETION_DONE | COMPLETION_CANCELED
  | COMPLETION_TIMED_OUT

record completion_request =
  cr_generation :: u32
  cr_state :: request_state
  cr_deadline :: u32
  cr_timed :: bool
  cr_status :: int
  cr_transferred :: u32

record completion_state =
  cs_event :: "nat option"
  cs_requests :: "completion_request list"
  cs_next_slot :: nat
  cs_active :: bool

record completion_result =
  res_id :: u64
  res_status :: int
  res_transferred :: u32
  res_state :: request_state

record completions_st = bridges_st +
  completions :: "completion_state list"

definition cs_upd :: "nat \<Rightarrow> (completion_state \<Rightarrow> completion_state)
    \<Rightarrow> 'a completions_st_scheme \<Rightarrow> 'a completions_st_scheme" where
  "cs_upd c f s = s\<lparr>completions := (completions s)[c := f (completions s ! c)]\<rparr>"

definition req_upd :: "nat \<Rightarrow> (completion_request \<Rightarrow> completion_request) \<Rightarrow> completion_state \<Rightarrow> completion_state" where
  "req_upd i f st = st\<lparr>cs_requests := (cs_requests st)[i := f (cs_requests st ! i)]\<rparr>"

section \<open>The request table of one queue\<close>

definition request_id :: "completion_request \<Rightarrow> nat \<Rightarrow> u64" where
  "request_id request slot = push_bit 32 (ucast (cr_generation request)) OR of_nat (slot + 1)"

definition request_for :: "completion_state \<Rightarrow> u64 \<Rightarrow> nat option" where
  "request_for st rid =
     (let low = unat (ucast rid :: u32); generation = (ucast (drop_bit 32 rid) :: u32) in
      if low = 0 \<or> COMPLETION_REQUEST_MAX < low \<or> generation = 0 then None
      else let request = cs_requests st ! (low - 1) in
           if cr_state request = COMPLETION_FREE \<or> cr_generation request \<noteq> generation then None
           else Some (low - 1))"

text \<open>The search for a free slot, from the hint on and around.\<close>

definition slot_order :: "completion_state \<Rightarrow> nat list" where
  "slot_order st = map (\<lambda>offset. (cs_next_slot st + offset) mod COMPLETION_REQUEST_MAX) [0..<COMPLETION_REQUEST_MAX]"

definition begin_request :: "u32 \<Rightarrow> bool \<Rightarrow> completion_state \<Rightarrow> (u64 \<times> completion_state) option" where
  "begin_request deadline timed st =
     (case find (\<lambda>slot. cr_state (cs_requests st ! slot) = COMPLETION_FREE) (slot_order st) of
        None \<Rightarrow> None
      | Some slot \<Rightarrow>
          let st' = (req_upd slot (\<lambda>r. r\<lparr>cr_state := COMPLETION_PENDING, cr_deadline := deadline,
                       cr_timed := timed, cr_status := 0, cr_transferred := 0\<rparr>) st)
                    \<lparr>cs_next_slot := (slot + 1) mod COMPLETION_REQUEST_MAX\<rparr>
          in Some (request_id (cs_requests st' ! slot) slot, st'))"

definition settle_request :: "u64 \<Rightarrow> request_state \<Rightarrow> int \<Rightarrow> u32 \<Rightarrow> completion_state \<Rightarrow> completion_state option" where
  "settle_request rid new_state status transferred st =
     (case request_for st rid of
        None \<Rightarrow> None
      | Some slot \<Rightarrow>
          if cr_state (cs_requests st ! slot) \<noteq> COMPLETION_PENDING then None
          else Some (req_upd slot (\<lambda>r. r\<lparr>cr_state := new_state, cr_deadline := 0, cr_timed := False,
                       cr_status := status, cr_transferred := transferred\<rparr>) st))"

definition free_request :: "completion_request \<Rightarrow> completion_request" where
  "free_request r = r\<lparr>cr_state := COMPLETION_FREE, cr_deadline := 0, cr_timed := False, cr_status := 0,
     cr_transferred := 0, cr_generation := bump_gen (cr_generation r)\<rparr>"

definition collect_request :: "u64 \<Rightarrow> completion_state \<Rightarrow> (completion_result \<times> completion_state) option" where
  "collect_request rid st =
     (case request_for st rid of
        None \<Rightarrow> None
      | Some slot \<Rightarrow>
          let r = cs_requests st ! slot in
          if cr_state r = COMPLETION_PENDING then None
          else Some (\<lparr>res_id = rid, res_status = cr_status r, res_transferred = cr_transferred r,
                      res_state = cr_state r\<rparr>,
                     (req_upd slot free_request st)
                       \<lparr>cs_next_slot := (if slot < cs_next_slot st then slot else cs_next_slot st)\<rparr>))"

definition request_overdue :: "u32 \<Rightarrow> completion_request \<Rightarrow> bool" where
  "request_overdue now r \<longleftrightarrow> cr_state r = COMPLETION_PENDING \<and> cr_timed r \<and> \<not> not_due now (cr_deadline r)"

section \<open>Kernel operations\<close>

definition completion_for :: "nat option \<Rightarrow> 'a completions_st_scheme \<Rightarrow> nat option" where
  "completion_for p s =
     (case p of None \<Rightarrow> None
      | Some i \<Rightarrow>
          let ob = objects s ! i in
          if \<not> ko_active ob \<or> ko_type ob \<noteq> KOBJECT_COMPLETION \<or> ko_value ob = 0
             \<or> COMPLETION_MAX < unat (ko_value ob) then None
          else let c = unat (ko_value ob) - 1 in
               if cs_active (completions s ! c) then Some c else None)"

definition completion_destroy :: "nat \<Rightarrow> 'a completions_st_scheme \<Rightarrow> 'a completions_st_scheme" where
  "completion_destroy i s =
     (let ob = objects s ! i in
      if ko_value ob = 0 \<or> COMPLETION_MAX < unat (ko_value ob) then s
      else let c = unat (ko_value ob) - 1 in
           if \<not> cs_active (completions s ! c) then s
           else let s1 = object_release bridge_dispatch (cs_event (completions s ! c)) s
                in cs_upd c (\<lambda>st. st\<lparr>cs_event := None, cs_requests := map free_request (cs_requests st),
                     cs_next_slot := 0, cs_active := False\<rparr>) s1)"

definition completion_init :: "'a completions_st_scheme \<Rightarrow> 'a completions_st_scheme" where
  "completion_init s = s\<lparr>completions := replicate COMPLETION_MAX
     \<lparr>cs_event = None, cs_requests = replicate COMPLETION_REQUEST_MAX
        \<lparr>cr_generation = 1, cr_state = COMPLETION_FREE, cr_deadline = 0, cr_timed = False, cr_status = 0,
         cr_transferred = 0\<rparr>, cs_next_slot = 0, cs_active = False\<rparr>\<rparr>"

definition completion_create :: "'a completions_st_scheme \<Rightarrow> nat option \<times> 'a completions_st_scheme" where
  "completion_create s =
     (case first_index (\<lambda>st. \<not> cs_active st) (completions s) of
        None \<Rightarrow> (None, s)
      | Some c \<Rightarrow>
          (case event_create EVENT_AUTO_RESET False s of
             (None, s1) \<Rightarrow> (None, cs_upd c (cs_event_update (\<lambda>_. None)) s1)
           | (Some ev, s1) \<Rightarrow>
               let s2 = cs_upd c (\<lambda>st. st\<lparr>cs_event := Some ev, cs_next_slot := 0, cs_active := True\<rparr>) s1
               in (case object_create KOBJECT_COMPLETION (of_nat (c + 1)) (Some completion_destroy_fn) s2 of
                     (None, s3) \<Rightarrow>
                       (None, cs_upd c (\<lambda>st. st\<lparr>cs_event := None, cs_active := False\<rparr>)
                                (object_release bridge_dispatch (Some ev) s3))
                   | (Some ob, s3) \<Rightarrow> (Some ob, s3))))"

text \<open>The id 0 is the failure.\<close>

definition completion_request_begin :: "nat option \<Rightarrow> u32 \<Rightarrow> bool \<Rightarrow> 'a completions_st_scheme
    \<Rightarrow> u64 \<times> 'a completions_st_scheme" where
  "completion_request_begin p deadline timed s =
     (case completion_for p s of
        None \<Rightarrow> (0, s)
      | Some c \<Rightarrow>
          (case begin_request deadline timed (completions s ! c) of
             None \<Rightarrow> (0, s)
           | Some (rid, st) \<Rightarrow> (rid, cs_upd c (\<lambda>_. st) s)))"

definition finish_request :: "nat \<Rightarrow> u64 \<Rightarrow> request_state \<Rightarrow> int \<Rightarrow> u32 \<Rightarrow> 'a completions_st_scheme
    \<Rightarrow> int \<times> 'a completions_st_scheme" where
  "finish_request c rid new_state status transferred s =
     (case settle_request rid new_state status transferred (completions s ! c) of
        None \<Rightarrow> (-1, s)
      | Some st \<Rightarrow> event_signal (cs_event st) (cs_upd c (\<lambda>_. st) s))"

definition completion_request_finish :: "nat option \<Rightarrow> u64 \<Rightarrow> int \<Rightarrow> u32 \<Rightarrow> 'a completions_st_scheme
    \<Rightarrow> int \<times> 'a completions_st_scheme" where
  "completion_request_finish p rid status transferred s =
     (case completion_for p s of
        None \<Rightarrow> (-1, s) | Some c \<Rightarrow> finish_request c rid COMPLETION_DONE status transferred s)"

definition completion_request_cancel :: "nat option \<Rightarrow> u64 \<Rightarrow> 'a completions_st_scheme
    \<Rightarrow> int \<times> 'a completions_st_scheme" where
  "completion_request_cancel p rid s =
     (case completion_for p s of
        None \<Rightarrow> (-1, s) | Some c \<Rightarrow> finish_request c rid COMPLETION_CANCELED (-1) 0 s)"

definition settled :: "completion_request \<Rightarrow> bool" where
  "settled r \<longleftrightarrow> cr_state r \<noteq> COMPLETION_FREE \<and> cr_state r \<noteq> COMPLETION_PENDING"

definition completion_request_poll :: "nat option \<Rightarrow> u64 \<Rightarrow> 'a completions_st_scheme
    \<Rightarrow> completion_result option \<times> 'a completions_st_scheme" where
  "completion_request_poll p rid s =
     (case completion_for p s of
        None \<Rightarrow> (None, s)
      | Some c \<Rightarrow>
          (case collect_request rid (completions s ! c) of
             None \<Rightarrow> (None, s)
           | Some (res, st) \<Rightarrow>
               let s1 = snd (event_reset (cs_event st) (cs_upd c (\<lambda>_. st) s))
               in (Some res, if first_index settled (cs_requests st) \<noteq> None
                             then snd (event_signal (cs_event st) s1) else s1)))"

definition completion_wait_event :: "nat option \<Rightarrow> 'a completions_st_scheme \<Rightarrow> nat option" where
  "completion_wait_event p s =
     (case completion_for p s of None \<Rightarrow> None | Some c \<Rightarrow> cs_event (completions s ! c))"

definition time_out :: "int \<Rightarrow> completion_request \<Rightarrow> completion_request" where
  "time_out status r = r\<lparr>cr_state := COMPLETION_TIMED_OUT, cr_deadline := 0, cr_timed := False,
     cr_status := status, cr_transferred := 0\<rparr>"

definition tick_slot :: "u32 \<Rightarrow> int \<Rightarrow> nat \<Rightarrow> nat \<Rightarrow> 'a completions_st_scheme \<Rightarrow> 'a completions_st_scheme" where
  "tick_slot now timeout_status c slot s =
     (if \<not> request_overdue now (cs_requests (completions s ! c) ! slot) then s
      else let s1 = cs_upd c (req_upd slot (time_out timeout_status)) s
           in snd (event_signal (cs_event (completions s1 ! c)) s1))"

definition completion_tick :: "u32 \<Rightarrow> int \<Rightarrow> 'a completions_st_scheme \<Rightarrow> 'a completions_st_scheme" where
  "completion_tick now timeout_status s =
     fold (\<lambda>c s. if \<not> cs_active (completions s ! c) then s
                 else fold (tick_slot now timeout_status c) [0..<COMPLETION_REQUEST_MAX] s)
       [0..<COMPLETION_MAX] s"

definition completion_active_count :: "'a completions_st_scheme \<Rightarrow> nat" where
  "completion_active_count s = count_if cs_active (completions s)"

definition completion_dispatch :: "destroy_fn \<Rightarrow> nat \<Rightarrow> 'a completions_st_scheme \<Rightarrow> 'a completions_st_scheme" where
  "completion_dispatch d i s =
     (if d = completion_destroy_fn then completion_destroy i s else bridge_dispatch d i s)"

section \<open>Request ids\<close>

definition requests_ok :: "completion_state \<Rightarrow> bool" where
  "requests_ok st \<longleftrightarrow> length (cs_requests st) = COMPLETION_REQUEST_MAX
     \<and> cs_next_slot st < COMPLETION_REQUEST_MAX \<and> (\<forall>r \<in> set (cs_requests st). cr_generation r \<noteq> 0)"

lemma request_id_decode:
  assumes "slot < COMPLETION_REQUEST_MAX"
  shows "unat (ucast (request_id r slot) :: u32) = Suc slot"
    and "(ucast (drop_bit 32 (request_id r slot)) :: u32) = cr_generation r"
proof -
  have s: "Suc slot < 2 ^ 32" using assms by (simp add: COMPLETION_REQUEST_MAX_def)
  have tb: "take_bit 32 (of_nat (Suc slot) :: u64) = of_nat (Suc slot)"
    using s by (metis take_bit_nat_eq_self take_bit_of_nat)
  then have hi: "\<not> bit (of_nat (Suc slot) :: u64) n" if "32 \<le> n" for n
    using that by (metis bit_take_bit_iff not_le)
  have "(ucast (request_id r slot) :: u32) = ucast (of_nat (Suc slot) :: u64)"
    by (rule bit_word_eqI) (simp add: request_id_def bit_simps del: of_nat_Suc)
  also have "\<dots> = of_nat (Suc slot)"
    by (rule bit_word_eqI) (auto simp: bit_simps bit_of_nat_iff_bit simp del: of_nat_Suc)
  finally show "unat (ucast (request_id r slot) :: u32) = Suc slot"
    using s by (simp only: unat_of_nat) (rule mod_less, simp)
  show "(ucast (drop_bit 32 (request_id r slot)) :: u32) = cr_generation r"
  proof (rule bit_word_eqI)
    fix n assume n: "n < LENGTH(32)"
    have "\<not> bit (of_nat (Suc slot) :: u64) (32 + n)" by (rule hi) simp
    with n show "bit (ucast (drop_bit 32 (request_id r slot)) :: u32) n = bit (cr_generation r) n"
      by (auto simp: request_id_def bit_simps add.commute simp del: of_nat_Suc)
  qed
qed

definition request_slot :: "u64 \<Rightarrow> nat" where
  "request_slot rid = unat (ucast rid :: u32) - 1"

definition request_gen :: "u64 \<Rightarrow> nat" where
  "request_gen rid = unat (ucast (drop_bit 32 rid) :: u32)"

definition slot_gen :: "completion_state \<Rightarrow> nat \<Rightarrow> nat" where
  "slot_gen st slot = (if slot < COMPLETION_REQUEST_MAX then unat (cr_generation (cs_requests st ! slot)) else 0)"

lemma split_id:
  "rid = rid' \<longleftrightarrow> (ucast rid :: u32) = ucast (rid' :: u64) \<and> (ucast (drop_bit 32 rid) :: u32) = ucast (drop_bit 32 rid')"
proof (intro iffI conjI)
  assume lo: "(ucast rid :: u32) = ucast rid' \<and> (ucast (drop_bit 32 rid) :: u32) = ucast (drop_bit 32 rid')"
  show "rid = rid'"
  proof (rule bit_word_eqI)
    fix n assume n: "n < LENGTH(64)"
    have "bit (ucast rid :: u32) n = bit (ucast rid' :: u32) n"
      "bit (ucast (drop_bit 32 rid) :: u32) (n - 32) = bit (ucast (drop_bit 32 rid') :: u32) (n - 32)"
      using lo by simp_all
    with n show "bit rid n = bit rid' n" by (cases "n < 32") (auto simp: bit_simps)
  qed
qed auto

lemma request_id_for:
  assumes "requests_ok st" and "slot < COMPLETION_REQUEST_MAX"
    and "cr_state (cs_requests st ! slot) \<noteq> COMPLETION_FREE"
  shows "request_for st (request_id (cs_requests st ! slot) slot) = Some slot"
proof -
  have "cr_generation (cs_requests st ! slot) \<noteq> 0" using assms(1,2) by (auto simp: requests_ok_def)
  then show ?thesis
    using assms(2,3) by (simp add: request_for_def Let_def request_id_decode)
qed

text \<open>An id names a slot exactly when it is the id of the request now in it.\<close>

lemma request_for_iff:
  assumes "requests_ok st"
  shows "request_for st rid = Some slot \<longleftrightarrow> slot < COMPLETION_REQUEST_MAX
    \<and> cr_state (cs_requests st ! slot) \<noteq> COMPLETION_FREE \<and> rid = request_id (cs_requests st ! slot) slot"
    (is "?l = ?r")
proof
  assume l: ?l
  then have low: "unat (ucast rid :: u32) = Suc slot" and slot: "slot < COMPLETION_REQUEST_MAX"
    and gen: "(ucast (drop_bit 32 rid) :: u32) = cr_generation (cs_requests st ! slot)"
    and st: "cr_state (cs_requests st ! slot) \<noteq> COMPLETION_FREE"
    by (auto simp: request_for_def Let_def split: if_splits)
  have "(ucast rid :: u32) = ucast (request_id (cs_requests st ! slot) slot)"
    using low request_id_decode(1) [OF slot] by (metis word_unat_eq_iff)
  with gen request_id_decode(2) [OF slot] have "rid = request_id (cs_requests st ! slot) slot"
    using split_id by metis
  with slot st show ?r by simp
next
  assume ?r
  with request_id_for [OF assms] show ?l by blast
qed

lemma request_for_slot: "request_for st rid = Some slot \<Longrightarrow> slot = request_slot rid \<and> slot < COMPLETION_REQUEST_MAX
    \<and> request_gen rid = unat (cr_generation (cs_requests st ! slot))"
  by (auto simp: request_for_def Let_def request_slot_def request_gen_def split: if_splits)

lemma slot_order_set: "slot \<in> set (slot_order st) \<Longrightarrow> slot < COMPLETION_REQUEST_MAX"
  by (auto simp: slot_order_def COMPLETION_REQUEST_MAX_def)

lemma begin_requestD:
  assumes "requests_ok st" and "begin_request deadline timed st = Some (rid, st')"
  obtains slot where "slot < COMPLETION_REQUEST_MAX" "cr_state (cs_requests st ! slot) = COMPLETION_FREE"
    "rid = request_id (cs_requests st ! slot) slot"
    "st' = st\<lparr>cs_requests := (cs_requests st)[slot := (cs_requests st ! slot)\<lparr>cr_state := COMPLETION_PENDING,
        cr_deadline := deadline, cr_timed := timed, cr_status := 0, cr_transferred := 0\<rparr>],
      cs_next_slot := (slot + 1) mod COMPLETION_REQUEST_MAX\<rparr>"
proof -
  obtain slot where f: "find (\<lambda>slot. cr_state (cs_requests st ! slot) = COMPLETION_FREE) (slot_order st) = Some slot"
    using assms(2) by (auto simp: begin_request_def split: option.splits)
  then have free: "cr_state (cs_requests st ! slot) = COMPLETION_FREE" and "slot \<in> set (slot_order st)"
    unfolding find_Some_iff by auto
  then have slot: "slot < COMPLETION_REQUEST_MAX" using slot_order_set by blast
  with f assms show thesis
    by (intro that [of slot]) (auto simp: begin_request_def Let_def req_upd_def requests_ok_def request_id_def free)
qed

text \<open>A queue refuses a request only when all its slots are taken.\<close>

lemma begin_request_None:
  assumes "requests_ok st"
  shows "begin_request deadline timed st = None \<longleftrightarrow> (\<forall>r \<in> set (cs_requests st). cr_state r \<noteq> COMPLETION_FREE)"
proof -
  have "set (slot_order st) = {..<COMPLETION_REQUEST_MAX}"
  proof (intro equalityI subsetI)
    fix k assume k: "k \<in> {..<COMPLETION_REQUEST_MAX}"
    have "(cs_next_slot st + (k + COMPLETION_REQUEST_MAX - cs_next_slot st) mod COMPLETION_REQUEST_MAX)
        mod COMPLETION_REQUEST_MAX = (cs_next_slot st + (k + COMPLETION_REQUEST_MAX - cs_next_slot st))
        mod COMPLETION_REQUEST_MAX" by (rule mod_add_right_eq)
    also have "\<dots> = k" using k assms by (simp add: requests_ok_def)
    finally show "k \<in> set (slot_order st)"
      by (auto simp: slot_order_def image_iff COMPLETION_REQUEST_MAX_def
          intro!: bexI [of _ "(k + COMPLETION_REQUEST_MAX - cs_next_slot st) mod COMPLETION_REQUEST_MAX"])
  qed (auto dest: slot_order_set)
  moreover have "begin_request deadline timed st = None \<longleftrightarrow> find (\<lambda>slot. cr_state (cs_requests st ! slot) = COMPLETION_FREE) (slot_order st) = None"
    by (simp add: begin_request_def Let_def split: option.split)
  moreover have "set (cs_requests st) = (!) (cs_requests st) ` {..<COMPLETION_REQUEST_MAX}"
    using assms by (auto simp: requests_ok_def in_set_conv_nth)
  ultimately show ?thesis by (auto simp: find_None_iff)
qed

text \<open>What happens to a request between its start and its collection.\<close>

definition expire_requests :: "u32 \<Rightarrow> int \<Rightarrow> completion_state \<Rightarrow> completion_state" where
  "expire_requests now timeout_status st = st\<lparr>cs_requests :=
     map (\<lambda>r. if request_overdue now r then time_out timeout_status r else r) (cs_requests st)\<rparr>"

datatype request_touch = Finish u64 int u32 | Cancel u64 | Expire u32 int

definition touch_request :: "request_touch \<Rightarrow> completion_state \<Rightarrow> completion_state" where
  "touch_request t st =
     (case t of
        Finish rid status transferred \<Rightarrow>
          (case settle_request rid COMPLETION_DONE status transferred st of None \<Rightarrow> st | Some st' \<Rightarrow> st')
      | Cancel rid \<Rightarrow> (case settle_request rid COMPLETION_CANCELED (-1) 0 st of None \<Rightarrow> st | Some st' \<Rightarrow> st')
      | Expire now status \<Rightarrow> expire_requests now status st)"

definition begin_op :: "u32 \<times> bool \<Rightarrow> completion_state \<Rightarrow> (u64 \<times> completion_state) option" where
  "begin_op a st = begin_request (fst a) (snd a) st"

definition collect_op :: "u64 \<Rightarrow> completion_state \<Rightarrow> completion_state option" where
  "collect_op rid st = map_option snd (collect_request rid st)"

definition live_requests :: "completion_state \<Rightarrow> u64 set" where
  "live_requests st = {rid. request_for st rid \<noteq> None}"

lemma live_requests_eq:
  "requests_ok st \<Longrightarrow> live_requests st = {request_id (cs_requests st ! slot) slot | slot.
     slot < COMPLETION_REQUEST_MAX \<and> cr_state (cs_requests st ! slot) \<noteq> COMPLETION_FREE}"
  by (auto simp: live_requests_def request_for_iff)

lemma request_id_inj:
  "slot < COMPLETION_REQUEST_MAX \<Longrightarrow> slot' < COMPLETION_REQUEST_MAX \<Longrightarrow>
     request_id r slot = request_id r' slot' \<longleftrightarrow> slot = slot' \<and> cr_generation r = cr_generation r'"
  using request_id_decode [of slot r] request_id_decode [of slot' r'] by (metis nat.inject request_id_def)

text \<open>What the ids depend on: the generations, and which slots are free.\<close>

lemma live_same:
  assumes ok: "requests_ok st" and len: "length (cs_requests st') = COMPLETION_REQUEST_MAX"
    and next_slot: "cs_next_slot st' < COMPLETION_REQUEST_MAX"
    and gen: "\<And>k. k < COMPLETION_REQUEST_MAX \<Longrightarrow> cr_generation (cs_requests st' ! k) = cr_generation (cs_requests st ! k)"
    and taken: "\<And>k. k < COMPLETION_REQUEST_MAX \<Longrightarrow>
      cr_state (cs_requests st' ! k) \<noteq> COMPLETION_FREE \<longleftrightarrow> cr_state (cs_requests st ! k) \<noteq> COMPLETION_FREE \<or> k \<in> B"
    and B: "B \<subseteq> {..<COMPLETION_REQUEST_MAX}"
  shows "requests_ok st'" and "slot_gen st' k = slot_gen st k"
    and "live_requests st' = (\<lambda>slot. request_id (cs_requests st ! slot) slot) ` B \<union> live_requests st"
proof -
  have g0: "cr_generation (cs_requests st ! k) \<noteq> 0" if "k < COMPLETION_REQUEST_MAX" for k
    using ok that by (simp add: requests_ok_def)
  show ok': "requests_ok st'"
    unfolding requests_ok_def using len next_slot g0 gen by (fastforce simp: in_set_conv_nth)
  show "slot_gen st' k = slot_gen st k" using gen by (simp add: slot_gen_def)
  have im: "live_requests t = (\<lambda>k. request_id (cs_requests t ! k) k) `
      {k. k < COMPLETION_REQUEST_MAX \<and> cr_state (cs_requests t ! k) \<noteq> COMPLETION_FREE}" if "requests_ok t" for t
    unfolding live_requests_eq [OF that] by blast
  have "{k. k < COMPLETION_REQUEST_MAX \<and> cr_state (cs_requests st' ! k) \<noteq> COMPLETION_FREE}
      = B \<union> {k. k < COMPLETION_REQUEST_MAX \<and> cr_state (cs_requests st ! k) \<noteq> COMPLETION_FREE}"
    using taken B by blast
  then have "live_requests st' = (\<lambda>k. request_id (cs_requests st' ! k) k) `
      (B \<union> {k. k < COMPLETION_REQUEST_MAX \<and> cr_state (cs_requests st ! k) \<noteq> COMPLETION_FREE})"
    using im [OF ok'] by simp
  moreover have "(\<lambda>k. request_id (cs_requests st' ! k) k) ` X = (\<lambda>k. request_id (cs_requests st ! k) k) ` X"
    if "X \<subseteq> {..<COMPLETION_REQUEST_MAX}" for X
    using gen that by (intro image_cong refl) (auto simp: request_id_def)
  moreover have "B \<union> {k. k < COMPLETION_REQUEST_MAX \<and> cr_state (cs_requests st ! k) \<noteq> COMPLETION_FREE}
      \<subseteq> {..<COMPLETION_REQUEST_MAX}" using B by auto
  ultimately show "live_requests st' = (\<lambda>slot. request_id (cs_requests st ! slot) slot) ` B \<union> live_requests st"
    unfolding im [OF ok] image_Un [symmetric] by simp
qed

lemma settle_requestD:
  assumes "requests_ok st" and "settle_request rid new_state status transferred st = Some st'"
  obtains slot where "request_for st rid = Some slot" "cr_state (cs_requests st ! slot) = COMPLETION_PENDING"
    "st' = st\<lparr>cs_requests := (cs_requests st)[slot := (cs_requests st ! slot)\<lparr>cr_state := new_state, cr_deadline := 0,
       cr_timed := False, cr_status := status, cr_transferred := transferred\<rparr>]\<rparr>"
  using assms(2) by (auto simp: settle_request_def req_upd_def split: option.splits if_splits)

lemma settle_request_touch:
  assumes ok: "requests_ok st" and se: "settle_request rid new_state status transferred st = Some st'"
    and new: "new_state \<noteq> COMPLETION_FREE"
  shows "requests_ok st' \<and> live_requests st' = live_requests st \<and> slot_gen st' k = slot_gen st k"
proof -
  obtain slot where f: "request_for st rid = Some slot" and
    pend: "cr_state (cs_requests st ! slot) = COMPLETION_PENDING" and st': "st' = st\<lparr>cs_requests := (cs_requests st)[slot := (cs_requests st ! slot)\<lparr>cr_state := new_state, cr_deadline := 0,
       cr_timed := False, cr_status := status, cr_transferred := transferred\<rparr>]\<rparr>"
    using ok se by (rule settle_requestD)
  have slot: "slot < COMPLETION_REQUEST_MAX"  using f ok by (simp_all add: request_for_iff)
  have len: "length (cs_requests st) = COMPLETION_REQUEST_MAX" using ok by (simp add: requests_ok_def)
  have g: "cr_generation (cs_requests st' ! k) = cr_generation (cs_requests st ! k)"
    and t: "cr_state (cs_requests st' ! k) \<noteq> COMPLETION_FREE
      \<longleftrightarrow> cr_state (cs_requests st ! k) \<noteq> COMPLETION_FREE \<or> k \<in> {}" if "k < COMPLETION_REQUEST_MAX" for k
    using that len new pend slot by (auto simp: st' nth_list_update)
  show ?thesis using live_same [OF ok _ _ g t] ok by (simp add: requests_ok_def st')
qed

lemma expire_requests_touch:
  assumes ok: "requests_ok st"
  shows "requests_ok (expire_requests now status st)
    \<and> live_requests (expire_requests now status st) = live_requests st
    \<and> slot_gen (expire_requests now status st) k = slot_gen st k"
  using live_same [OF ok, where st' = "expire_requests now status st" and B = "{}"] ok
  by (simp add: requests_ok_def expire_requests_def request_overdue_def time_out_def)

lemma touch_request_spec:
  assumes "requests_ok st"
  shows "requests_ok (touch_request t st) \<and> live_requests (touch_request t st) = live_requests st
    \<and> slot_gen (touch_request t st) k = slot_gen st k"
  using expire_requests_touch [OF assms] settle_request_touch [OF assms]
  by (simp add: touch_request_def assms split: request_touch.split option.split)

lemma begin_request_spec:
  assumes ok: "requests_ok st" and b: "begin_request deadline timed st = Some (rid, st')"
  shows "requests_ok st'" and "rid \<notin> live_requests st" and "live_requests st' = insert rid (live_requests st)"
    and "slot_gen st' k = slot_gen st k"
proof -
  obtain slot where slot: "slot < COMPLETION_REQUEST_MAX" and free: "cr_state (cs_requests st ! slot) = COMPLETION_FREE"
    and id: "rid = request_id (cs_requests st ! slot) slot"
    and st': "st' = st\<lparr>cs_requests := (cs_requests st)[slot := (cs_requests st ! slot)\<lparr>cr_state := COMPLETION_PENDING,
        cr_deadline := deadline, cr_timed := timed, cr_status := 0, cr_transferred := 0\<rparr>],
      cs_next_slot := (slot + 1) mod COMPLETION_REQUEST_MAX\<rparr>"
    using ok b by (rule begin_requestD)
  have n: "(slot + 1) mod COMPLETION_REQUEST_MAX < COMPLETION_REQUEST_MAX" by (simp add: COMPLETION_REQUEST_MAX_def)
  show "requests_ok st'" "live_requests st' = insert rid (live_requests st)" "slot_gen st' k = slot_gen st k"
    using live_same [OF ok, where st' = st' and B = "{slot}"] ok n slot id by (simp_all add: requests_ok_def st' nth_list_update)
  show "rid \<notin> live_requests st"
    using free id slot by (auto simp: live_requests_eq [OF ok] request_id_inj)
qed

lemma collect_requestD:
  assumes "requests_ok st" and "collect_request rid st = Some (res, st')"
  obtains slot where "request_for st rid = Some slot" "cr_state (cs_requests st ! slot) \<noteq> COMPLETION_PENDING"
    "res = \<lparr>res_id = rid, res_status = cr_status (cs_requests st ! slot),
       res_transferred = cr_transferred (cs_requests st ! slot), res_state = cr_state (cs_requests st ! slot)\<rparr>"
    "cs_requests st' = (cs_requests st)[slot := free_request (cs_requests st ! slot)]"
    "cs_next_slot st' \<le> cs_next_slot st" "cs_event st' = cs_event st" "cs_active st' = cs_active st"
  using assms(2) by (auto simp: collect_request_def req_upd_def Let_def split: option.splits if_splits)

lemma collect_request_spec:
  assumes ok: "requests_ok st" and c: "collect_request rid st = Some (res, st')"
  shows "requests_ok st'" and "rid \<in> live_requests st" and "live_requests st' = live_requests st - {rid}"
    and "slot_gen st' k = (if k = request_slot rid then next_gen (2 ^ 32) (slot_gen st k) else slot_gen st k)"
proof -
  obtain slot where f: "request_for st rid = Some slot" and
    req: "cs_requests st' = (cs_requests st)[slot := free_request (cs_requests st ! slot)]" and
    n: "cs_next_slot st' \<le> cs_next_slot st"
    using ok c by (rule collect_requestD)
  have slot: "slot < COMPLETION_REQUEST_MAX" "slot = request_slot rid" and
    id: "rid = request_id (cs_requests st ! slot) slot"
    using f ok request_for_slot [OF f] by (simp_all add: request_for_iff)
  have len: "length (cs_requests st) = COMPLETION_REQUEST_MAX" using ok by (simp add: requests_ok_def)
  have nth: "cs_requests st' ! k = (if k = slot then free_request (cs_requests st ! slot) else cs_requests st ! k)"
    if "k < COMPLETION_REQUEST_MAX" for k using len that by (simp add: req nth_list_update)
  show ok': "requests_ok st'"
    using ok n by (auto simp: requests_ok_def req free_request_def bump_gen_nonzero dest!: set_update_subset_insert [THEN subsetD])
  show "rid \<in> live_requests st" using f by (simp add: live_requests_def)
  show "live_requests st' = live_requests st - {rid}"
    unfolding live_requests_eq [OF ok'] live_requests_eq [OF ok] id
    using slot(1) by (auto simp: nth request_id_inj free_request_def split: if_splits) (metis nth)
  show "slot_gen st' k = (if k = request_slot rid then next_gen (2 ^ 32) (slot_gen st k) else slot_gen st k)"
    using slot unat_bump_gen [of "cr_generation (cs_requests st ! slot)"]
    by (auto simp: slot_gen_def nth free_request_def)
qed

interpretation rq: gen_table requests_ok live_requests begin_op collect_op touch_request "2 ^ 32" slot_gen
  request_slot request_gen
proof (unfold_locales, goal_cases)
  case (9)
  then show ?case by simp
next
  case (13 s x s' k)
  then show ?case using collect_request_spec(4) by (auto simp: collect_op_def)
next
  case (10 s x)
  then show ?case using request_for_slot by (force simp: live_requests_def slot_gen_def)
next
  case (11 s x)
  then obtain slot where f: "request_for s x = Some slot" by (auto simp: live_requests_def)
  then have "cr_generation (cs_requests s ! slot) \<noteq> 0" using 11(1) by (auto simp: request_for_iff requests_ok_def)
  moreover have "request_gen x < 2 ^ 32" using unsigned_less [of "ucast (drop_bit 32 x) :: u32"] by (simp add: request_gen_def)
  ultimately show ?case using request_for_slot [OF f] by (simp add: unat_gt_0)
qed (auto simp: begin_op_def collect_op_def touch_request_spec dest: begin_request_spec collect_request_spec)

section \<open>Frames\<close>

lemma completions_of_more: "events_st.more s = events_st.more s' \<Longrightarrow> completions s = completions s'"
  by (cases s; cases s') simp

lemma event_ops_completions [simp]:
  "completions (snd (event_signal p s)) = completions s" "completions (snd (event_reset p s)) = completions s"
  "completions (snd (event_create m g s)) = completions s"
  by (rule completions_of_more, simp)+

lemma cs_upd_simps [simp, table_simps]:
  "objects (cs_upd c f s) = objects s" "handles (cs_upd c f s) = handles s" "task_pool (cs_upd c f s) = task_pool s"
  "completions (cs_upd c f s) = (completions s)[c := f (completions s ! c)]"
  by (simp_all add: cs_upd_def)

lemma completion_for_cong:
  "objects s = objects s' \<Longrightarrow> (\<And>c. cs_active (completions s ! c) = cs_active (completions s' ! c)) \<Longrightarrow>
     completion_for p s = completion_for p s'"
  by (cases p) (simp_all add: completion_for_def Let_def)

lemma completion_destroy_frame:
  "handles (completion_destroy i s) = handles s" "task_index t (completion_destroy i s) = task_index t s"
proof -
  have ti: "task_index t (cs_upd e f s) = task_index t s" for e f and s :: "'a completions_st_scheme"
    by (rule task_index_cong) simp
  show "handles (completion_destroy i s) = handles s" "task_index t (completion_destroy i s) = task_index t s"
    by (simp_all add: completion_destroy_def Let_def ti bd.release_handles bd.release_task_index)
qed

interpretation cp: destroy_contract completion_dispatch
  by unfold_locales
    (auto simp: completion_dispatch_def completion_destroy_frame bd.D_handles bd.D_task_index split: destroy_fn.splits)

section \<open>The clock\<close>

lemma req_upd_fields [simp]:
  "cs_active (req_upd k f st) = cs_active st" "cs_event (req_upd k f st) = cs_event st"
  "cs_next_slot (req_upd k f st) = cs_next_slot st"
  "cs_requests (req_upd k f st) = (cs_requests st)[k := f (cs_requests st ! k)]"
  by (simp_all add: req_upd_def)

lemma tick_slot_completions:
  "completions (tick_slot now status c slot s) =
     (if request_overdue now (cs_requests (completions s ! c) ! slot)
      then (completions s)[c := req_upd slot (time_out status) (completions s ! c)] else completions s)"
  by (simp add: tick_slot_def Let_def)

text \<open>The inner loop expires the requests of one queue, whatever tasks it wakes on the way.\<close>

lemma tick_slots_completions:
  assumes "c < length (completions s)" and "n \<le> length (cs_requests (completions s ! c))"
  shows "completions (fold (tick_slot now status c) [0..<n] s) = (completions s)
    [c := (completions s ! c)\<lparr>cs_requests :=
       map (\<lambda>r. if request_overdue now r then time_out status r else r) (take n (cs_requests (completions s ! c)))
       @ drop n (cs_requests (completions s ! c))\<rparr>]"
  using assms(2)
proof (induction n)
  case 0
  then show ?case by simp
next
  case (Suc n)
  let ?q = "cs_requests (completions s ! c)" and ?f = "\<lambda>r. if request_overdue now r then time_out status r else r"
  let ?m = "fold (tick_slot now status c) [0..<n] s"
  have IH: "completions ?m = (completions s)[c := (completions s ! c)\<lparr>cs_requests := map ?f (take n ?q) @ drop n ?q\<rparr>]"
    using Suc by simp
  have n: "n < length ?q" using Suc.prems by simp
  have take: "take (Suc n) ?q = take n ?q @ [?q ! n]" and drop: "drop n ?q = ?q ! n # drop (Suc n) ?q"
    using n by (simp_all add: take_Suc_conv_app_nth Cons_nth_drop_Suc)
  have at: "(map ?f (take n ?q) @ drop n ?q) ! n = ?q ! n" using n by (simp add: nth_append)
  have upd: "(map ?f (take n ?q) @ drop n ?q)[n := x] = map ?f (take n ?q) @ x # drop (Suc n) ?q" for x
    unfolding drop using n by (simp add: list_update_append)
  have "completions (fold (tick_slot now status c) [0..<Suc n] s) = completions (tick_slot now status c n ?m)" by simp
  also have "\<dots> = (completions s)[c := (completions s ! c)\<lparr>cs_requests := map ?f (take n ?q) @ ?f (?q ! n) # drop (Suc n) ?q\<rparr>]"
    using assms(1) at upd drop by (simp add: tick_slot_completions IH req_upd_def)
  finally show ?case unfolding take by simp
qed

lemma completion_tick_completions:
  assumes len: "length (completions s) = COMPLETION_MAX"
    and req: "\<And>c. c < COMPLETION_MAX \<Longrightarrow> length (cs_requests (completions s ! c)) = COMPLETION_REQUEST_MAX"
  shows "completions (completion_tick now status s) =
    map (\<lambda>st. if cs_active st then expire_requests now status st else st) (completions s)"
proof -
  let ?g = "\<lambda>c s. if \<not> cs_active (completions s ! c) then s
      else fold (tick_slot now status c) [0..<COMPLETION_REQUEST_MAX] s"
  let ?h = "\<lambda>st. if cs_active st then expire_requests now status st else st"
  have "n \<le> COMPLETION_MAX \<Longrightarrow> completions (fold ?g [0..<n] s) = map ?h (take n (completions s)) @ drop n (completions s)" for n
  proof (induction n)
    case 0
    then show ?case by simp
  next
    case (Suc n)
    let ?m = "fold ?g [0..<n] s"
    have IH: "completions ?m = map ?h (take n (completions s)) @ drop n (completions s)" using Suc by simp
    have n: "n < length (completions s)" using Suc.prems len by simp
    have at: "completions ?m ! n = completions s ! n" using n by (simp add: IH nth_append)
    have nm: "n < length (completions ?m)" using n by (simp add: IH)
    have q: "length (cs_requests (completions ?m ! n)) = COMPLETION_REQUEST_MAX" using req n len at by simp
    have "completions (?g n ?m) = (completions ?m)[n := ?h (completions s ! n)]"
      using tick_slots_completions [OF nm, of COMPLETION_REQUEST_MAX now status] q at nm
        list_update_id [of "completions ?m" n]
      by (cases "cs_active (completions s ! n)") (simp_all add: expire_requests_def)
    also have "\<dots> = map ?h (take (Suc n) (completions s)) @ drop (Suc n) (completions s)"
      using n by (simp add: IH take_Suc_conv_app_nth list_update_append Cons_nth_drop_Suc [symmetric])
    finally show ?case by simp
  qed
  from this [of COMPLETION_MAX] len show ?thesis by (simp add: completion_tick_def)
qed

section \<open>The life of a request\<close>

text \<open>Settling and collecting, at the level of one queue.\<close>

lemma settle_then_collect:
  assumes ok: "requests_ok st" and se: "settle_request rid new_state status transferred st = Some st'"
    and new: "new_state \<noteq> COMPLETION_FREE" "new_state \<noteq> COMPLETION_PENDING"
  shows "settle_request rid x y z st' = None" and "\<exists>st''. collect_request rid st' =
    Some (\<lparr>res_id = rid, res_status = status, res_transferred = transferred, res_state = new_state\<rparr>, st'')"
proof -
  obtain slot where f: "request_for st rid = Some slot" and
    st': "st' = st\<lparr>cs_requests := (cs_requests st)[slot := (cs_requests st ! slot)\<lparr>cr_state := new_state, cr_deadline := 0,
       cr_timed := False, cr_status := status, cr_transferred := transferred\<rparr>]\<rparr>"
    using ok se by (rule settle_requestD)
  have slot: "slot < length (cs_requests st)" using f ok by (simp add: request_for_iff requests_ok_def)
  have "request_for st' rid = Some slot"
    using f slot new(1) by (auto simp: request_for_def Let_def st' split: if_splits)
  then show "settle_request rid x y z st' = None" and "\<exists>st''. collect_request rid st' =
      Some (\<lparr>res_id = rid, res_status = status, res_transferred = transferred, res_state = new_state\<rparr>, st'')"
    using slot new(2) by (simp_all add: settle_request_def collect_request_def st' Let_def)
qed

lemma collected_id_dead:
  assumes ok: "requests_ok st" and c: "collect_request rid st = Some (res, st')"
  shows "request_for st' rid = None"
  using rq.double_free_refused [OF ok, of rid st'] collect_request_spec(3) [OF ok c]
  by (auto simp: live_requests_def)

lemma finish_request_completions:
  "settle_request rid new_state status transferred (completions s ! c) = Some st \<Longrightarrow>
     objects (snd (finish_request c rid new_state status transferred s)) = objects s
     \<and> completions (snd (finish_request c rid new_state status transferred s)) = (completions s)[c := st]"
  by (simp add: finish_request_def event_op_objects)

lemma poll_completions:
  assumes "completion_for p s = Some c" and "collect_request rid (completions s ! c) = Some (res, st)"
  shows "fst (completion_request_poll p rid s) = Some res"
    and "objects (snd (completion_request_poll p rid s)) = objects s"
    and "completions (snd (completion_request_poll p rid s)) = (completions s)[c := st]"
  using assms by (simp_all add: completion_request_poll_def Let_def event_op_objects)

lemma completion_for_keep:
  assumes "completion_for p s = Some c" and "objects s' = objects s" and "completions s' = (completions s)[c := st]"
    and "cs_active st"
  shows "completion_for p s' = Some c"
proof -
  have "cs_active (completions s ! c)" using assms(1) by (auto simp: completion_for_def Let_def split: option.splits if_splits)
  then have "cs_active (completions s' ! k) = cs_active (completions s ! k)" for k
    using assms(3,4) by (cases "c < length (completions s)") (auto simp: nth_list_update list_update_beyond)
  with assms(1,2) completion_for_cong [of s' s p] show ?thesis by simp
qed

lemma settle_request_active: "settle_request rid a b d st = Some st' \<Longrightarrow> cs_active st' = cs_active st"
  by (auto simp: settle_request_def split: option.splits if_splits)

section \<open>Properties\<close>

text \<open>
  C21. A request ends once and is reported once. Finishing a pending request makes the next
  poll return exactly its id, status, byte count and the state DONE; a second finish or a
  cancel in between is refused; and after the poll the id is refused by every operation.
\<close>

theorem completion_reported_once:
  fixes s :: "'a completions_st_scheme"
  assumes q: "completion_for p s = Some c" "c < length (completions s)" "requests_ok (completions s ! c)"
    and r: "request_for (completions s ! c) rid = Some slot"
      "cr_state (cs_requests (completions s ! c) ! slot) = COMPLETION_PENDING"
    and fin: "s1 = snd (completion_request_finish p rid status transferred s)"
    and pol: "s2 = snd (completion_request_poll p rid s1)"
  shows "fst (completion_request_poll p rid s1) =
      Some \<lparr>res_id = rid, res_status = status, res_transferred = transferred, res_state = COMPLETION_DONE\<rparr>
    \<and> completion_request_finish p rid x y s1 = (-1, s1) \<and> completion_request_cancel p rid s1 = (-1, s1)
    \<and> completion_request_finish p rid x y s2 = (-1, s2) \<and> completion_request_cancel p rid s2 = (-1, s2)
    \<and> completion_request_poll p rid s2 = (None, s2)"
proof -
  obtain st where st: "settle_request rid COMPLETION_DONE status transferred (completions s ! c) = Some st"
    using r by (simp add: settle_request_def)
  note act = settle_request_active [OF st]
  have a: "cs_active (completions s ! c)" using q(1) by (auto simp: completion_for_def Let_def split: option.splits if_splits)
  have s1: "objects s1 = objects s" "completions s1 = (completions s)[c := st]"
    using finish_request_completions [OF st] q(1) by (simp_all add: fin completion_request_finish_def)
  have for1: "completion_for p s1 = Some c" using completion_for_keep [OF q(1) s1] act a by simp
  have c1: "completions s1 ! c = st" "c < length (completions s1)" using s1(2) q(2) by simp_all
  have ok1: "requests_ok st" using settle_request_touch [OF q(3) st] by simp
  note sc = settle_then_collect [OF q(3) st]
  obtain st2 where st2: "collect_request rid st =
      Some (\<lparr>res_id = rid, res_status = status, res_transferred = transferred, res_state = COMPLETION_DONE\<rparr>, st2)"
    using sc(2) by auto
  have col: "collect_request rid (completions s1 ! c) =
      Some (\<lparr>res_id = rid, res_status = status, res_transferred = transferred, res_state = COMPLETION_DONE\<rparr>, st2)"
    using st2 c1 by simp
  note pc = poll_completions [OF for1 col]
  have before: "completion_request_finish p rid x y s1 = (-1, s1)" "completion_request_cancel p rid s1 = (-1, s1)"
    using for1 c1 sc(1) by (simp_all add: completion_request_finish_def completion_request_cancel_def finish_request_def)
  have s2: "objects s2 = objects s1" "completions s2 = (completions s1)[c := st2]" using pc(2,3) by (simp_all add: pol)
  have "cs_active st2" using act a collect_requestD [OF ok1 st2] by metis
  then have for2: "completion_for p s2 = Some c" using completion_for_keep [OF for1 s2] by simp
  have "request_for (completions s2 ! c) rid = None" using collected_id_dead [OF ok1 st2] s2(2) c1 by simp
  then have "completion_request_finish p rid x y s2 = (-1, s2)" "completion_request_cancel p rid s2 = (-1, s2)"
    "completion_request_poll p rid s2 = (None, s2)"
    using for2 by (simp_all add: completion_request_finish_def completion_request_cancel_def finish_request_def
        settle_request_def completion_request_poll_def collect_request_def)
  with pc(1) before show ?thesis by simp
qed

text \<open>
  C13. A collected id does not come back: whatever requests a queue starts, finishes, cancels,
  expires and collects afterwards, the id names no request until its slot has been collected
  as often as there are generations (32 bits).
\<close>

theorem completion_id_stays_dead:
  assumes "requests_ok st" and "collect_request rid st = Some (res, st')"
    and "table_run begin_op collect_op touch_request ops st' = (begun, collected, st'')"
    and "count_if (\<lambda>y. request_slot y = request_slot rid) collected < 2 ^ 32 - 2"
  shows "request_for st'' rid = None"
  using rq.stale_id_stays_dead [OF assms(1) _ assms(3,4)] assms(2)
  by (auto simp: collect_op_def live_requests_def)

text \<open>
  One call of the clock expires, on every active queue, exactly the pending requests whose
  deadline has passed (in 32-bit wrap-around time), whatever tasks their events wake meanwhile:
  all other requests and the inactive queues keep their state.
\<close>

theorem completion_tick_expires:
  assumes "length (completions s) = COMPLETION_MAX"
    and "\<forall>st \<in> set (completions s). requests_ok st"
  shows "completions (completion_tick now status s) =
    map (\<lambda>st. if cs_active st then expire_requests now status st else st) (completions s)"
  by (rule completion_tick_completions) (use assms in \<open>simp_all add: requests_ok_def\<close>)

section \<open>Witnesses\<close>

definition completion_boot :: completions_st where
  "completion_boot = snd (completion_create (completion_init
     (event_init (object_init \<lparr>task_pool = replicate MAX_TASKS zero_task, task_pool_count = 3,
       task_result = (\<lambda>_. None), objects = [], handles = [], events = [], wait_sets = [], wait_counts = [],
       wait_deadlines = [], wait_timed = [], endpoints = [], bridges = [], completions = []\<rparr>))))"

text \<open>One pending request, due at tick 5; its id is generation 1, slot 0.\<close>

definition one_request :: completions_st where
  "one_request = snd (completion_request_begin (Some 1) 5 True completion_boot)"

lemma one_request_shape:
  "completion_for (Some 1) one_request = Some 0" "length (completions one_request) = COMPLETION_MAX"
  "list_all requests_ok (completions one_request)"
  "request_for (completions one_request ! 0) (2 ^ 32 + 1) = Some 0"
  "cr_state (cs_requests (completions one_request ! 0) ! 0) = COMPLETION_PENDING"
  "collect_request (2 ^ 32 + 1) (expire_requests 9 7 (completions one_request ! 0)) \<noteq> None"
  by code_simp+

lemma one_request_ok: "requests_ok (completions one_request ! 0)"
  using one_request_shape(2,3) by (simp add: list_all_length COMPLETION_MAX_def)

theorem completion_reported_once_witness:
  "completion_request_poll (Some 1) (2 ^ 32 + 1) (snd (completion_request_poll (Some 1) (2 ^ 32 + 1)
     (snd (completion_request_finish (Some 1) (2 ^ 32 + 1) 0 64 one_request))))
   = (None, snd (completion_request_poll (Some 1) (2 ^ 32 + 1)
     (snd (completion_request_finish (Some 1) (2 ^ 32 + 1) 0 64 one_request))))"
  using completion_reported_once [OF one_request_shape(1) _ one_request_ok one_request_shape(4,5) refl refl, of 0 64]
    one_request_shape(2) by (simp add: COMPLETION_MAX_def)

theorem completion_id_stays_dead_witness:
  "request_for (snd (the (collect_request (2 ^ 32 + 1) (expire_requests 9 7 (completions one_request ! 0)))))
     (2 ^ 32 + 1) = None"
proof -
  let ?st = "expire_requests 9 7 (completions one_request ! 0)"
  obtain res st' where c: "collect_request (2 ^ 32 + 1) ?st = Some (res, st')"
    using one_request_shape(6) by auto
  have "requests_ok ?st" using expire_requests_touch [OF one_request_ok] by simp
  from completion_id_stays_dead [OF this c, of "[]"] have "request_for st' (2 ^ 32 + 1) = None" by simp
  then show ?thesis by (simp only: c option.sel snd_conv)
qed

theorem completion_tick_expires_witness:
  "cr_state (cs_requests (completions (completion_tick 9 7 one_request) ! 0) ! 0) = COMPLETION_TIMED_OUT
   \<and> cr_state (cs_requests (completions (completion_tick 4 7 one_request) ! 0) ! 0) = COMPLETION_PENDING"
proof -
  have all: "\<forall>st \<in> set (completions one_request). requests_ok st"
    using one_request_shape(3) by (simp add: list_all_iff)
  have l: "0 < length (completions one_request)" using one_request_shape(2) by (simp add: COMPLETION_MAX_def)
  have "cs_active (completions one_request ! 0)"
    "cr_state (cs_requests (expire_requests 9 7 (completions one_request ! 0)) ! 0) = COMPLETION_TIMED_OUT"
    "cr_state (cs_requests (expire_requests 4 7 (completions one_request ! 0)) ! 0) = COMPLETION_PENDING"
    by code_simp+
  then show ?thesis
    using completion_tick_expires [OF one_request_shape(2) all] l by simp
qed

end
