(* ===== verification/Timers.thy ===== *)
theory Timers
  imports Completions
begin

text \<open>
  Timer objects, \<^verbatim>\<open>src/objects/timer_object.c\<close>: one-shot and periodic timers that
  signal an event. The loop that moves a periodic deadline past the present is a partial
  function; it is shown to return, and to agree with a division.
\<close>

section \<open>State and operations\<close>

definition TIMER_OBJECT_MAX :: nat where "TIMER_OBJECT_MAX = 32"

record timer_object_state =
  tm_event :: "nat option"
  tm_deadline :: u32
  tm_interval :: u32
  tm_armed :: bool
  tm_active :: bool

record timers_st = completions_st +
  timers :: "timer_object_state list"

definition tm_upd :: "nat \<Rightarrow> (timer_object_state \<Rightarrow> timer_object_state)
    \<Rightarrow> 'a timers_st_scheme \<Rightarrow> 'a timers_st_scheme" where
  "tm_upd c f s = s\<lparr>timers := (timers s)[c := f (timers s ! c)]\<rparr>"

definition timer_for :: "nat option \<Rightarrow> 'a timers_st_scheme \<Rightarrow> nat option" where
  "timer_for p s =
     (case p of None \<Rightarrow> None
      | Some i \<Rightarrow>
          let ob = objects s ! i in
          if \<not> ko_active ob \<or> ko_type ob \<noteq> KOBJECT_TIMER \<or> ko_value ob = 0
             \<or> TIMER_OBJECT_MAX < unat (ko_value ob) then None
          else let c = unat (ko_value ob) - 1 in
               if tm_active (timers s ! c) then Some c else None)"

definition no_timer :: timer_object_state where
  "no_timer = \<lparr>tm_event = None, tm_deadline = 0, tm_interval = 0, tm_armed = False, tm_active = False\<rparr>"

definition timer_destroy :: "nat \<Rightarrow> 'a timers_st_scheme \<Rightarrow> 'a timers_st_scheme" where
  "timer_destroy i s =
     (let ob = objects s ! i in
      if ko_value ob = 0 \<or> TIMER_OBJECT_MAX < unat (ko_value ob) then s
      else let c = unat (ko_value ob) - 1 in
           if \<not> tm_active (timers s ! c) then s
           else let s1 = object_release completion_dispatch (tm_event (timers s ! c)) s
                in tm_upd c (\<lambda>_. no_timer) s1)"

definition timer_object_init :: "'a timers_st_scheme \<Rightarrow> 'a timers_st_scheme" where
  "timer_object_init s = s\<lparr>timers := replicate TIMER_OBJECT_MAX no_timer\<rparr>"

definition timer_object_create :: "'a timers_st_scheme \<Rightarrow> nat option \<times> 'a timers_st_scheme" where
  "timer_object_create s =
     (case first_index (\<lambda>st. \<not> tm_active st) (timers s) of
        None \<Rightarrow> (None, s)
      | Some c \<Rightarrow>
          (case event_create EVENT_AUTO_RESET False s of
             (None, s1) \<Rightarrow> (None, tm_upd c (tm_event_update (\<lambda>_. None)) s1)
           | (Some ev, s1) \<Rightarrow>
               let s2 = tm_upd c (\<lambda>_. \<lparr>tm_event = Some ev, tm_deadline = 0, tm_interval = 0, tm_armed = False,
                          tm_active = True\<rparr>) s1
               in (case object_create KOBJECT_TIMER (of_nat (c + 1)) (Some timer_destroy_fn) s2 of
                     (None, s3) \<Rightarrow>
                       (None, tm_upd c (\<lambda>st. st\<lparr>tm_event := None, tm_active := False\<rparr>)
                                (object_release completion_dispatch (Some ev) s3))
                   | (Some ob, s3) \<Rightarrow> (Some ob, s3))))"

definition timer_object_arm :: "nat option \<Rightarrow> u32 \<Rightarrow> u32 \<Rightarrow> 'a timers_st_scheme \<Rightarrow> int \<times> 'a timers_st_scheme" where
  "timer_object_arm p deadline interval s =
     (case timer_for p s of
        None \<Rightarrow> (-1, s)
      | Some c \<Rightarrow>
          if 0x7FFFFFFF < interval then (-1, s)
          else let s1 = tm_upd c (\<lambda>t. t\<lparr>tm_deadline := deadline, tm_interval := interval, tm_armed := True\<rparr>) s
               in (0, snd (event_reset (tm_event (timers s ! c)) s1)))"

definition timer_object_cancel :: "nat option \<Rightarrow> 'a timers_st_scheme \<Rightarrow> int \<times> 'a timers_st_scheme" where
  "timer_object_cancel p s =
     (case timer_for p s of
        None \<Rightarrow> (-1, s)
      | Some c \<Rightarrow>
          if \<not> tm_armed (timers s ! c) then (-1, s)
          else let s1 = tm_upd c (\<lambda>t. t\<lparr>tm_deadline := 0, tm_interval := 0, tm_armed := False\<rparr>) s
               in (0, snd (event_reset (tm_event (timers s ! c)) s1)))"

definition timer_object_wait_event :: "nat option \<Rightarrow> 'a timers_st_scheme \<Rightarrow> nat option" where
  "timer_object_wait_event p s =
     (case timer_for p s of None \<Rightarrow> None | Some c \<Rightarrow> tm_event (timers s ! c))"

text \<open>The do-while loop of a periodic timer; not returning is \<open>None\<close>.\<close>

partial_function (option) advance :: "u32 \<Rightarrow> u32 \<Rightarrow> u32 \<Rightarrow> u32 option" where
  "advance now interval deadline =
     (let deadline' = deadline + interval in
      if \<not> not_due now deadline' then advance now interval deadline' else Some deadline')"

definition tick_timer :: "u32 \<Rightarrow> nat \<Rightarrow> 'a timers_st_scheme \<Rightarrow> 'a timers_st_scheme option" where
  "tick_timer now c s =
     (let t = timers s ! c in
      if \<not> tm_active t \<or> \<not> tm_armed t \<or> not_due now (tm_deadline t) then Some s
      else let s1 = snd (event_signal (tm_event t) s) in
           if tm_interval t = 0 then Some (tm_upd c (\<lambda>t. t\<lparr>tm_armed := False, tm_deadline := 0\<rparr>) s1)
           else case advance now (tm_interval t) (tm_deadline t) of
                  None \<Rightarrow> None
                | Some d \<Rightarrow> Some (tm_upd c (\<lambda>t. t\<lparr>tm_deadline := d\<rparr>) s1))"

definition timer_object_tick :: "u32 \<Rightarrow> 'a timers_st_scheme \<Rightarrow> 'a timers_st_scheme option" where
  "timer_object_tick now s =
     fold (\<lambda>c r. case r of None \<Rightarrow> None | Some s \<Rightarrow> tick_timer now c s) [0..<TIMER_OBJECT_MAX] (Some s)"

definition timer_object_active_count :: "'a timers_st_scheme \<Rightarrow> nat" where
  "timer_object_active_count s = count_if tm_active (timers s)"

definition timer_dispatch :: "destroy_fn \<Rightarrow> nat \<Rightarrow> 'a timers_st_scheme \<Rightarrow> 'a timers_st_scheme" where
  "timer_dispatch d i s = (if d = timer_destroy_fn then timer_destroy i s else completion_dispatch d i s)"

section \<open>Frames\<close>

lemma timers_of_more: "events_st.more s = events_st.more s' \<Longrightarrow> timers s = timers s'"
  by (cases s; cases s') simp

lemma event_ops_timers [simp]:
  "timers (snd (event_signal p s)) = timers s" "timers (snd (event_reset p s)) = timers s"
  "timers (snd (event_create m g s)) = timers s"
  by (rule timers_of_more, simp)+

lemma tm_upd_simps [simp, table_simps]:
  "objects (tm_upd c f s) = objects s" "handles (tm_upd c f s) = handles s" "task_pool (tm_upd c f s) = task_pool s"
  "timers (tm_upd c f s) = (timers s)[c := f (timers s ! c)]"
  by (simp_all add: tm_upd_def)

lemma timer_destroy_frame:
  "handles (timer_destroy i s) = handles s" "task_index t (timer_destroy i s) = task_index t s"
proof -
  have ti: "task_index t (tm_upd e f s) = task_index t s" for e f and s :: "'a timers_st_scheme"
    by (rule task_index_cong) simp
  show "handles (timer_destroy i s) = handles s" "task_index t (timer_destroy i s) = task_index t s"
    by (simp_all add: timer_destroy_def Let_def ti cp.release_handles cp.release_task_index)
qed

interpretation tmr: destroy_contract timer_dispatch
  by unfold_locales
    (auto simp: timer_dispatch_def timer_destroy_frame cp.D_handles cp.D_task_index split: destroy_fn.splits)

section \<open>The loop returns\<close>

lemma unat_minus_step: "unat (x - y) = (if unat y \<le> unat x then unat x - unat y else unat x + 2 ^ 32 - unat y)"
  for x y :: u32
  by (simp add: unat_sub_if_size word_size word_le_nat_alt)

text \<open>The loop in closed form, by induction on the distance still to cover.\<close>

lemma advance_closed:
  assumes "interval \<noteq> 0" and "interval \<le> 0x7FFFFFFF" and "\<not> not_due now deadline"
  shows "advance now interval deadline
    = Some (deadline + of_nat (unat (now - deadline) div unat interval + 1) * interval)"
  using assms(3)
proof (induction "unat (now - deadline)" arbitrary: deadline rule: less_induct)
  case less
  let ?x = "unat (now - deadline)" and ?i = "unat interval" and ?d = "deadline + interval"
  have i: "0 < ?i" "?i < 2 ^ 31" using assms(1,2) by (simp_all add: unat_gt_0 word_le_nat_alt)
  have x: "?x < 2 ^ 31" using less.prems by (simp add: not_due_iff)
  have nd: "now - ?d = (now - deadline) - interval" by simp
  have step: "unat (now - ?d) = (if ?i \<le> ?x then ?x - ?i else ?x + 2 ^ 32 - ?i)"
    unfolding nd by (rule unat_minus_step)
  show ?case
  proof (cases "?i \<le> ?x")
    case True
    then have lt: "unat (now - ?d) < ?x" and go: "\<not> not_due now ?d" using step i x by (simp_all add: not_due_iff)
    have "?x div ?i = Suc ((?x - ?i) div ?i)" using True i by (simp add: div_if)
    with less.hyps [OF lt go] step True go show ?thesis
      by (subst advance.simps) (simp add: Let_def algebra_simps)
  next
    case False
    then have "not_due now ?d" using step i by (simp add: not_due_iff)
    with False show ?thesis by (subst advance.simps) (simp add: Let_def)
  qed
qed

section \<open>A tick in closed form\<close>

text \<open>What one tick does to a timer, without the loop.\<close>

definition fire :: "u32 \<Rightarrow> timer_object_state \<Rightarrow> timer_object_state" where
  "fire now t =
     (if \<not> tm_active t \<or> \<not> tm_armed t \<or> not_due now (tm_deadline t) then t
      else if tm_interval t = 0 then t\<lparr>tm_armed := False, tm_deadline := 0\<rparr>
      else t\<lparr>tm_deadline := tm_deadline t
             + of_nat (unat (now - tm_deadline t) div unat (tm_interval t) + 1) * tm_interval t\<rparr>)"

definition timers_ok :: "'a timers_st_scheme \<Rightarrow> bool" where
  "timers_ok s \<longleftrightarrow> length (timers s) = TIMER_OBJECT_MAX \<and> (\<forall>t \<in> set (timers s). tm_interval t \<le> 0x7FFFFFFF)"

lemma tick_timer_fire:
  assumes "c < length (timers s)" and "tm_interval (timers s ! c) \<le> 0x7FFFFFFF"
  shows "\<exists>s'. tick_timer now c s = Some s' \<and> timers s' = (timers s)[c := fire now (timers s ! c)]"
  using assms advance_closed [of "tm_interval (timers s ! c)" now "tm_deadline (timers s ! c)"]
  by (simp add: tick_timer_def fire_def Let_def)

lemma timer_object_tick_fire:
  assumes ok: "timers_ok s"
  shows "\<exists>s'. timer_object_tick now s = Some s' \<and> timers s' = map (fire now) (timers s)"
proof -
  let ?g = "\<lambda>c r. case r of None \<Rightarrow> None | Some s \<Rightarrow> tick_timer now c s"
  have len: "length (timers s) = TIMER_OBJECT_MAX" using ok by (simp add: timers_ok_def)
  have "n \<le> TIMER_OBJECT_MAX \<Longrightarrow> \<exists>s'. fold ?g [0..<n] (Some s) = Some s'
      \<and> timers s' = map (fire now) (take n (timers s)) @ drop n (timers s)" for n
  proof (induction n)
    case 0
    then show ?case by simp
  next
    case (Suc n)
    then obtain m where m: "fold ?g [0..<n] (Some s) = Some m"
      "timers m = map (fire now) (take n (timers s)) @ drop n (timers s)" by auto
    have n: "n < length (timers s)" using Suc.prems len by simp
    have at: "timers m ! n = timers s ! n" and nm: "n < length (timers m)" using n by (simp_all add: m(2) nth_append)
    have "tm_interval (timers m ! n) \<le> 0x7FFFFFFF" using ok n at by (simp add: timers_ok_def)
    from tick_timer_fire [OF nm this] obtain s' where
      "tick_timer now n m = Some s'" "timers s' = (timers m)[n := fire now (timers m ! n)]" by auto
    moreover have "(timers m)[n := fire now (timers m ! n)] = map (fire now) (take (Suc n) (timers s)) @ drop (Suc n) (timers s)"
      unfolding at using n
      by (simp add: m(2) take_Suc_conv_app_nth list_update_append Cons_nth_drop_Suc [symmetric])
    ultimately show ?case using m(1) by simp
  qed
  from this [of TIMER_OBJECT_MAX] len show ?thesis by (simp add: timer_object_tick_def)
qed

lemma fire_ok: "tm_interval (fire now t) = tm_interval t"
  by (simp add: fire_def)

text \<open>A periodic timer that fires is next due after the present and at most one interval later.\<close>

lemma fire_next:
  assumes act: "tm_active t" "tm_armed t" "\<not> not_due now (tm_deadline t)"
    and i: "tm_interval t \<noteq> 0" "tm_interval t \<le> 0x7FFFFFFF"
  shows "0 < unat (tm_deadline (fire now t) - now) \<and> unat (tm_deadline (fire now t) - now) \<le> unat (tm_interval t)"
proof -
  let ?x = "unat (now - tm_deadline t)" and ?i = "unat (tm_interval t)"
  have ib: "0 < ?i" "?i < 2 ^ 31" using i by (simp_all add: unat_gt_0 word_le_nat_alt)
  define k where "k = ?i - ?x mod ?i"
  have xm: "?x mod ?i < ?i" using ib by simp
  then have kb: "0 < k" "k \<le> ?i" by (simp_all add: k_def)
  have "?x div ?i * ?i + ?x mod ?i = ?x" by (rule div_mult_mod_eq)
  then have "(?x div ?i + 1) * ?i = ?x + k" unfolding k_def distrib_right using xm by linarith
  then have "of_nat ((?x div ?i + 1) * ?i) = (of_nat (?x + k) :: u32)" by (rule arg_cong)
  moreover have "of_nat (?x div ?i + 1) * tm_interval t = of_nat ((?x div ?i + 1) * ?i)"
    by (simp only: of_nat_mult) simp
  ultimately have "of_nat (?x div ?i + 1) * tm_interval t = now - tm_deadline t + of_nat k"
    by (simp only: of_nat_add) simp
  then have "tm_deadline (fire now t) - now = of_nat k" using act i by (simp add: fire_def algebra_simps)
  moreover have "unat (of_nat k :: u32) = k"
    using kb ib by (simp only: unat_of_nat) (rule mod_less, simp)
  ultimately show ?thesis using kb by simp
qed

section \<open>Runs of timer operations\<close>

datatype timer_op = Create | Arm "nat option" u32 u32 | CancelTimer "nat option" | Release "nat option" | Tick u32

definition timer_step :: "timer_op \<Rightarrow> 'a timers_st_scheme \<Rightarrow> 'a timers_st_scheme option" where
  "timer_step op s =
     (case op of
        Create \<Rightarrow> Some (snd (timer_object_create s))
      | Arm p deadline interval \<Rightarrow> Some (snd (timer_object_arm p deadline interval s))
      | CancelTimer p \<Rightarrow> Some (snd (timer_object_cancel p s))
      | Release p \<Rightarrow> Some (object_release timer_dispatch p s)
      | Tick now \<Rightarrow> timer_object_tick now s)"

fun timer_run :: "timer_op list \<Rightarrow> 'a timers_st_scheme \<Rightarrow> 'a timers_st_scheme option" where
  "timer_run [] s = Some s"
| "timer_run (op # ops) s = (case timer_step op s of None \<Rightarrow> None | Some s' \<Rightarrow> timer_run ops s')"

lemma timers_obj_upd [simp]: "timers (obj_upd i f s) = timers s"
  by (simp add: obj_upd_def)

lemma bridge_dispatch_timers: "timers (bridge_dispatch d i s) = timers s"
proof -
  have ed: "timers (event_destroy i s) = timers s" "timers (event_dispatch d i s) = timers s"
    for i d and s :: "'a timers_st_scheme" by (rule timers_of_more, simp)+
  have rel: "timers (object_release event_dispatch p s) = timers s" for p and s :: "'a timers_st_scheme"
    by (rule release_frame) (simp_all add: ed)
  have up: "timers (br_upd b f s) = timers s" "timers (en_upd b g s) = timers s" for b f g and s :: "'a timers_st_scheme"
    by (simp_all add: br_upd_def en_upd_def)
  have cl: "timers (bridge_cleanup c s) = timers s" for c and s :: "'a timers_st_scheme"
    by (simp add: bridge_cleanup_def Let_def rel up split: option.split)
  have "timers (endpoint_destroy i s) = timers s"
    by (simp add: endpoint_destroy_def Let_def cl up split: option.split endpoint_fn.split)
  then show ?thesis by (simp add: bridge_dispatch_def ed split: destroy_fn.split)
qed

lemma completion_dispatch_timers: "timers (completion_dispatch d i s) = timers s"
proof -
  have rel: "timers (object_release bridge_dispatch p s) = timers s" for p and s :: "'a timers_st_scheme"
    by (rule release_frame) (simp_all add: bridge_dispatch_timers)
  have up: "timers (cs_upd b f s) = timers s" for b f and s :: "'a timers_st_scheme" by (simp add: cs_upd_def)
  show ?thesis
    by (simp add: completion_dispatch_def completion_destroy_def Let_def rel up bridge_dispatch_timers)
qed

lemma timers_ok_set:
  assumes "timers_ok s" and "timers s' = (timers s)[c := t]" and "tm_interval t \<le> 0x7FFFFFFF"
  shows "timers_ok s'"
  using assms by (auto simp: timers_ok_def dest!: set_update_subset_insert [THEN subsetD])

lemma timers_ok_cong: "timers s = timers s' \<Longrightarrow> timers_ok s = timers_ok s'"
  by (simp add: timers_ok_def)

lemma no_timer_ok [simp]: "tm_interval no_timer \<le> 0x7FFFFFFF"
  by (simp add: no_timer_def)

lemma timer_release_ok: "timers_ok s \<Longrightarrow> timers_ok (object_release timer_dispatch p s)"
proof -
  assume ok: "timers_ok s"
  have rel: "timers (object_release completion_dispatch p s) = timers s" for p and s :: "'a timers_st_scheme"
    by (rule release_frame) (simp_all add: completion_dispatch_timers)
  have "timers_ok (timer_destroy i s)" if "timers_ok s" for i and s :: "'a timers_st_scheme"
    using that by (auto simp: timer_destroy_def Let_def rel intro: timers_ok_set)
  then have disp: "timers_ok (timer_dispatch d i s)" if "timers_ok s" for d i and s :: "'a timers_st_scheme"
    using that by (simp add: timer_dispatch_def timers_ok_cong [OF completion_dispatch_timers])
  have upd: "timers_ok (obj_upd i f s) = timers_ok s" for i f and s :: "'a timers_st_scheme"
    by (rule timers_ok_cong) simp
  show ?thesis using ok by (simp add: object_release_def Let_def disp upd split: option.split)
qed

lemma timer_create_ok: "timers_ok s \<Longrightarrow> timers_ok (snd (timer_object_create s))"
proof -
  assume ok: "timers_ok s"
  have rel: "timers (object_release completion_dispatch p s) = timers s" for p and s :: "'a timers_st_scheme"
    by (rule release_frame) (simp_all add: completion_dispatch_timers)
  have oc: "timers s' = timers s" if "object_create a b d s = (r, s')" for a b d r and s s' :: "'a timers_st_scheme"
    using that create_frame [of timers a b d s] by simp
  have ec: "timers s' = timers s" if "event_create a b s = (r, s')" for a b r and s s' :: "'a timers_st_scheme"
    using that event_ops_timers(3) [of a b s] by simp
  show ?thesis
  proof (cases "first_index (\<lambda>st. \<not> tm_active st) (timers s)")
    case None
    with ok show ?thesis by (simp add: timer_object_create_def)
  next
    case (Some c)
    have c: "c < length (timers s)" using first_indexD [OF Some] by blast
    then have "tm_interval (timers s ! c) \<le> 0x7FFFFFFF" using ok by (simp add: timers_ok_def)
    with Some c show ?thesis
      by (auto simp: timer_object_create_def Let_def rel split: option.split prod.split
          dest!: oc ec intro!: timers_ok_set [OF ok])
  qed
qed

lemma timer_step_ok:
  assumes "timers_ok s"
  shows "\<exists>s'. timer_step op s = Some s' \<and> timers_ok s'"
proof (cases op)
  case Create
  then show ?thesis using timer_create_ok [OF assms] by (simp add: timer_step_def)
next
  case (Arm p deadline interval)
  then show ?thesis using assms
    by (auto simp: timer_step_def timer_object_arm_def Let_def not_less split: option.split intro: timers_ok_set)
next
  case (CancelTimer p)
  then show ?thesis using assms
    by (auto simp: timer_step_def timer_object_cancel_def Let_def split: option.split intro: timers_ok_set)
next
  case (Release p)
  then show ?thesis using timer_release_ok [OF assms] by (simp add: timer_step_def)
next
  case (Tick now)
  from timer_object_tick_fire [OF assms, of now] obtain s' where
    "timer_object_tick now s = Some s'" "timers s' = map (fire now) (timers s)" by auto
  with Tick assms show ?thesis by (simp add: timer_step_def timers_ok_def fire_ok)
qed

lemma timer_run_ok: "timers_ok s \<Longrightarrow> \<exists>s'. timer_run ops s = Some s' \<and> timers_ok s'"
proof (induction ops arbitrary: s)
  case (Cons op ops)
  from timer_step_ok [OF Cons.prems, of op] Cons.IH show ?case by fastforce
qed simp

lemma timer_init_ok: "timers_ok (timer_object_init s)"
  by (simp add: timers_ok_def timer_object_init_def)

section \<open>Properties\<close>

text \<open>
  C22. The clock interrupt cannot hang in a timer: from boot, after any sequence of creating,
  arming with any deadline and interval, cancelling, releasing and ticking, a further tick
  returns, and it does to every timer what the closed form says: the loop that adds the
  interval until the deadline is in the future amounts to one division.
\<close>

theorem timer_tick_returns:
  "\<exists>s' s''. timer_run ops (timer_object_init s) = Some s' \<and> timer_object_tick now s' = Some s''
     \<and> timers s'' = map (fire now) (timers s')"
proof -
  obtain s' where s': "timer_run ops (timer_object_init s) = Some s'" "timers_ok s'"
    using timer_run_ok [OF timer_init_ok] by blast
  with timer_object_tick_fire [OF s'(2), of now] show ?thesis by blast
qed

text \<open>
  C23. A periodic timer keeps its phase and skips the periods it missed: when it is due, the
  tick moves its deadline to the first multiple of the interval after the present, at least
  one tick and at most one interval ahead, even where the 32-bit clock wraps around.
\<close>

theorem timer_next_deadline:
  assumes "timers_ok s" and "c < TIMER_OBJECT_MAX" and "t = timers s ! c"
    and "tm_active t" and "tm_armed t" and "\<not> not_due now (tm_deadline t)" and "tm_interval t \<noteq> 0"
    and "timer_object_tick now s = Some s'"
  shows "tm_armed (timers s' ! c) \<and> 0 < unat (tm_deadline (timers s' ! c) - now)
    \<and> unat (tm_deadline (timers s' ! c) - now) \<le> unat (tm_interval t)
    \<and> (\<exists>k. tm_deadline (timers s' ! c) = tm_deadline t + of_nat k * tm_interval t)"
proof -
  have "timers s' = map (fire now) (timers s)" using timer_object_tick_fire [OF assms(1), of now] assms(8) by auto
  then have at: "timers s' ! c = fire now t" using assms(1,2,3) by (simp add: timers_ok_def)
  have "tm_interval t \<le> 0x7FFFFFFF" using assms(1,2,3) by (simp add: timers_ok_def)
  with fire_next [OF assms(4,5,6,7)] have "0 < unat (tm_deadline (fire now t) - now)
      \<and> unat (tm_deadline (fire now t) - now) \<le> unat (tm_interval t)" by simp
  moreover have "tm_armed (fire now t)"
    "\<exists>k. tm_deadline (fire now t) = tm_deadline t + of_nat k * tm_interval t"
    using assms(4-7) by (auto simp: fire_def simp del: of_nat_Suc of_nat_add)
  ultimately show ?thesis unfolding at by blast
qed

section \<open>Witnesses\<close>

definition timer_boot :: timers_st where
  "timer_boot = the (timer_run [Create, Arm (Some 1) 0xFFFFFFF0 7] (timer_object_init
     (event_init (object_init \<lparr>task_pool = replicate MAX_TASKS zero_task, task_pool_count = 3,
       task_result = (\<lambda>_. None), objects = [], handles = [], events = [], wait_sets = [], wait_counts = [],
       wait_deadlines = [], wait_timed = [], endpoints = [], bridges = [], completions = [], timers = []\<rparr>))))"

theorem timer_next_deadline_witness:
  "\<exists>s'. timer_object_tick 3 timer_boot = Some s' \<and> 0 < unat (tm_deadline (timers s' ! 0) - 3)
     \<and> unat (tm_deadline (timers s' ! 0) - 3) \<le> 7"
proof -
  have ok: "timers_ok timer_boot" by code_simp
  then obtain s' where t: "timer_object_tick 3 timer_boot = Some s'" using timer_object_tick_fire by blast
  have "tm_active (timers timer_boot ! 0)" "tm_armed (timers timer_boot ! 0)"
    "\<not> not_due 3 (tm_deadline (timers timer_boot ! 0))" "tm_interval (timers timer_boot ! 0) = 7"
    by code_simp+
  with timer_next_deadline [OF ok _ refl _ _ _ _ t, of 0] t show ?thesis by (simp add: TIMER_OBJECT_MAX_def)
qed

end
