(* ===== verification/Capabilities.thy ===== *)
theory Capabilities
  imports Timers
begin

text \<open>
  The capability system with its callbacks in place: handles, rights, reference counts and
  revocation of \<^verbatim>\<open>src/objects/object.c\<close> over the destroy callbacks of events, endpoints,
  completion queues and timers. The general lemmas are those of \<open>destroy_contract\<close> and
  \<open>leaf_destroy\<close>; this theory takes them from the interpretations of the dispatchers.
\<close>

section \<open>Properties\<close>

text \<open>
  C1. A closed handle is dead. From a fresh object table, after any handles have been opened,
  duplicated and closed and objects created and released, closing a handle makes its value
  useless to the task that had it: no lookup accepts it, whatever follows, until the slot has
  been closed as often as there are 24-bit generations.
\<close>

theorem closed_handle_refused:
  fixes b :: "'a timers_st_scheme"
  assumes "table_run handle_alloc (handle_free timer_dispatch) (object_op timer_dispatch) before (object_init b) = (gs0, rs0, s)"
    and "handle_close timer_dispatch (Some t) h s = (0, s')"
    and "table_run handle_alloc (handle_free timer_dispatch) (object_op timer_dispatch) after s' = (gs, rs, u)"
    and "count_if (\<lambda>y. handle_slot_no y = handle_slot_no (t, h)) rs < 2 ^ 24 - 2"
  shows "handle_get (Some t) h rights type u = None \<and> fst (handle_close timer_dispatch (Some t) h u) = -1"
proof -
  have "handles_ok (object_init b)" using object_init_refs [of b] by (simp add: refs_ok_def)
  then have ok: "handles_ok s" using assms(1) by (rule tmr.ht.table_run_invar)
  have "handle_free timer_dispatch (t, h) s = Some s'" using assms(2) by (simp add: handle_free_def)
  from tmr.ht.stale_id_stays_dead [OF ok this assms(3,4)] have "handle_slot_for (Some t) h u = None"
    unfolding live_handles_def by blast
  then show ?thesis by (simp add: handle_get_def handle_close_def)
qed

text \<open>
  C8. Rights are confined. However tasks duplicate, pass and close their handles, every right
  a handle carries to an object goes back to a handle that carried it to the same object
  before, either the same slot or one with the right to transfer.
\<close>

theorem rights_confined:
  fixes s :: "'a timers_st_scheme"
  assumes "handles_ok s" and "holds_right (cap_run timer_dispatch ops s) t i ob q"
  shows "\<exists>t0 i0 r0. holds_right s t0 i0 ob r0 \<and> q AND NOT r0 = 0
    \<and> ((t0, i0) = (t, i) \<or> r0 AND KRIGHT_TRANSFER \<noteq> 0)"
  using tmr.cap_run_confined [OF assms(1)] assms(2) by blast


text \<open>
  C15. Revocation is complete and ends. The sweep over the handle tables returns, answers how
  many handles the object had, leaves none, and every handle to another object keeps its slot
  and its rights.
\<close>

theorem revoke_complete:
  fixes s :: "'a timers_st_scheme"
  assumes "handles_ok s"
  shows "\<exists>s'. revoke_sweep timer_dispatch ob 0 s = Some (of_nat (handle_refs ob s), s')
    \<and> handle_refs ob s' = 0
    \<and> (\<forall>t i k q. k \<noteq> ob \<longrightarrow> holds_right s' t i k q = holds_right s t i k q)"
  using tmr.revoke_sweep_spec [OF assms, of ob 0] by auto

section \<open>Witnesses\<close>

text \<open>Task 2 holds a handle to object 0, with the right to read and to transfer it.\<close>

definition cap_empty :: timers_st where
  "cap_empty = \<lparr>task_pool = replicate MAX_TASKS zero_task, task_pool_count = 4,
     task_result = (\<lambda>_. None), objects = [], handles = [], events = [], wait_sets = [], wait_counts = [],
     wait_deadlines = [], wait_timed = [], endpoints = [], bridges = [], completions = [], timers = []\<rparr>"

definition cap_start :: "(handle_request, nat \<times> u32, object_touch) table_op list" where
  "cap_start = [Touch (Create_obj KOBJECT_PAGE 0 None), Alloc (Open_req 2 0 0x41)]"

definition cap_open :: timers_st where
  "cap_open = snd (snd (table_run handle_alloc (handle_free timer_dispatch) (object_op timer_dispatch)
     cap_start (object_init cap_empty)))"

definition cap_closed :: timers_st where
  "cap_closed = snd (handle_close timer_dispatch (Some 2) 0x101 cap_open)"

lemma cap_open_run:
  "\<exists>gs rs. table_run handle_alloc (handle_free timer_dispatch) (object_op timer_dispatch)
     cap_start (object_init cap_empty) = (gs, rs, cap_open)"
  unfolding cap_open_def by (metis prod.collapse)

lemma cap_open_ok: "handles_ok cap_open"
proof -
  have "handles_ok (object_init cap_empty)" using object_init_refs [of cap_empty] by (simp add: refs_ok_def)
  with cap_open_run show ?thesis using tmr.ht.table_run_invar by blast
qed

lemma cap_open_shape:
  "fst (handle_close timer_dispatch (Some 2) 0x101 cap_open) = 0" "handle_get (Some 2) 0x101 1 KOBJECT_PAGE cap_open = Some 0"
  "handle_refs 0 cap_open = 1" "hs_object (handles cap_open ! 3 ! 0) = None" "holds_right cap_open 2 0 0 0x41"
  "holds_right (cap_run timer_dispatch [Cap_dup 2 3 0x101 1] cap_open) 3 0 0 1"
  by code_simp+

theorem closed_handle_refused_witness:
  "handle_get (Some 2) 0x101 1 KOBJECT_PAGE cap_open = Some 0 \<and> handle_get (Some 2) 0x101 1 KOBJECT_PAGE cap_closed = None"
proof -
  obtain gs rs where r: "table_run handle_alloc (handle_free timer_dispatch) (object_op timer_dispatch)
      cap_start (object_init cap_empty) = (gs, rs, cap_open)" using cap_open_run by blast
  have c: "handle_close timer_dispatch (Some 2) 0x101 cap_open = (0, cap_closed)"
    using cap_open_shape(1) by (simp add: cap_closed_def prod_eq_iff)
  have n: "table_run handle_alloc (handle_free timer_dispatch) (object_op timer_dispatch) [] cap_closed = ([], [], cap_closed)"
    by simp
  from closed_handle_refused [OF r c n, of 1 KOBJECT_PAGE] show ?thesis by (simp add: cap_open_shape)
qed

theorem rights_confined_witness:
  "\<exists>t0 i0 r0. holds_right cap_open t0 i0 0 r0 \<and> r0 AND KRIGHT_TRANSFER \<noteq> 0"
proof -
  have "\<not> holds_right cap_open 3 0 0 r" for r
    by (simp add: holds_right_def cap_open_shape)
  with rights_confined [OF cap_open_ok cap_open_shape(6)] show ?thesis by auto
qed


theorem revoke_complete_witness:
  "\<exists>s'. revoke_sweep timer_dispatch 0 0 cap_open = Some (1, s') \<and> handle_refs 0 s' = 0"
  using revoke_complete [OF cap_open_ok, of 0] by (auto simp: cap_open_shape)

end
