(* ===== verification/Routes.thy ===== *)
theory Routes
  imports Prelude
begin

text \<open>
  The IPv4 routing table, \<^verbatim>\<open>src/net/route.c\<close>: 32 entries, added, removed and dropped with
  their interface, and the lookup. The table is shown to behave as a set of routes, and the
  lookup to be longest-prefix match with the metric as the tie breaker.
\<close>

section \<open>The table\<close>

definition ROUTE_MAX :: nat where "ROUTE_MAX = 32"

record route_entry =
  re_network :: u32
  re_netmask :: u32
  re_gateway :: u32
  re_interface_id :: u32
  re_interface_generation :: u32
  re_metric :: u32
  re_prefix_length :: nat
  re_active :: bool

record route_table =
  rt_entries :: "route_entry list"
  rt_count :: nat

text \<open>
  The loop that counts the leading ones of a mask. It ends because each round takes one bit
  out of the word.
\<close>

lemma card_bits_shift:
  assumes "bit (w :: u32) 31"
  shows "card {n. bit (push_bit 1 w) n} < card {n. bit w n}"
proof -
  have fin: "finite {n. bit w n}" by (rule finite_subset [of _ "{..<32}"]) (auto dest: bit_imp_le_length)
  have "{n. bit (push_bit 1 w) n} \<subseteq> Suc ` ({n. bit w n} - {31})"
  proof
    fix n assume "n \<in> {n. bit (push_bit 1 w) n}"
    then have "1 \<le> n \<and> n < 32 \<and> bit w (n - 1)"
      by (simp only: mem_Collect_eq bit_push_bit_iff) (simp add: possible_bit_def)
    then have "0 < n" "n < 32" "bit w (n - 1)" by simp_all
    then show "n \<in> Suc ` ({n. bit w n} - {31})" by (intro image_eqI [of _ _ "n - 1"]) auto
  qed
  then have "card {n. bit (push_bit 1 w) n} \<le> card ({n. bit w n} - {31})"
    using fin by (metis card_image_le card_mono finite_Diff finite_imageI le_trans)
  also have "\<dots> < card {n. bit w n}" using fin assms by (intro card_Diff1_less) auto
  finally show ?thesis .
qed

function count_leading :: "u32 \<Rightarrow> nat \<Rightarrow> nat" where
  "count_leading netmask count =
     (if bit netmask 31 then count_leading (push_bit 1 netmask) (count + 1) else count)"
  by auto
termination
  by (relation "measure (\<lambda>(w, _). card {n. bit w n})") (use card_bits_shift in auto)

declare count_leading.simps [simp del]

definition netmask_prefix :: "u32 \<Rightarrow> nat option" where
  "netmask_prefix netmask =
     (let inverse = NOT netmask in
      if inverse AND (inverse + 1) \<noteq> 0 then None else Some (count_leading netmask 0))"

definition no_route :: route_entry where
  "no_route = \<lparr>re_network = 0, re_netmask = 0, re_gateway = 0, re_interface_id = 0, re_interface_generation = 0,
     re_metric = 0, re_prefix_length = 0, re_active = False\<rparr>"

definition route_init :: route_table where
  "route_init = \<lparr>rt_entries = replicate ROUTE_MAX no_route, rt_count = 0\<rparr>"

definition route_is :: "u32 \<Rightarrow> u32 \<Rightarrow> u32 \<Rightarrow> route_entry \<Rightarrow> bool" where
  "route_is network netmask interface_id e \<longleftrightarrow> re_active e \<and> re_network e = network \<and> re_netmask e = netmask
     \<and> re_interface_id e = interface_id"

definition route_add_generation :: "u32 \<Rightarrow> u32 \<Rightarrow> u32 \<Rightarrow> u32 \<Rightarrow> u32 \<Rightarrow> u32 \<Rightarrow> route_table \<Rightarrow> int \<times> route_table" where
  "route_add_generation network netmask gateway interface_id interface_generation metric t =
     (if interface_id = 0 then (-1, t)
      else case netmask_prefix netmask of
        None \<Rightarrow> (-1, t)
      | Some prefix \<Rightarrow>
          if network \<noteq> network AND netmask then (-1, t)
          else if first_index (route_is network netmask interface_id) (rt_entries t) \<noteq> None then (-1, t)
          else case first_index (\<lambda>e. \<not> re_active e) (rt_entries t) of
                 None \<Rightarrow> (-1, t)
               | Some index \<Rightarrow>
                   (0, t\<lparr>rt_entries := (rt_entries t)[index := \<lparr>re_network = network, re_netmask = netmask,
                           re_gateway = gateway, re_interface_id = interface_id,
                           re_interface_generation = interface_generation, re_metric = metric,
                           re_prefix_length = prefix, re_active = True\<rparr>],
                         rt_count := rt_count t + 1\<rparr>))"

definition route_add :: "u32 \<Rightarrow> u32 \<Rightarrow> u32 \<Rightarrow> u32 \<Rightarrow> u32 \<Rightarrow> route_table \<Rightarrow> int \<times> route_table" where
  "route_add network netmask gateway interface_id metric t =
     route_add_generation network netmask gateway interface_id 0 metric t"

definition route_remove :: "u32 \<Rightarrow> u32 \<Rightarrow> u32 \<Rightarrow> route_table \<Rightarrow> int \<times> route_table" where
  "route_remove network netmask interface_id t =
     (if interface_id = 0 then (-1, t)
      else case first_index (route_is network netmask interface_id) (rt_entries t) of
             None \<Rightarrow> (-1, t)
           | Some index \<Rightarrow> (0, t\<lparr>rt_entries := (rt_entries t)[index := no_route], rt_count := rt_count t - 1\<rparr>))"

definition route_matches :: "u32 \<Rightarrow> route_entry \<Rightarrow> bool" where
  "route_matches destination e \<longleftrightarrow> re_active e \<and> destination AND re_netmask e = re_network e"

definition better :: "route_entry \<Rightarrow> route_entry \<Rightarrow> bool" where
  "better e best \<longleftrightarrow> re_prefix_length best < re_prefix_length e
     \<or> (re_prefix_length e = re_prefix_length best \<and> re_metric e < re_metric best)"

definition consider_route :: "u32 \<Rightarrow> route_entry \<Rightarrow> route_entry option \<Rightarrow> route_entry option" where
  "consider_route destination e best =
     (if \<not> route_matches destination e then best
      else case best of None \<Rightarrow> Some e | Some b \<Rightarrow> if better e b then Some e else best)"

definition route_lookup :: "u32 \<Rightarrow> route_table \<Rightarrow> route_entry option" where
  "route_lookup destination t = fold (consider_route destination) (rt_entries t) None"

definition route_of_interface :: "u32 \<Rightarrow> u32 \<Rightarrow> route_entry \<Rightarrow> bool" where
  "route_of_interface interface_id generation e \<longleftrightarrow> re_active e \<and> re_interface_id e = interface_id
     \<and> (generation = 0 \<or> re_interface_generation e = generation)"

fun deactivate_entries :: "u32 \<Rightarrow> u32 \<Rightarrow> route_entry list \<Rightarrow> nat \<Rightarrow> nat \<Rightarrow> nat \<times> nat \<times> route_entry list" where
  "deactivate_entries interface_id generation [] count removed = (count, removed, [])"
| "deactivate_entries interface_id generation (e # es) count removed =
     (if route_of_interface interface_id generation e
      then case deactivate_entries interface_id generation es (count - 1) (removed + 1) of
             (c, r, es') \<Rightarrow> (c, r, e\<lparr>re_active := False\<rparr> # es')
      else case deactivate_entries interface_id generation es count removed of
             (c, r, es') \<Rightarrow> (c, r, e # es'))"

definition route_deactivate_interface :: "u32 \<Rightarrow> u32 \<Rightarrow> route_table \<Rightarrow> nat \<times> route_table" where
  "route_deactivate_interface interface_id generation t =
     (if interface_id = 0 then (0, t)
      else case deactivate_entries interface_id generation (rt_entries t) (rt_count t) 0 of
             (c, r, es) \<Rightarrow> (r, t\<lparr>rt_entries := es, rt_count := c\<rparr>))"

definition route_count :: "route_table \<Rightarrow> nat" where
  "route_count t = rt_count t"

definition route_available :: "route_table \<Rightarrow> nat" where
  "route_available t = count_if (\<lambda>e. \<not> re_active e) (rt_entries t)"

section \<open>Masks\<close>

text \<open>A number and its successor share no bit exactly when the number is all ones.\<close>

lemma and_succ_zero: "(n :: nat) AND (n + 1) = 0 \<Longrightarrow> \<exists>k. n + 1 = 2 ^ k"
proof (induction n rule: less_induct)
  case (less n)
  show ?case
  proof (cases "even n")
    case True
    then obtain y where n: "n = 2 * y" by blast
    have "bit y k = bit (n AND (n + 1)) (Suc k)" for k
      by (simp only: bit_and_iff) (simp add: n bit_Suc)
    then have "y = 0" using less.prems by (auto intro: bit_eqI)
    then show ?thesis by (auto simp: n intro: exI [of _ 0])
  next
    case False
    then obtain y where n: "n = 2 * y + 1" using oddE by blast
    have "bit (y AND (y + 1)) k = bit (n AND (n + 1)) (Suc k)" for k
      by (simp only: bit_and_iff) (simp add: n bit_Suc)
    then have "y AND (y + 1) = 0" using less.prems by (auto intro: bit_eqI)
    moreover have "y < n" using n by simp
    ultimately obtain k where "y + 1 = 2 ^ k" using less.IH by blast
    then have "n + 1 = 2 ^ Suc k" using n by simp
    then show ?thesis by blast
  qed
qed

lemma word_and_succ_zero:
  assumes "(w :: u32) AND (w + 1) = 0"
  shows "\<exists>k \<le> 32. w = mask k"
proof (cases "w + 1 = 0")
  case True
  then have "w = -1" by (simp only: eq_neg_iff_add_eq_0)
  also have "\<dots> = mask 32" by (rule bit_word_eqI) (simp add: bit_mask_iff)
  finally have "w = mask 32" .
  then show ?thesis by blast
next
  case False
  then have s: "unat (w + 1) = unat w + 1"
    by (metis add.commute plus_1_eq_Suc unatSuc)
  have "unat w AND (unat w + 1) = 0"
    using arg_cong [OF assms, of unat] by (simp add: s unsigned_and_eq)
  then obtain k where k: "unat w + 1 = 2 ^ k" using and_succ_zero by blast
  have "unat w < 2 ^ 32" using unsigned_less [of w] by simp
  then have "(2::nat) ^ k \<le> 2 ^ 32" using k by linarith
  then have "k \<le> 32" by (rule power_le_imp_le_exp [rotated]) simp
  moreover have "w = mask k"
  proof -
    have "unat w = 2 ^ k - 1" using k by simp
    moreover have "w = of_nat (unat w)" by simp
    ultimately have "w = of_nat (2 ^ k - 1)" by metis
    then show ?thesis by (simp add: mask_eq_exp_minus_1 of_nat_diff)
  qed
  ultimately show ?thesis by blast
qed

lemma count_leading_mask: "n \<le> 32 \<Longrightarrow> count_leading (NOT (mask (32 - n))) c = c + n"
proof (induction n arbitrary: c)
  case 0
  then show ?case by (subst count_leading.simps) (simp add: bit_simps)
next
  case (Suc n)
  have "push_bit 1 (NOT (mask (32 - Suc n))) = (NOT (mask (32 - n)) :: u32)"
  proof (rule bit_word_eqI)
    fix k assume "k < LENGTH(32)"
    then show "bit (push_bit 1 (NOT (mask (32 - Suc n))) :: u32) k = bit (NOT (mask (32 - n)) :: u32) k"
      using Suc.prems by (simp only: bit_push_bit_iff) (auto simp: bit_simps possible_bit_def)
  qed
  moreover have "bit (NOT (mask (32 - Suc n)) :: u32) 31" using Suc.prems by (simp add: bit_simps)
  ultimately show ?case using Suc by (subst count_leading.simps) simp
qed

text \<open>The masks the table accepts are the contiguous ones, and the prefix length is theirs.\<close>

lemma netmask_prefix_Some: "netmask_prefix m = Some n \<longleftrightarrow> n \<le> 32 \<and> m = NOT (mask (32 - n))"
proof
  assume l: "netmask_prefix m = Some n"
  then have "NOT m AND (NOT m + 1) = 0" by (simp add: netmask_prefix_def Let_def split: if_splits)
  then obtain k where k: "k \<le> 32" "NOT m = mask k" using word_and_succ_zero by blast
  then have m: "m = NOT (mask (32 - (32 - k)))" by (metis bit.double_compl diff_diff_cancel)
  have "n = count_leading m 0" using l by (simp add: netmask_prefix_def Let_def split: if_splits)
  then have "n = 32 - k" using count_leading_mask [of "32 - k" 0] m by simp
  with k m show "n \<le> 32 \<and> m = NOT (mask (32 - n))" by simp
next
  assume r: "n \<le> 32 \<and> m = NOT (mask (32 - n))"
  have "mask (32 - n) AND (mask (32 - n) + 1) = (0 :: u32)"
    by (rule bit_word_eqI) (simp add: inc_mask_eq_exp bit_simps)
  then show "netmask_prefix m = Some n"
    using r count_leading_mask [of n 0] by (simp add: netmask_prefix_def Let_def)
qed

text \<open>The mask comparison of the lookup is a comparison of the leading \<open>n\<close> bits.\<close>

lemma masked_eq_iff:
  assumes "n \<le> 32" and "network AND NOT (mask (32 - n)) = (network :: u32)"
  shows "destination AND NOT (mask (32 - n)) = network \<longleftrightarrow> drop_bit (32 - n) destination = drop_bit (32 - n) network"
proof -
  have "destination AND NOT (mask (32 - n)) = network
      \<longleftrightarrow> destination AND NOT (mask (32 - n)) = network AND NOT (mask (32 - n))" using assms(2) by simp
  also have "\<dots> \<longleftrightarrow> (\<forall>k. 32 - n \<le> k \<and> k < 32 \<longrightarrow> bit destination k = bit network k)"
    by (auto simp: bit_eq_iff bit_simps)
  also have "\<dots> \<longleftrightarrow> drop_bit (32 - n) destination = drop_bit (32 - n) network"
  proof
    assume h: "\<forall>k. 32 - n \<le> k \<and> k < 32 \<longrightarrow> bit destination k = bit network k"
    show "drop_bit (32 - n) destination = drop_bit (32 - n) network"
    proof (rule bit_word_eqI)
      fix k assume "k < LENGTH(32)"
      show "bit (drop_bit (32 - n) destination) k = bit (drop_bit (32 - n) network) k"
        using h [rule_format, of "32 - n + k"] bit_imp_le_length [of destination "32 - n + k"]
          bit_imp_le_length [of network "32 - n + k"] by (auto simp: bit_drop_bit_eq)
    qed
  next
    assume eq: "drop_bit (32 - n) destination = drop_bit (32 - n) network"
    show "\<forall>k. 32 - n \<le> k \<and> k < 32 \<longrightarrow> bit destination k = bit network k"
    proof (intro allI impI)
      fix k assume k: "32 - n \<le> k \<and> k < 32"
      have "bit (drop_bit (32 - n) destination) (k - (32 - n)) = bit (drop_bit (32 - n) network) (k - (32 - n))"
        using eq by simp
      with k show "bit destination k = bit network k" by (simp add: bit_drop_bit_eq)
    qed
  qed
  finally show ?thesis .
qed

section \<open>The table as a set of routes\<close>

record route =
  r_network :: u32
  r_prefix :: nat
  r_gateway :: u32
  r_interface :: u32
  r_generation :: u32
  r_metric :: u32

definition route_of :: "route_entry \<Rightarrow> route" where
  "route_of e = \<lparr>r_network = re_network e, r_prefix = re_prefix_length e, r_gateway = re_gateway e,
     r_interface = re_interface_id e, r_generation = re_interface_generation e, r_metric = re_metric e\<rparr>"

definition routes :: "route_table \<Rightarrow> route set" where
  "routes t = route_of ` {e \<in> set (rt_entries t). re_active e}"

definition entry_ok :: "route_entry \<Rightarrow> bool" where
  "entry_ok e \<longleftrightarrow> re_active e \<longrightarrow> netmask_prefix (re_netmask e) = Some (re_prefix_length e)
     \<and> re_network e AND re_netmask e = re_network e \<and> re_interface_id e \<noteq> 0"

definition same_key :: "route_entry \<Rightarrow> route_entry \<Rightarrow> bool" where
  "same_key e e' \<longleftrightarrow> re_network e = re_network e' \<and> re_netmask e = re_netmask e' \<and> re_interface_id e = re_interface_id e'"

definition table_ok :: "route_table \<Rightarrow> bool" where
  "table_ok t \<longleftrightarrow> length (rt_entries t) = ROUTE_MAX \<and> rt_count t = count_if re_active (rt_entries t)
     \<and> (\<forall>e \<in> set (rt_entries t). entry_ok e)
     \<and> (\<forall>i < ROUTE_MAX. \<forall>j < ROUTE_MAX. re_active (rt_entries t ! i) \<and> re_active (rt_entries t ! j)
          \<and> same_key (rt_entries t ! i) (rt_entries t ! j) \<longrightarrow> i = j)"

text \<open>What a set of routes promises: the key is the network, its length and the interface.\<close>

definition key_of :: "route \<Rightarrow> u32 \<times> nat \<times> u32" where
  "key_of r = (r_network r, r_prefix r, r_interface r)"

definition spec_add :: "route \<Rightarrow> route set \<Rightarrow> int \<times> route set" where
  "spec_add r R = (if r_interface r \<noteq> 0 \<and> r_prefix r \<le> 32 \<and> take_bit (32 - r_prefix r) (r_network r) = 0
       \<and> key_of r \<notin> key_of ` R \<and> card R < ROUTE_MAX
     then (0, insert r R) else (-1, R))"

definition spec_remove :: "u32 \<times> nat \<times> u32 \<Rightarrow> route set \<Rightarrow> int \<times> route set" where
  "spec_remove k R = (if k \<in> key_of ` R then (0, {r \<in> R. key_of r \<noteq> k}) else (-1, R))"

definition spec_deactivate :: "u32 \<Rightarrow> u32 \<Rightarrow> route set \<Rightarrow> nat \<times> route set" where
  "spec_deactivate interface_id generation R =
     (let G = {r \<in> R. interface_id \<noteq> 0 \<and> r_interface r = interface_id \<and> (generation = 0 \<or> r_generation r = generation)}
      in (card G, R - G))"

lemma mask_inj: "n \<le> 32 \<Longrightarrow> n' \<le> 32 \<Longrightarrow> (mask (32 - n) :: u32) = mask (32 - n') \<longleftrightarrow> n = n'"
  using netmask_prefix_Some by (metis option.inject)

lemma masked_network: "network AND NOT (mask k) = (network :: u32) \<longleftrightarrow> take_bit k network = 0"
  by (auto simp: bit_eq_iff bit_simps)

lemma same_key_route:
  assumes "entry_ok e" "entry_ok e'" "re_active e" "re_active e'"
  shows "same_key e e' \<longleftrightarrow> key_of (route_of e) = key_of (route_of e')"
  using assms by (auto simp: entry_ok_def same_key_def key_of_def route_of_def netmask_prefix_Some mask_inj)

lemma entry_okD:
  assumes "table_ok t" and "i < ROUTE_MAX"
  shows "entry_ok (rt_entries t ! i)"
  using assms by (simp add: table_ok_def)

lemma routes_card:
  assumes "table_ok t"
  shows "card (routes t) = count_if re_active (rt_entries t)"
proof -
  let ?A = "{i. i < ROUTE_MAX \<and> re_active (rt_entries t ! i)}" and ?f = "\<lambda>i. route_of (rt_entries t ! i)"
  have len: "length (rt_entries t) = ROUTE_MAX" using assms by (simp add: table_ok_def)
  have "routes t = ?f ` ?A" by (auto simp: routes_def len [symmetric] in_set_conv_nth)
  moreover have "inj_on ?f ?A"
  proof (rule inj_onI)
    fix i j assume ij: "i \<in> ?A" "j \<in> ?A" and "?f i = ?f j"
    then have "same_key (rt_entries t ! i) (rt_entries t ! j)"
      using same_key_route [of "rt_entries t ! i" "rt_entries t ! j"] entry_okD [OF assms] by simp
    then show "i = j" using assms ij by (simp add: table_ok_def)
  qed
  ultimately show ?thesis
    by (simp add: card_image count_if_def length_filter_conv_card len)
qed

lemma routes_finite: "finite (routes t)"
  by (simp add: routes_def)

lemma key_in_routes:
  assumes ok: "table_ok t" and p: "netmask_prefix netmask = Some n"
  shows "first_index (route_is network netmask iface) (rt_entries t) = None
    \<longleftrightarrow> (network, n, iface) \<notin> key_of ` routes t"
proof -
  have "route_is network netmask iface e \<longleftrightarrow> re_active e \<and> key_of (route_of e) = (network, n, iface)"
    if "e \<in> set (rt_entries t)" for e
  proof -
    have "entry_ok e" using ok that by (simp add: table_ok_def)
    then show ?thesis using p
      by (auto simp: route_is_def key_of_def route_of_def entry_ok_def netmask_prefix_Some mask_inj)
  qed
  then show ?thesis by (auto simp: first_index_None routes_def image_iff)
qed

text \<open>Writing one slot of the table.\<close>

lemma routes_set:
  assumes ok: "table_ok t" and i: "i < ROUTE_MAX" and e: "entry_ok e"
    and uniq: "re_active e \<Longrightarrow> \<not> re_active (rt_entries t ! i) \<and> key_of (route_of e) \<notin> key_of ` routes t"
    and t': "t' = t\<lparr>rt_entries := (rt_entries t)[i := e], rt_count := c\<rparr>"
    and c: "c = count_if re_active ((rt_entries t)[i := e])"
  shows "table_ok t'"
    and "routes t' = (if re_active e then insert (route_of e) (routes t) else {r \<in> routes t.
      \<not> (re_active (rt_entries t ! i) \<and> r = route_of (rt_entries t ! i))})"
proof -
  have len: "length (rt_entries t) = ROUTE_MAX" using ok by (simp add: table_ok_def)
  have inj: "a = b" if "a < ROUTE_MAX" "b < ROUTE_MAX" "re_active (rt_entries t ! a)" "re_active (rt_entries t ! b)"
    "key_of (route_of (rt_entries t ! a)) = key_of (route_of (rt_entries t ! b))" for a b
    using ok that same_key_route entry_okD [OF ok] unfolding table_ok_def by blast
  have nth: "rt_entries t' ! k = (if k = i then e else rt_entries t ! k)" if "k < ROUTE_MAX" for k
    using that len by (simp add: t' nth_list_update)
  have ok': "entry_ok (rt_entries t' ! k)" if "k < ROUTE_MAX" for k
    using nth [OF that] e entry_okD [OF ok that] by simp
  have mem: "key_of (route_of (rt_entries t ! k)) \<in> key_of ` routes t"
    if "k < ROUTE_MAX" "re_active (rt_entries t ! k)" for k
    using that len by (auto simp: routes_def)
  have "a = b" if "a < ROUTE_MAX" "b < ROUTE_MAX" "re_active (rt_entries t' ! a)" "re_active (rt_entries t' ! b)"
    "same_key (rt_entries t' ! a) (rt_entries t' ! b)" for a b
  proof -
    have "key_of (route_of (rt_entries t' ! a)) = key_of (route_of (rt_entries t' ! b))"
      using same_key_route ok' that by blast
    with that nth inj uniq mem show ?thesis by (metis (full_types))
  qed
  then show "table_ok t'"
    unfolding table_ok_def using len c ok' by (auto simp: t' in_set_conv_nth)
  have rt: "routes u = (\<lambda>k. route_of (rt_entries u ! k)) ` {k. k < ROUTE_MAX \<and> re_active (rt_entries u ! k)}"
    if "length (rt_entries u) = ROUTE_MAX" for u
    using that by (auto simp: routes_def in_set_conv_nth)
  have len': "length (rt_entries t') = ROUTE_MAX" using len by (simp add: t')
  show "routes t' = (if re_active e then insert (route_of e) (routes t) else {r \<in> routes t.
      \<not> (re_active (rt_entries t ! i) \<and> r = route_of (rt_entries t ! i))})"
  proof (cases "re_active e")
    case True
    then show ?thesis unfolding rt [OF len'] rt [OF len]
      using i nth uniq by (auto simp: image_iff split: if_splits) (metis (full_types))+
  next
    case False
    then show ?thesis unfolding rt [OF len'] rt [OF len]
      using i nth inj by (auto simp: image_iff split: if_splits) (metis (full_types))+
  qed
qed

lemma route_add_refines:
  assumes ok: "table_ok t" and p: "netmask_prefix netmask = Some n"
    and add: "route_add_generation network netmask gateway iface generation metric t = (r, t')"
  shows "table_ok t'" and "spec_add \<lparr>r_network = network, r_prefix = n, r_gateway = gateway, r_interface = iface,
      r_generation = generation, r_metric = metric\<rparr> (routes t) = (r, routes t')"
proof -
  let ?r = "\<lparr>r_network = network, r_prefix = n, r_gateway = gateway, r_interface = iface, r_generation = generation,
      r_metric = metric\<rparr>"
  let ?e = "\<lparr>re_network = network, re_netmask = netmask, re_gateway = gateway, re_interface_id = iface,
      re_interface_generation = generation, re_metric = metric, re_prefix_length = n, re_active = True\<rparr>"
  have n: "n \<le> 32" "netmask = NOT (mask (32 - n))" using p by (simp_all add: netmask_prefix_Some)
  have net: "network = network AND netmask \<longleftrightarrow> take_bit (32 - n) network = 0"
    using masked_network [of network "32 - n"] n(2) by metis
  have len: "length (rt_entries t) = ROUTE_MAX" and cnt: "rt_count t = count_if re_active (rt_entries t)"
    using ok by (simp_all add: table_ok_def)
  have room: "first_index (\<lambda>e. \<not> re_active e) (rt_entries t) = None \<longleftrightarrow> \<not> card (routes t) < ROUTE_MAX"
  proof -
    have "count_if re_active (rt_entries t) = ROUTE_MAX \<longleftrightarrow> (\<forall>e \<in> set (rt_entries t). re_active e)"
      using len by (metis count_if_def filter_True length_filter_less linorder_not_less order_refl)
    then show ?thesis
      using routes_card [OF ok] count_if_le_length [of re_active "rt_entries t"] len by (auto simp: first_index_None)
  qed
  have "table_ok t' \<and> spec_add ?r (routes t) = (r, routes t')"
  proof (cases "iface \<noteq> 0 \<and> network = network AND netmask
      \<and> first_index (route_is network netmask iface) (rt_entries t) = None \<and> card (routes t) < ROUTE_MAX")
    case True
    then obtain i where i: "first_index (\<lambda>e. \<not> re_active e) (rt_entries t) = Some i" using room by auto
    have t': "r = 0" "t' = t\<lparr>rt_entries := (rt_entries t)[i := ?e], rt_count := rt_count t + 1\<rparr>"
      using add True p i by (simp_all add: route_add_generation_def)
    have ib: "i < ROUTE_MAX" "\<not> re_active (rt_entries t ! i)" using first_indexD [OF i] len by simp_all
    have fresh: "key_of ?r \<notin> key_of ` routes t" using True key_in_routes [OF ok p] by (simp add: key_of_def)
    have e: "entry_ok ?e" "route_of ?e = ?r" using True p by (simp_all add: entry_ok_def route_of_def)
    have "rt_count t + 1 = count_if re_active ((rt_entries t)[i := ?e])"
      using count_if_update [of i "rt_entries t" re_active ?e] ib len cnt by simp
    from routes_set [OF ok ib(1) e(1) _ t'(2) this] ib(2) fresh e(2) True n net t'(1) show ?thesis
      by (simp add: spec_add_def)
  next
    case False
    then have "r = -1" "t' = t"
      using add p room by (auto simp: route_add_generation_def split: if_splits option.splits)
    moreover have "spec_add ?r (routes t) = (-1, routes t)"
      using False net key_in_routes [OF ok p] by (auto simp: spec_add_def key_of_def)
    ultimately show ?thesis using ok by simp
  qed
  then show "table_ok t'" "spec_add ?r (routes t) = (r, routes t')" by simp_all
qed

lemma route_remove_refines:
  assumes ok: "table_ok t" and p: "netmask_prefix netmask = Some n"
    and rem: "route_remove network netmask iface t = (r, t')"
  shows "table_ok t'" and "spec_remove (network, n, iface) (routes t) = (r, routes t')"
proof -
  have len: "length (rt_entries t) = ROUTE_MAX" and cnt: "rt_count t = count_if re_active (rt_entries t)"
    using ok by (simp_all add: table_ok_def)
  have if0: "(network, n, 0) \<notin> key_of ` routes t"
    using ok by (auto simp: routes_def key_of_def route_of_def table_ok_def entry_ok_def)
  have "table_ok t' \<and> spec_remove (network, n, iface) (routes t) = (r, routes t')"
  proof (cases "first_index (route_is network netmask iface) (rt_entries t)")
    case None
    then have "r = -1" "t' = t" using rem by (auto simp: route_remove_def split: if_splits)
    with None ok key_in_routes [OF ok p] show ?thesis by (simp add: spec_remove_def)
  next
    case (Some i)
    then have in_R: "(network, n, iface) \<in> key_of ` routes t" using key_in_routes [OF ok p, of network iface] by simp
    then have "iface \<noteq> 0" using if0 by auto
    then have t': "r = 0" "t' = t\<lparr>rt_entries := (rt_entries t)[i := no_route], rt_count := rt_count t - 1\<rparr>"
      using rem Some by (simp_all add: route_remove_def)
    have ib: "i < ROUTE_MAX" "route_is network netmask iface (rt_entries t ! i)" using first_indexD [OF Some] len by simp_all
    then have act: "re_active (rt_entries t ! i)" by (simp add: route_is_def)
    have key: "key_of (route_of (rt_entries t ! i)) = (network, n, iface)"
      using ib p entry_okD [OF ok ib(1)] by (auto simp: route_is_def key_of_def route_of_def entry_ok_def)
    have "rt_count t - 1 = count_if re_active ((rt_entries t)[i := no_route])"
      using count_if_update [of i "rt_entries t" re_active no_route] ib len cnt act by (simp add: no_route_def)
    from routes_set [OF ok ib(1) _ _ t'(2) this]
    have "table_ok t'" and R: "routes t' = {r \<in> routes t. r \<noteq> route_of (rt_entries t ! i)}"
      using act by (simp_all add: no_route_def entry_ok_def)
    have "r = route_of (rt_entries t ! i)" if "r \<in> routes t" "key_of r = (network, n, iface)" for r
    proof -
      obtain j where j: "j < ROUTE_MAX" "re_active (rt_entries t ! j)" "r = route_of (rt_entries t ! j)"
        using \<open>r \<in> routes t\<close> len by (auto simp: routes_def in_set_conv_nth)
      then have "same_key (rt_entries t ! j) (rt_entries t ! i)"
        using same_key_route entry_okD [OF ok] ib(1) act key that(2) by simp
      then have "j = i" using ok j ib(1) act by (simp add: table_ok_def)
      with j show ?thesis by simp
    qed
    then have "routes t' = {r \<in> routes t. key_of r \<noteq> (network, n, iface)}" unfolding R using key by auto
    with \<open>table_ok t'\<close> in_R t'(1) show ?thesis by (simp add: spec_remove_def)
  qed
  then show "table_ok t'" "spec_remove (network, n, iface) (routes t) = (r, routes t')" by simp_all
qed

lemma deactivate_entries_closed:
  "count_if re_active es \<le> c \<Longrightarrow> deactivate_entries iface generation es c r =
     (c - count_if (route_of_interface iface generation) es, r + count_if (route_of_interface iface generation) es,
      map (\<lambda>e. if route_of_interface iface generation e then e\<lparr>re_active := False\<rparr> else e) es)"
proof (induction es arbitrary: c r)
  case (Cons e es)
  have "count_if (route_of_interface iface generation) es \<le> count_if re_active es" for es
    by (induction es) (auto simp: route_of_interface_def)
  with Cons show ?case by (auto simp: route_of_interface_def split: if_splits)
qed simp

definition drop_interface :: "u32 \<Rightarrow> u32 \<Rightarrow> route_entry \<Rightarrow> route_entry" where
  "drop_interface iface generation e =
     (if route_of_interface iface generation e then e\<lparr>re_active := False\<rparr> else e)"

lemma drop_interface_active:
  "re_active (drop_interface iface generation e) \<longleftrightarrow> re_active e \<and> \<not> route_of_interface iface generation e"
  by (simp add: drop_interface_def)

lemma drop_interface_count:
  "count_if re_active es = count_if (route_of_interface iface generation) es
     + count_if re_active (map (drop_interface iface generation) es)"
proof (induction es)
  case (Cons e es)
  have "route_of_interface iface generation e \<Longrightarrow> re_active e" by (simp add: route_of_interface_def)
  with Cons show ?case by (simp add: drop_interface_active)
qed simp

lemma drop_interface_routes:
  "route_of ` {e \<in> set (map (drop_interface iface generation) es). re_active e} =
     route_of ` {e \<in> set es. re_active e} - {r. r_interface r = iface \<and> (generation = 0 \<or> r_generation r = generation)}"
proof -
  have "{e \<in> set (map (drop_interface iface generation) es). re_active e}
      = {e \<in> set es. re_active e \<and> \<not> route_of_interface iface generation e}"
    by (auto simp: drop_interface_def image_iff split: if_splits)
  moreover have "route_of_interface iface generation e \<longleftrightarrow> re_active e \<and> r_interface (route_of e) = iface
      \<and> (generation = 0 \<or> r_generation (route_of e) = generation)" for e
    by (simp add: route_of_interface_def route_of_def)
  ultimately show ?thesis by auto
qed

lemma drop_interface_ok:
  assumes ok: "table_ok t" and t': "rt_entries t' = map (drop_interface iface generation) (rt_entries t)"
    and c: "rt_count t' = count_if re_active (rt_entries t')"
  shows "table_ok t'"
  unfolding table_ok_def
proof (intro conjI ballI allI impI)
  have len: "length (rt_entries t) = ROUTE_MAX" using ok by (simp add: table_ok_def)
  show "length (rt_entries t') = ROUTE_MAX" by (simp add: t' len)
  show "rt_count t' = count_if re_active (rt_entries t')" by (rule c)
  fix e assume "e \<in> set (rt_entries t')"
  then obtain e' where "e' \<in> set (rt_entries t)" "e = drop_interface iface generation e'" by (auto simp: t')
  then show "entry_ok e" using ok by (simp add: table_ok_def entry_ok_def drop_interface_def)
next
  have len: "length (rt_entries t) = ROUTE_MAX" using ok by (simp add: table_ok_def)
  fix i j assume ij: "i < ROUTE_MAX" "j < ROUTE_MAX"
    "re_active (rt_entries t' ! i) \<and> re_active (rt_entries t' ! j) \<and> same_key (rt_entries t' ! i) (rt_entries t' ! j)"
  then have "re_active (rt_entries t ! i)" "re_active (rt_entries t ! j)" "same_key (rt_entries t ! i) (rt_entries t ! j)"
    using len by (simp_all add: t' drop_interface_def split: if_splits)
  then show "i = j" using ok ij(1,2) by (simp add: table_ok_def)
qed

lemma route_deactivate_refines:
  assumes ok: "table_ok t" and de: "route_deactivate_interface iface generation t = (n, t')"
  shows "table_ok t'" and "spec_deactivate iface generation (routes t) = (n, routes t')"
proof -
  let ?d = "route_of_interface iface generation"
  let ?G = "{r \<in> routes t. iface \<noteq> 0 \<and> r_interface r = iface \<and> (generation = 0 \<or> r_generation r = generation)}"
  have cnt: "rt_count t = count_if re_active (rt_entries t)" using ok by (simp add: table_ok_def)
  have "table_ok t' \<and> spec_deactivate iface generation (routes t) = (n, routes t')"
  proof (cases "iface = 0")
    case True
    with de ok show ?thesis by (auto simp: route_deactivate_interface_def spec_deactivate_def)
  next
    case False
    have t': "n = count_if ?d (rt_entries t)" "rt_entries t' = map (drop_interface iface generation) (rt_entries t)"
      "rt_count t' = rt_count t - count_if ?d (rt_entries t)"
      using de False cnt deactivate_entries_closed [of "rt_entries t" "rt_count t" iface generation 0]
      by (auto simp: route_deactivate_interface_def drop_interface_def [abs_def])
    note split = drop_interface_count [of "rt_entries t" iface generation, folded t'(2)]
    have ok': "table_ok t'" using ok t'(2) by (rule drop_interface_ok) (use split t'(3) cnt in simp)
    have R: "routes t' = routes t - ?G"
      using drop_interface_routes [of iface generation "rt_entries t", folded t'(2)] False by (auto simp: routes_def)
    have "card (routes t) = card (routes t') + n"
      using routes_card [OF ok] routes_card [OF ok'] split t'(1) by simp
    moreover have "card (routes t - ?G) = card (routes t) - card ?G" "card ?G \<le> card (routes t)"
      using routes_finite [of t] by (auto intro: card_Diff_subset card_mono)
    ultimately have "card ?G = n" using R by simp
    with ok' R show ?thesis by (simp add: spec_deactivate_def Let_def)
  qed
  then show "table_ok t'" "spec_deactivate iface generation (routes t) = (n, routes t')" by simp_all
qed

section \<open>The lookup\<close>

definition covers :: "route \<Rightarrow> u32 \<Rightarrow> bool" where
  "covers r destination \<longleftrightarrow> drop_bit (32 - r_prefix r) destination = drop_bit (32 - r_prefix r) (r_network r)"

lemma route_matches_covers:
  assumes "entry_ok e"
  shows "route_matches destination e \<longleftrightarrow> re_active e \<and> covers (route_of e) destination"
proof (cases "re_active e")
  case True
  with assms have p: "re_prefix_length e \<le> 32" "re_netmask e = NOT (mask (32 - re_prefix_length e))"
    and net: "re_network e AND NOT (mask (32 - re_prefix_length e)) = re_network e"
    by (auto simp: entry_ok_def netmask_prefix_Some)
  show ?thesis
    using masked_eq_iff [OF p(1) net, of destination] True by (simp add: route_matches_def covers_def route_of_def p(2))
qed (simp add: route_matches_def)

lemma better_order:
  "better e b \<Longrightarrow> better b x \<Longrightarrow> better e x" "\<not> better e b \<Longrightarrow> \<not> better b x \<Longrightarrow> \<not> better e x" "\<not> better e e"
  by (auto simp: better_def)

lemma route_lookup_fold:
  "(case fold (consider_route destination) es best of
      None \<Rightarrow> best = None \<and> (\<forall>e \<in> set es. \<not> route_matches destination e)
    | Some b \<Rightarrow> (b \<in> set es \<and> route_matches destination b \<or> best = Some b)
        \<and> (\<forall>e \<in> set es. route_matches destination e \<longrightarrow> \<not> better e b)
        \<and> (\<forall>b'. best = Some b' \<longrightarrow> \<not> better b' b))"
proof (induction es arbitrary: best)
  case Nil
  then show ?case by (auto simp: better_def split: option.split)
next
  case (Cons e es)
  let ?best = "consider_route destination e best"
  show ?case
  proof (cases "fold (consider_route destination) (e # es) best")
    case None
    then have "?best = None" "\<forall>e \<in> set es. \<not> route_matches destination e" using Cons [of ?best] by simp_all
    moreover from this(1) have "best = None" "\<not> route_matches destination e"
      by (auto simp: consider_route_def split: option.splits if_splits)
    ultimately show ?thesis using None by simp
  next
    case (Some b)
    then have IH: "b \<in> set es \<and> route_matches destination b \<or> ?best = Some b"
      "\<forall>e \<in> set es. route_matches destination e \<longrightarrow> \<not> better e b" "\<And>b'. ?best = Some b' \<Longrightarrow> \<not> better b' b"
      using Cons [of ?best] by auto
    have "\<not> better e b" if "route_matches destination e"
      using that IH(3) [of e] IH(3) [of "the best"] better_order(2) [of e "the best" b]
      by (cases best; cases "better e (the best)") (auto simp: consider_route_def)
    moreover have "\<not> better b' b" if "best = Some b'" for b'
      using that IH(3) [of e] IH(3) [of b'] better_order(1) [of e b' b]
      by (cases "route_matches destination e"; cases "better e b'") (auto simp: consider_route_def)
    moreover have "b \<in> set (e # es) \<and> route_matches destination b \<or> best = Some b"
      using IH(1) by (auto simp: consider_route_def split: option.splits if_splits)
    ultimately show ?thesis using IH(2) Some by simp
  qed
qed

lemma route_lookup_spec:
  assumes ok: "table_ok t"
  shows "case route_lookup destination t of
      None \<Rightarrow> \<forall>r \<in> routes t. \<not> covers r destination
    | Some e \<Rightarrow> route_of e \<in> routes t \<and> covers (route_of e) destination
        \<and> (\<forall>r \<in> routes t. covers r destination \<longrightarrow> r_prefix r < r_prefix (route_of e)
             \<or> r_prefix r = r_prefix (route_of e) \<and> r_metric (route_of e) \<le> r_metric r)"
proof -
  have m: "route_matches destination e \<longleftrightarrow> re_active e \<and> covers (route_of e) destination"
    if "e \<in> set (rt_entries t)" for e
    using ok that route_matches_covers by (simp add: table_ok_def)
  have b: "\<not> better e b \<longleftrightarrow> r_prefix (route_of e) < r_prefix (route_of b)
      \<or> r_prefix (route_of e) = r_prefix (route_of b) \<and> r_metric (route_of b) \<le> r_metric (route_of e)" for e b
    by (auto simp: better_def route_of_def)
  from route_lookup_fold [where destination = destination and es = "rt_entries t" and best = None] show ?thesis
    using m b by (auto simp: route_lookup_def routes_def split: option.splits)
qed

section \<open>Runs\<close>

datatype route_op = Add u32 nat u32 u32 u32 u32 | Remove u32 nat u32 | Deactivate u32 u32

definition netmask_of :: "nat \<Rightarrow> u32" where
  "netmask_of n = NOT (mask (32 - n))"

fun route_step :: "route_op \<Rightarrow> route_table \<Rightarrow> int \<times> route_table" where
  "route_step (Add network n gateway iface generation metric) t =
     route_add_generation network (netmask_of n) gateway iface generation metric t"
| "route_step (Remove network n iface) t = route_remove network (netmask_of n) iface t"
| "route_step (Deactivate iface generation) t =
     (case route_deactivate_interface iface generation t of (n, t') \<Rightarrow> (int n, t'))"

fun spec_step :: "route_op \<Rightarrow> route set \<Rightarrow> int \<times> route set" where
  "spec_step (Add network n gateway iface generation metric) R =
     spec_add \<lparr>r_network = network, r_prefix = n, r_gateway = gateway, r_interface = iface, r_generation = generation,
       r_metric = metric\<rparr> R"
| "spec_step (Remove network n iface) R = spec_remove (network, n, iface) R"
| "spec_step (Deactivate iface generation) R =
     (case spec_deactivate iface generation R of (n, R') \<Rightarrow> (int n, R'))"

fun op_ok :: "route_op \<Rightarrow> bool" where
  "op_ok (Add network n gateway iface generation metric) \<longleftrightarrow> n \<le> 32"
| "op_ok (Remove network n iface) \<longleftrightarrow> n \<le> 32"
| "op_ok (Deactivate iface generation) \<longleftrightarrow> True"

fun run :: "('op \<Rightarrow> 's \<Rightarrow> int \<times> 's) \<Rightarrow> 'op list \<Rightarrow> 's \<Rightarrow> int list \<times> 's" where
  "run step [] s = ([], s)"
| "run step (op # ops) s = (case step op s of (r, s') \<Rightarrow> case run step ops s' of (rs, t) \<Rightarrow> (r # rs, t))"

lemma route_step_refines:
  assumes "table_ok t" and "op_ok op" and "route_step op t = (r, t')"
  shows "table_ok t' \<and> spec_step op (routes t) = (r, routes t')"
proof (cases op)
  case (Add network n gateway iface generation metric)
  then have "netmask_prefix (netmask_of n) = Some n" using assms(2) by (simp add: netmask_prefix_Some netmask_of_def)
  from route_add_refines [OF assms(1) this] Add assms(3) show ?thesis by simp
next
  case (Remove network n iface)
  then have "netmask_prefix (netmask_of n) = Some n" using assms(2) by (simp add: netmask_prefix_Some netmask_of_def)
  from route_remove_refines [OF assms(1) this] Remove assms(3) show ?thesis by simp
next
  case (Deactivate iface generation)
  obtain n u where d: "route_deactivate_interface iface generation t = (n, u)" by fastforce
  from route_deactivate_refines [OF assms(1) d] d Deactivate assms(3) show ?thesis by simp
qed

lemma route_run_refines:
  "table_ok t \<Longrightarrow> list_all op_ok ops \<Longrightarrow> run route_step ops t = (rs, t') \<Longrightarrow>
     table_ok t' \<and> run spec_step ops (routes t) = (rs, routes t')"
proof (induction ops arbitrary: t rs)
  case (Cons op ops)
  obtain r u where st: "route_step op t = (r, u)" by fastforce
  obtain rs' where rn: "run route_step ops u = (rs', t')" "rs = r # rs'"
    using Cons.prems(3) st by (auto split: prod.splits)
  from route_step_refines [OF Cons.prems(1) _ st] Cons.prems(2) Cons.IH [OF _ _ rn(1)] rn(2) show ?case by auto
qed simp

lemma route_init_ok: "table_ok route_init" "routes route_init = {}"
  by (auto simp: table_ok_def route_init_def routes_def no_route_def entry_ok_def count_if_zero)

section \<open>Properties\<close>

text \<open>
  C24. The routing table is a set of routes: from the empty table, any sequence of additions
  and removals of prefixes and of interface removals returns the same codes and counts as the
  same sequence on an abstract set of at most 32 routes, whose key is network, prefix length
  and interface; a mask that is not contiguous is refused; and the count the table keeps is
  the number of its routes.
\<close>

theorem route_table_is_set:
  assumes "list_all op_ok ops" and "run route_step ops route_init = (rs, t)"
  shows "run spec_step ops {} = (rs, routes t) \<and> route_count t = card (routes t)
    \<and> route_available t = ROUTE_MAX - card (routes t)
    \<and> (netmask_prefix netmask = None \<longrightarrow> route_add network netmask gateway iface metric t = (-1, t))"
proof -
  have r: "table_ok t" "run spec_step ops {} = (rs, routes t)"
    using route_run_refines [OF route_init_ok(1) assms] route_init_ok(2) by simp_all
  have "count_if re_active (rt_entries t) + count_if (\<lambda>e. \<not> re_active e) (rt_entries t) = length (rt_entries t)"
    by (simp add: count_if_def sum_length_filter_compl)
  then show ?thesis
    using r routes_card [OF r(1)]
    by (auto simp: route_count_def route_available_def table_ok_def route_add_def route_add_generation_def)
qed

text \<open>
  C10. The lookup is longest-prefix match: after any such sequence it returns a route of the
  table whose leading bits are those of the destination, no route that also covers the
  destination is longer, none of the same length has a smaller metric; and it returns nothing
  only when no route covers the destination.
\<close>

theorem route_lookup_longest_prefix:
  assumes "list_all op_ok ops" and "run route_step ops route_init = (rs, t)"
  shows "case route_lookup destination t of
      None \<Rightarrow> \<forall>r \<in> routes t. \<not> covers r destination
    | Some e \<Rightarrow> route_of e \<in> routes t \<and> covers (route_of e) destination
        \<and> (\<forall>r \<in> routes t. covers r destination \<longrightarrow> r_prefix r < r_prefix (route_of e)
             \<or> r_prefix r = r_prefix (route_of e) \<and> r_metric (route_of e) \<le> r_metric r)"
  by (rule route_lookup_spec) (use route_run_refines [OF route_init_ok(1) assms] in simp)

section \<open>Witnesses\<close>

text \<open>A default route, 10.0.0.0/8 and 10.1.0.0/16, then interface 2 goes away.\<close>

definition route_trace :: "route_op list" where
  "route_trace = [Add 0 0 0x0A000001 1 0 10, Add 0x0A000000 8 0 2 0 1, Add 0x0A010000 16 0 3 7 1,
     Add 0x0A010000 16 0 3 8 1, Deactivate 2 0]"

theorem route_table_is_set_witness:
  "run spec_step route_trace {} = (fst (run route_step route_trace route_init), routes (snd (run route_step route_trace route_init)))
   \<and> fst (run route_step route_trace route_init) = [0, 0, 0, -1, 1]"
proof -
  obtain rs t where run: "run route_step route_trace route_init = (rs, t)" by fastforce
  have "list_all op_ok route_trace" "fst (run route_step route_trace route_init) = [0, 0, 0, -1, 1]" by code_simp+
  with route_table_is_set [OF _ run] run show ?thesis by simp
qed

theorem route_lookup_longest_prefix_witness:
  "route_lookup 0x0A010203 (snd (run route_step route_trace route_init)) \<noteq> None
   \<and> map_option re_interface_id (route_lookup 0x0A010203 (snd (run route_step route_trace route_init))) = Some 3
   \<and> (\<exists>r \<in> routes (snd (run route_step route_trace route_init)). covers r 0x0A010203 \<and> r_prefix r = 16)"
proof -
  obtain rs t where run: "run route_step route_trace route_init = (rs, t)" by fastforce
  have "list_all op_ok route_trace" by code_simp
  moreover have "map_option (\<lambda>e. (re_interface_id e, re_prefix_length e))
      (route_lookup 0x0A010203 (snd (run route_step route_trace route_init))) = Some (3, 16)" by code_simp
  ultimately show ?thesis
    using route_lookup_longest_prefix [OF _ run, where destination = "0x0A010203"] run by (fastforce simp: route_of_def)
qed

end
