(* ===== verification/Wire.thy ===== *)
theory Wire
  imports Prelude
begin

text \<open>
  Bytes on the wire: the big-endian accessors the network modules share and the Internet
  checksum of \<^verbatim>\<open>src/net/checksum.h\<close>, with its scalar loop unrolled by eight, its vectorised
  block acc, and the acc that is taken while copying. All three are shown to be the acc of
  big-endian 16-bit words, and the folded checksum to be arithmetic modulo 65535.
\<close>

section \<open>Big-endian access\<close>

definition read_be16 :: "u8 list \<Rightarrow> u16" where
  "read_be16 bytes = push_bit 8 (ucast (bytes ! 0)) OR ucast (bytes ! 1)"

definition read_be32 :: "u8 list \<Rightarrow> u32" where
  "read_be32 bytes = push_bit 24 (ucast (bytes ! 0)) OR push_bit 16 (ucast (bytes ! 1))
     OR push_bit 8 (ucast (bytes ! 2)) OR ucast (bytes ! 3)"

definition write_be16 :: "nat \<Rightarrow> u16 \<Rightarrow> u8 list \<Rightarrow> u8 list" where
  "write_be16 off value bytes = bytes[off := ucast (drop_bit 8 value), off + 1 := ucast value]"

definition write_be32 :: "nat \<Rightarrow> u32 \<Rightarrow> u8 list \<Rightarrow> u8 list" where
  "write_be32 off value bytes = bytes[off := ucast (drop_bit 24 value), off + 1 := ucast (drop_bit 16 value),
     off + 2 := ucast (drop_bit 8 value), off + 3 := ucast value]"

lemma be16_bytes: "push_bit 8 (ucast (ucast (drop_bit 8 v) :: u8)) OR ucast (ucast v :: u8) = (v :: u16)"
proof (rule bit_word_eqI)
  fix n assume "n < LENGTH(16)"
  then show "bit (push_bit 8 (ucast (ucast (drop_bit 8 v) :: u8)) OR ucast (ucast v :: u8) :: u16) n = bit v n"
    by (auto simp: bit_simps)
qed

lemma be32_bytes:
  "push_bit 24 (ucast (ucast (drop_bit 24 v) :: u8)) OR push_bit 16 (ucast (ucast (drop_bit 16 v) :: u8))
     OR push_bit 8 (ucast (ucast (drop_bit 8 v) :: u8)) OR ucast (ucast v :: u8) = (v :: u32)"
proof (rule bit_word_eqI)
  fix n assume "n < LENGTH(32)"
  then have "n < 8 \<or> 8 \<le> n \<and> n < 16 \<or> 16 \<le> n \<and> n < 24 \<or> 24 \<le> n \<and> n < 32" by auto
  then show "bit (push_bit 24 (ucast (ucast (drop_bit 24 v) :: u8)) OR push_bit 16 (ucast (ucast (drop_bit 16 v) :: u8))
      OR push_bit 8 (ucast (ucast (drop_bit 8 v) :: u8)) OR ucast (ucast v :: u8) :: u32) n = bit v n"
    by (elim disjE conjE; auto simp: bit_simps)
qed

text \<open>What was written is read back, and a write leaves the other bytes alone.\<close>

lemma read_write_be16:
  "off + 1 < length bytes \<Longrightarrow> read_be16 (drop off (write_be16 off v bytes)) = v"
  by (simp add: read_be16_def write_be16_def be16_bytes)

lemma read_write_be32:
  "off + 3 < length bytes \<Longrightarrow> read_be32 (drop off (write_be32 off v bytes)) = v"
  by (simp add: read_be32_def write_be32_def be32_bytes)

lemma write_be_length [simp]:
  "length (write_be16 off v bytes) = length bytes" "length (write_be32 off w bytes) = length bytes"
  by (simp_all add: write_be16_def write_be32_def)

text \<open>A 16-bit value as its two bytes.\<close>

definition be16 :: "u16 \<Rightarrow> u8 list" where
  "be16 v = [ucast (drop_bit 8 v), ucast v]"

lemma read_be16_be16 [simp]: "read_be16 (be16 v @ rest) = v"
  by (simp add: be16_def read_be16_def be16_bytes)

lemma be16_length [simp]: "length (be16 v) = 2"
  by (simp add: be16_def)

lemma split_ucast16: "ucast (drop_bit 8 (push_bit 8 (ucast a) OR ucast b :: u16)) = (a :: u8)"
  "ucast (push_bit 8 (ucast a) OR ucast b :: u16) = (b :: u8)"
  by (rule bit_word_eqI, auto simp: bit_simps dest: bit_imp_le_length)+

lemma be16_read: "2 \<le> length bytes \<Longrightarrow> be16 (read_be16 bytes) @ drop 2 bytes = bytes"
proof -
  assume "2 \<le> length bytes"
  then obtain a b r where "bytes = a # b # r" by (auto simp: numeral_eq_Suc Suc_le_length_iff)
  then show ?thesis using split_ucast16 [of a b] by (simp add: be16_def read_be16_def)
qed

section \<open>The checksum\<close>

definition pair_value :: "u8 \<Rightarrow> u8 \<Rightarrow> u32" where
  "pair_value a b = push_bit 8 (ucast a) OR ucast b"

definition net_checksum_finish :: "u32 \<Rightarrow> u16" where
  "net_checksum_finish acc =
     (let sum1 = (acc AND 0xFFFF) + drop_bit 16 acc;
          sum2 = sum1 + drop_bit 16 sum1
      in ucast (NOT sum2))"

text \<open>The loop of four pairs at a time, the loop of one, and the odd byte.\<close>

fun tail8 :: "u32 \<Rightarrow> u8 list \<Rightarrow> u32 \<times> u8 list" where
  "tail8 acc bytes =
     (if 8 \<le> length bytes
      then tail8 (acc + pair_value (bytes ! 0) (bytes ! 1) + pair_value (bytes ! 2) (bytes ! 3)
             + pair_value (bytes ! 4) (bytes ! 5) + pair_value (bytes ! 6) (bytes ! 7)) (drop 8 bytes)
      else (acc, bytes))"

fun tail2 :: "u32 \<Rightarrow> u8 list \<Rightarrow> u32 \<times> u8 list" where
  "tail2 acc bytes =
     (if 2 \<le> length bytes then tail2 (acc + pair_value (bytes ! 0) (bytes ! 1)) (drop 2 bytes) else (acc, bytes))"

declare tail8.simps [simp del] tail2.simps [simp del]

definition net_checksum_sum_tail :: "u32 \<Rightarrow> u8 list \<Rightarrow> u32" where
  "net_checksum_sum_tail acc bytes =
     (case tail8 acc bytes of (sum1, bytes1) \<Rightarrow>
      case tail2 sum1 bytes1 of (sum2, bytes2) \<Rightarrow>
        if bytes2 \<noteq> [] then sum2 + push_bit 8 (ucast (bytes2 ! 0)) else sum2)"

text \<open>
  The vector registers hold 16 bytes, or two 64-bit lanes. The sum of absolute differences
  against zero adds up the bytes of each half.
\<close>

type_synonym lanes = "u64 \<times> u64"

definition byte_sum :: "u8 list \<Rightarrow> u64" where
  "byte_sum v = sum_list (map ucast v)"

definition sad_epu8 :: "u8 list \<Rightarrow> lanes" where
  "sad_epu8 v = (byte_sum (take 8 v), byte_sum (drop 8 v))"

definition add_epi64 :: "lanes \<Rightarrow> lanes \<Rightarrow> lanes" where
  "add_epi64 x y = (fst x + fst y, snd x + snd y)"

definition even_mask :: "u8 list" where
  "even_mask = concat (replicate 8 [0xFF, 0])"

definition and_si128 :: "u8 list \<Rightarrow> u8 list \<Rightarrow> u8 list" where
  "and_si128 v w = map2 (AND) v w"

definition net_checksum_sad_value :: "lanes \<Rightarrow> lanes \<Rightarrow> u32" where
  "net_checksum_sad_value all_acc even_acc =
     (let all = ucast (fst all_acc) + ucast (snd all_acc);
          ev = ucast (fst even_acc) + ucast (snd even_acc)
      in ev * 256 + (all - ev))"

definition net_checksum_sad_add :: "u8 list \<Rightarrow> lanes \<times> lanes \<Rightarrow> lanes \<times> lanes" where
  "net_checksum_sad_add v lanes_acc =
     (add_epi64 (fst lanes_acc) (sad_epu8 v), add_epi64 (snd lanes_acc) (sad_epu8 (and_si128 v even_mask)))"

fun blocks16 :: "lanes \<times> lanes \<Rightarrow> u8 list \<Rightarrow> (lanes \<times> lanes) \<times> u8 list" where
  "blocks16 lanes_acc bytes =
     (if 16 \<le> length bytes then blocks16 (net_checksum_sad_add (take 16 bytes) lanes_acc) (drop 16 bytes) else (lanes_acc, bytes))"

declare blocks16.simps [simp del]

definition net_checksum_sum :: "u32 \<Rightarrow> u8 list \<Rightarrow> u32" where
  "net_checksum_sum acc bytes =
     (if 16 \<le> length bytes
      then case blocks16 ((0, 0), (0, 0)) bytes of (lanes_acc, rest) \<Rightarrow>
             net_checksum_sum_tail (acc + net_checksum_sad_value (fst lanes_acc) (snd lanes_acc)) rest
      else net_checksum_sum_tail acc bytes)"

text \<open>The copying variant: the bytes stored so far, the sum, and the source still to go.\<close>

fun copy16 :: "lanes \<times> lanes \<Rightarrow> u8 list \<Rightarrow> u8 list \<Rightarrow> (lanes \<times> lanes) \<times> u8 list \<times> u8 list" where
  "copy16 lanes_acc dst src =
     (if 16 \<le> length src then copy16 (net_checksum_sad_add (take 16 src) lanes_acc) (dst @ take 16 src) (drop 16 src)
      else (lanes_acc, dst, src))"

fun copy8 :: "u32 \<Rightarrow> u8 list \<Rightarrow> u8 list \<Rightarrow> u32 \<times> u8 list \<times> u8 list" where
  "copy8 acc dst src =
     (if 8 \<le> length src
      then copy8 (acc + pair_value (src ! 0) (src ! 1) + pair_value (src ! 2) (src ! 3)
             + pair_value (src ! 4) (src ! 5) + pair_value (src ! 6) (src ! 7))
             (dst @ [src ! 0, src ! 1, src ! 2, src ! 3, src ! 4, src ! 5, src ! 6, src ! 7]) (drop 8 src)
      else (acc, dst, src))"

fun copy2 :: "u32 \<Rightarrow> u8 list \<Rightarrow> u8 list \<Rightarrow> u32 \<times> u8 list \<times> u8 list" where
  "copy2 acc dst src =
     (if 2 \<le> length src then copy2 (acc + pair_value (src ! 0) (src ! 1)) (dst @ [src ! 0, src ! 1]) (drop 2 src)
      else (acc, dst, src))"

declare copy16.simps [simp del] copy8.simps [simp del] copy2.simps [simp del]

definition net_checksum_copy :: "u32 \<Rightarrow> u8 list \<Rightarrow> u32 \<times> u8 list" where
  "net_checksum_copy acc src =
     (case (if 16 \<le> length src
            then case copy16 ((0, 0), (0, 0)) [] src of (lanes_acc, dst, rest) \<Rightarrow>
                   (acc + net_checksum_sad_value (fst lanes_acc) (snd lanes_acc), dst, rest)
            else (acc, [], src)) of (sum1, dst1, src1) \<Rightarrow>
      case copy8 sum1 dst1 src1 of (sum2, dst2, src2) \<Rightarrow>
      case copy2 sum2 dst2 src2 of (sum3, dst3, src3) \<Rightarrow>
        if src3 \<noteq> [] then (sum3 + push_bit 8 (ucast (src3 ! 0)), dst3 @ [src3 ! 0]) else (sum3, dst3))"

section \<open>All variants are the same sum\<close>

text \<open>The reference: the sum of the big-endian 16-bit words, the last byte padded.\<close>

fun be_sum :: "u8 list \<Rightarrow> nat" where
  "be_sum [] = 0"
| "be_sum [a] = 256 * unat a"
| "be_sum (a # b # r) = 256 * unat a + unat b + be_sum r"

lemma pair_value_nat: "pair_value a b = of_nat (256 * unat a + unat b)"
proof -
  have "pair_value a b = push_bit 8 (ucast a) + ucast b"
    unfolding pair_value_def
  proof (rule disjunctive_add [symmetric])
    fix n show "\<not> bit (push_bit 8 (ucast a) :: u32) n \<or> \<not> bit (ucast b :: u32) n"
      by (auto simp: bit_simps dest: bit_imp_le_length)
  qed
  also have "\<dots> = of_nat (256 * unat a + unat b)" by (simp add: push_bit_eq_mult)
  finally show ?thesis .
qed

lemma odd_byte_nat: "(push_bit 8 (ucast (a :: u8)) :: u32) = of_nat (256 * unat a)"
  by (simp add: push_bit_eq_mult)

lemma be_sum_append: "even (length xs) \<Longrightarrow> be_sum (xs @ ys) = be_sum xs + be_sum ys"
  by (induction xs rule: be_sum.induct) auto

lemma tail8_sum: "tail8 acc bytes = (t, rest) \<Longrightarrow>
    t + of_nat (be_sum rest) = acc + of_nat (be_sum bytes)"
proof (induction acc bytes rule: tail8.induct)
  case (1 acc bytes)
  show ?case
  proof (cases "8 \<le> length bytes")
    case True
    then obtain a b c d e f g h r where bytes: "bytes = a # b # c # d # e # f # g # h # r"
      by (auto simp: numeral_eq_Suc Suc_le_length_iff)
    have st: "tail8 (acc + pair_value (bytes ! 0) (bytes ! 1) + pair_value (bytes ! 2) (bytes ! 3)
        + pair_value (bytes ! 4) (bytes ! 5) + pair_value (bytes ! 6) (bytes ! 7)) (drop 8 bytes) = (t, rest)"
      using 1(2) True by (simp add: tail8.simps [of acc bytes])
    from 1(1) [OF True st] show ?thesis by (simp add: bytes pair_value_nat algebra_simps)
  next
    case False
    with 1(2) show ?thesis by (simp add: tail8.simps [of acc bytes])
  qed
qed

lemma tail2_sum: "tail2 acc bytes = (t, rest) \<Longrightarrow>
    length rest < 2 \<and> t + of_nat (be_sum rest) = acc + of_nat (be_sum bytes)"
proof (induction acc bytes rule: tail2.induct)
  case (1 acc bytes)
  show ?case
  proof (cases "2 \<le> length bytes")
    case True
    then obtain a b r where bytes: "bytes = a # b # r"
      by (auto simp: numeral_eq_Suc Suc_le_length_iff)
    have st: "tail2 (acc + pair_value (bytes ! 0) (bytes ! 1)) (drop 2 bytes) = (t, rest)"
      using 1(2) True by (simp add: tail2.simps [of acc bytes])
    from 1(1) [OF True st] show ?thesis by (simp add: bytes pair_value_nat algebra_simps)
  next
    case False
    with 1(2) show ?thesis by (simp add: tail2.simps [of acc bytes])
  qed
qed

lemma sum_tail_correct: "net_checksum_sum_tail acc bytes = acc + of_nat (be_sum bytes)"
proof -
  obtain t r where 8: "tail8 acc bytes = (t, r)" by fastforce
  obtain u q where 2: "tail2 t r = (u, q)" by fastforce
  have "length q < 2" "u + of_nat (be_sum q) = acc + of_nat (be_sum bytes)"
    using tail2_sum [OF 2] tail8_sum [OF 8] by simp_all
  then show ?thesis
    by (cases q) (auto simp: net_checksum_sum_tail_def 8 2 odd_byte_nat)
qed

lemma ucast_add_down: "(ucast (x + y :: u64) :: u32) = ucast x + ucast y"
  by transfer (subst (2) take_bit_add [symmetric], simp add: take_bit_add)

lemma byte_sum_nat: "(ucast (byte_sum v) :: u32) = of_nat (sum_list (map unat v))"
proof (induction v)
  case (Cons a v)
  have "(ucast (ucast a :: u64) :: u32) = ucast a" by (rule bit_word_eqI) (simp add: bit_simps)
  with Cons show ?case by (simp add: byte_sum_def ucast_add_down)
qed (simp add: byte_sum_def)

text \<open>A 16-bit sum is 255 times the even bytes plus all bytes.\<close>

lemma be_sum_masked:
  "length v = 2 * k \<Longrightarrow>
     be_sum v = 255 * sum_list (map unat (map2 (AND) v (concat (replicate k [0xFF, 0])))) + sum_list (map unat v)"
proof (induction k arbitrary: v)
  case (Suc k)
  then obtain a b r where v: "v = a # b # r" "length r = 2 * k"
    by (auto simp: length_Suc_conv)
  have "a AND 0xFF = a"
  proof -
    have "(0xFF :: u8) = mask 8" by (simp add: mask_eq_exp_minus_1)
    then have "a AND 0xFF = take_bit 8 a" by (simp only: take_bit_eq_mask)
    also have "\<dots> = a" by (rule bit_word_eqI) (simp add: bit_simps)
    finally show ?thesis .
  qed
  with Suc.IH [OF v(2)] v show ?case by simp
qed simp

definition sad_total :: "lanes \<Rightarrow> u32" where
  "sad_total x = ucast (fst x) + ucast (snd x)"

lemma sad_total_add: "sad_total (add_epi64 x y) = sad_total x + sad_total y"
  by (simp add: sad_total_def add_epi64_def ucast_add_down algebra_simps)

lemma sad_total_bytes: "sad_total (sad_epu8 v) = of_nat (sum_list (map unat v))"
proof -
  have "sum_list (map unat v) = sum_list (map unat (take 8 v)) + sum_list (map unat (drop 8 v))"
    by (metis append_take_drop_id map_append sum_list_append)
  then show ?thesis by (simp add: sad_total_def sad_epu8_def byte_sum_nat)
qed

definition block_value :: "lanes \<times> lanes \<Rightarrow> u32" where
  "block_value a = net_checksum_sad_value (fst a) (snd a)"

lemma block_value_alt: "block_value a = 255 * sad_total (snd a) + sad_total (fst a)"
  by (simp add: block_value_def net_checksum_sad_value_def sad_total_def Let_def algebra_simps)

lemma block_value_add:
  assumes "length v = 16"
  shows "block_value (net_checksum_sad_add v a) = block_value a + of_nat (be_sum v)"
proof -
  have "be_sum v = 255 * sum_list (map unat (and_si128 v even_mask)) + sum_list (map unat v)"
    using be_sum_masked [of v 8] assms by (simp add: and_si128_def even_mask_def)
  then show ?thesis
    by (simp add: block_value_alt net_checksum_sad_add_def sad_total_add sad_total_bytes algebra_simps)
qed

lemma blocks16_sum: "blocks16 a bytes = (a', rest) \<Longrightarrow>
    block_value a' + of_nat (be_sum rest) = block_value a + of_nat (be_sum bytes)"
proof (induction a bytes rule: blocks16.induct)
  case (1 a bytes)
  show ?case
  proof (cases "16 \<le> length bytes")
    case True
    have st: "blocks16 (net_checksum_sad_add (take 16 bytes) a) (drop 16 bytes) = (a', rest)"
      using 1(2) True by (simp add: blocks16.simps [of a bytes])
    have "be_sum bytes = be_sum (take 16 bytes) + be_sum (drop 16 bytes)"
      using be_sum_append [of "take 16 bytes" "drop 16 bytes"] True by simp
    with 1(1) [OF True st] True show ?thesis by (simp add: block_value_add)
  next
    case False
    with 1(2) show ?thesis by (simp add: blocks16.simps [of a bytes])
  qed
qed

lemma block_value_zero: "block_value ((0, 0), (0, 0)) = 0"
  by (simp add: block_value_alt sad_total_def)

lemma checksum_sum_correct: "net_checksum_sum acc bytes = acc + of_nat (be_sum bytes)"
proof -
  obtain a rest where b: "blocks16 ((0, 0), (0, 0)) bytes = (a, rest)" by fastforce
  have "block_value a + of_nat (be_sum rest) = of_nat (be_sum bytes)"
    using blocks16_sum [OF b] by (simp add: block_value_zero)
  then show ?thesis
    by (simp add: net_checksum_sum_def b sum_tail_correct block_value_def add.assoc)
qed

text \<open>The copy runs the same loops and stores what it reads.\<close>

lemma copy16_sum: "copy16 a dst src = (a', d, rest) \<Longrightarrow>
    d @ rest = dst @ src \<and> block_value a' + of_nat (be_sum rest) = block_value a + of_nat (be_sum src)"
proof (induction a dst src rule: copy16.induct)
  case (1 a dst src)
  show ?case
  proof (cases "16 \<le> length src")
    case True
    have st: "copy16 (net_checksum_sad_add (take 16 src) a) (dst @ take 16 src) (drop 16 src) = (a', d, rest)"
      using 1(2) True by (simp add: copy16.simps [of a dst src])
    have "be_sum src = be_sum (take 16 src) + be_sum (drop 16 src)"
      using be_sum_append [of "take 16 src" "drop 16 src"] True by simp
    with 1(1) [OF True st] True show ?thesis by (simp add: block_value_add)
  next
    case False
    with 1(2) show ?thesis by (simp add: copy16.simps [of a dst src])
  qed
qed

lemma copy8_sum: "copy8 acc dst src = (t, d, rest) \<Longrightarrow>
    d @ rest = dst @ src \<and> t + of_nat (be_sum rest) = acc + of_nat (be_sum src)"
proof (induction acc dst src rule: copy8.induct)
  case (1 acc dst src)
  show ?case
  proof (cases "8 \<le> length src")
    case True
    then obtain b0 b1 b2 b3 b4 b5 b6 b7 r where src: "src = b0 # b1 # b2 # b3 # b4 # b5 # b6 # b7 # r"
      by (auto simp: numeral_eq_Suc Suc_le_length_iff)
    have st: "copy8 (acc + pair_value (src ! 0) (src ! 1) + pair_value (src ! 2) (src ! 3)
        + pair_value (src ! 4) (src ! 5) + pair_value (src ! 6) (src ! 7))
        (dst @ [src ! 0, src ! 1, src ! 2, src ! 3, src ! 4, src ! 5, src ! 6, src ! 7]) (drop 8 src) = (t, d, rest)"
      using 1(2) True by (simp add: copy8.simps [of acc dst src])
    from 1(1) [OF True st] show ?thesis by (simp add: src pair_value_nat algebra_simps)
  next
    case False
    with 1(2) show ?thesis by (simp add: copy8.simps [of acc dst src])
  qed
qed

lemma copy2_sum: "copy2 acc dst src = (t, d, rest) \<Longrightarrow>
    length rest < 2 \<and> d @ rest = dst @ src \<and> t + of_nat (be_sum rest) = acc + of_nat (be_sum src)"
proof (induction acc dst src rule: copy2.induct)
  case (1 acc dst src)
  show ?case
  proof (cases "2 \<le> length src")
    case True
    then obtain b0 b1 r where src: "src = b0 # b1 # r"
      by (auto simp: numeral_eq_Suc Suc_le_length_iff)
    have st: "copy2 (acc + pair_value (src ! 0) (src ! 1)) (dst @ [src ! 0, src ! 1]) (drop 2 src) = (t, d, rest)"
      using 1(2) True by (simp add: copy2.simps [of acc dst src])
    from 1(1) [OF True st] show ?thesis by (simp add: src pair_value_nat algebra_simps)
  next
    case False
    with 1(2) show ?thesis by (simp add: copy2.simps [of acc dst src])
  qed
qed

lemma checksum_copy_correct: "net_checksum_copy acc src = (acc + of_nat (be_sum src), src)"
proof -
  obtain a d16 r16 where c16: "copy16 ((0, 0), (0, 0)) [] src = (a, d16, r16)" by (metis prod_cases3)
  define p where "p = (if 16 \<le> length src then (acc + block_value a, d16, r16) else (acc, [], src))"
  obtain s1 d1 r1 where p1: "p = (s1, d1, r1)" by (metis prod_cases3)
  have 1: "d1 @ r1 = src" "s1 + of_nat (be_sum r1) = acc + of_nat (be_sum src)"
    using copy16_sum [OF c16] p1 by (auto simp: p_def block_value_zero algebra_simps split: if_splits)
  obtain s2 d2 r2 where c8: "copy8 s1 d1 r1 = (s2, d2, r2)" by (metis prod_cases3)
  obtain s3 d3 r3 where c2: "copy2 s2 d2 r2 = (s3, d3, r3)" by (metis prod_cases3)
  have 3: "length r3 < 2" "d3 @ r3 = src" "s3 + of_nat (be_sum r3) = acc + of_nat (be_sum src)"
    using copy8_sum [OF c8] copy2_sum [OF c2] 1 by simp_all
  have "net_checksum_copy acc src = (if r3 \<noteq> [] then (s3 + push_bit 8 (ucast (r3 ! 0)), d3 @ [r3 ! 0]) else (s3, d3))"
    using p1 c8 c2 by (auto simp: net_checksum_copy_def c16 p_def block_value_def split: if_splits)
  with 3 show ?thesis by (cases r3) (auto simp: odd_byte_nat)
qed

section \<open>The folded checksum\<close>

text \<open>The end-around carry is a remainder modulo 65535, with 65535 itself in place of 0.\<close>

definition fold16 :: "nat \<Rightarrow> nat" where
  "fold16 n = (if n = 0 then 0 else (n - 1) mod 65535 + 1)"

lemma fold16_carry:
  assumes hi: "hi < 65536" and lo: "lo < 65536"
  shows "(lo + hi + (lo + hi) div 65536) mod 65536 = fold16 (65536 * hi + lo)"
proof (cases "lo + hi < 65536")
  case True
  show ?thesis
  proof (cases "lo + hi = 0")
    case False
    then have "65536 * hi + lo - 1 = 65535 * hi + (lo + hi - 1)" by simp
    with True False show ?thesis by (simp add: fold16_def)
  qed (simp add: fold16_def)
next
  case False
  then have d: "(lo + hi) div 65536 = 1" using hi lo by (simp add: div_nat_eqI)
  have "65536 * hi + lo - 1 = (lo + hi - 65536) + 65535 * (hi + 1)" using False by simp
  moreover have "((lo + hi - 65536) + 65535 * (hi + 1)) mod 65535 = lo + hi - 65536"
    using hi lo by (simp only: mod_mult_self2) simp
  moreover have "(lo + hi + 1) mod 65536 = lo + hi + 1 - 65536" using False hi lo by (simp add: mod_if)
  ultimately have "fold16 (65536 * hi + lo) = lo + hi - 65536 + 1"
    using False unfolding fold16_def by (auto simp del: One_nat_def)
  with \<open>(lo + hi + 1) mod 65536 = _\<close> False d show ?thesis by simp
qed

lemma unat_not16: "unat (NOT (x :: u16)) = 65535 - unat x"
proof -
  have "NOT x = -1 - x" by (simp add: not_eq_complement)
  also have "unat \<dots> = 65535 - unat x"
  proof -
    have "x \<le> -1" by simp
    then have "unat (-1 - x) = unat (-1 :: u16) - unat x" by (rule unat_sub)
    moreover have "unat (-1 :: u16) = 65535" by (simp add: unsigned_minus_1_eq_mask mask_eq_exp_minus_1)
    ultimately show ?thesis by simp
  qed
  finally show ?thesis .
qed

lemma net_checksum_finish_fold: "unat (net_checksum_finish w) = 65535 - fold16 (unat w)"
proof -
  let ?lo = "unat w mod 65536" and ?hi = "unat w div 65536"
  have w: "unat w = 65536 * ?hi + ?lo" by simp
  have hi: "?hi < 65536" using unsigned_less [of w] by (intro less_mult_imp_div_less) simp
  have lo: "?lo < 65536" by simp
  define t where "t = (w AND 0xFFFF) + drop_bit 16 w"
  have and_lo: "unat (w AND 0xFFFF) = ?lo"
  proof -
    have "w AND 0xFFFF = take_bit 16 w" by (simp add: take_bit_eq_mask mask_eq_exp_minus_1)
    then show ?thesis by (simp only:) (simp add: unsigned_take_bit_eq, simp add: take_bit_eq_mod)
  qed
  have dr: "unat (drop_bit 16 w) = ?hi" by (simp add: unat_drop_bit_eq, simp add: drop_bit_eq_div)
  have t: "unat t = ?lo + ?hi" unfolding t_def using and_lo dr hi lo by (simp add: unat_word_ariths)
  have dt: "unat (drop_bit 16 t) = (?lo + ?hi) div 65536" by (simp add: unat_drop_bit_eq t, simp add: drop_bit_eq_div)
  have q: "(?lo + ?hi) div 65536 = (if ?lo + ?hi < 65536 then 0 else 1)" using hi lo by (simp add: div_nat_eqI)
  have u: "unat (t + drop_bit 16 t) = ?lo + ?hi + (?lo + ?hi) div 65536"
    using hi lo t dt by (simp add: unat_word_ariths q)
  have "unat (ucast (t + drop_bit 16 t) :: u16) = (?lo + ?hi + (?lo + ?hi) div 65536) mod 65536"
    using u by (simp add: unsigned_ucast_eq take_bit_eq_mod)
  also have "\<dots> = fold16 (unat w)" using fold16_carry [OF hi lo] w by simp
  finally have "unat (ucast (t + drop_bit 16 t) :: u16) = fold16 (unat w)" .
  moreover have "net_checksum_finish w = NOT (ucast (t + drop_bit 16 t))"
    by (rule bit_word_eqI) (simp add: net_checksum_finish_def t_def Let_def bit_simps)
  ultimately show ?thesis by (simp add: unat_not16)
qed

lemma fold16_le: "fold16 n \<le> 65535"
  using mod_less_divisor [of 65535 "n - 1"] by (auto simp: fold16_def)

lemma fold16_max: "fold16 n = 65535 \<longleftrightarrow> 0 < n \<and> 65535 dvd n"
proof (cases "n = 0")
  case False
  have "(n - 1) mod 65535 = 65534 \<longleftrightarrow> n mod 65535 = 0"
    using False mod_Suc [of "n - 1" 65535] by (auto split: if_splits)
  with False show ?thesis by (simp add: fold16_def mod_eq_0_iff_dvd)
qed (simp add: fold16_def)

lemma net_checksum_finish_zero: "net_checksum_finish w = 0 \<longleftrightarrow> 0 < unat w \<and> 65535 dvd unat w"
proof -
  have "net_checksum_finish w = 0 \<longleftrightarrow> unat (net_checksum_finish w) = 0" by (simp only: unat_eq_zero)
  also have "\<dots> \<longleftrightarrow> fold16 (unat w) = 65535"
    using fold16_le [of "unat w"] by (simp add: net_checksum_finish_fold)
  finally show ?thesis by (simp add: fold16_max)
qed

lemma fold16_mod: "fold16 n mod 65535 = n mod 65535"
proof (cases "n = 0")
  case False
  then show ?thesis using mod_Suc [of "n - 1" 65535] by (simp add: fold16_def)
qed (simp add: fold16_def)

lemma be_sum_bound: "be_sum bytes \<le> 65535 * ((length bytes + 1) div 2)"
proof (induction bytes rule: be_sum.induct)
  case (2 a)
  have "unat a < 256" using unsigned_less [of a] by simp
  then show ?case by simp
next
  case (3 a b r)
  have "unat a < 256" "unat b < 256" using unsigned_less [of a] unsigned_less [of b] by simp_all
  with 3 show ?case by simp
qed simp

text \<open>The 32-bit accumulator cannot overflow on an input of at most 65535 bytes.\<close>

lemma checksum_sum_exact:
  assumes "length bytes \<le> 65535"
  shows "unat (net_checksum_sum 0 bytes) = be_sum bytes"
proof -
  have "(length bytes + 1) div 2 \<le> 32768" using assms by simp
  then have "be_sum bytes \<le> 65535 * 32768" using be_sum_bound [of bytes] by simp
  then show ?thesis by (simp add: checksum_sum_correct unat_of_nat)
qed

lemma be_sum_update:
  "i < length bytes \<Longrightarrow> be_sum (bytes[i := x]) + (if even i then 256 else 1) * unat (bytes ! i)
     = be_sum bytes + (if even i then 256 else 1) * unat x"
proof (induction bytes arbitrary: i rule: be_sum.induct)
  case (3 a b r)
  show ?case
  proof (cases i)
    case 0
    then show ?thesis by simp
  next
    case (Suc j)
    show ?thesis
    proof (cases j)
      case 0
      with Suc show ?thesis by simp
    next
      case (Suc k)
      with 3(1) [of k] 3(2) \<open>i = Suc j\<close> show ?thesis by auto
    qed
  qed
qed auto

definition checksum :: "u8 list \<Rightarrow> u16" where
  "checksum bytes = net_checksum_finish (net_checksum_sum 0 bytes)"

lemma checksum_zero:
  "length bytes \<le> 65535 \<Longrightarrow> checksum bytes = 0 \<longleftrightarrow> 0 < be_sum bytes \<and> 65535 dvd be_sum bytes"
  by (simp add: checksum_def net_checksum_finish_zero checksum_sum_exact)

lemma checksum_fold: "length bytes \<le> 65535 \<Longrightarrow> unat (checksum bytes) = 65535 - fold16 (be_sum bytes)"
  by (simp add: checksum_def net_checksum_finish_fold checksum_sum_exact)

lemma be_sum_be16: "be_sum [ucast (drop_bit 8 c), ucast (c :: u16)] = unat c"
proof -
  have "unat (ucast (drop_bit 8 c) :: u8) = unat c div 256"
  proof -
    have "unat c div 256 < 256" using unsigned_less [of c] by (intro less_mult_imp_div_less) simp
    then show ?thesis by (simp add: unsigned_ucast_eq unat_drop_bit_eq) (simp add: drop_bit_eq_div take_bit_eq_mod)
  qed
  moreover have "unat (ucast c :: u8) = unat c mod 256" by (simp add: unsigned_ucast_eq take_bit_eq_mod)
  ultimately show ?thesis by simp
qed

lemma checksum_stored:
  fixes c :: u16
  assumes ev: "even (length pre)" and len: "length pre + 2 + length post \<le> 65535"
  shows "checksum (pre @ [ucast (drop_bit 8 c), ucast c] @ post) = 0
    \<longleftrightarrow> 0 < be_sum pre + unat c + be_sum post \<and> 65535 dvd be_sum pre + unat c + be_sum post"
proof -
  have "be_sum (pre @ [ucast (drop_bit 8 c), ucast c] @ post) = be_sum pre + (unat c + be_sum post)"
    using be_sum_append [OF ev] be_sum_append [of "[ucast (drop_bit 8 c), ucast c :: u8]" post] be_sum_be16 [of c] by simp
  then show ?thesis using len by (simp add: checksum_zero add.assoc del: be_sum.simps)
qed

lemma single_byte_not_multiple:
  assumes "i < length bytes" and "x \<noteq> bytes ! i" and "65535 dvd be_sum bytes" and "65535 dvd be_sum (bytes[i := x])"
  shows False
proof -
  define w u v where "w = (if even i then 256 else 1 :: int)" and "u = unat x" and "v = unat (bytes ! i)"
  have "int (be_sum (bytes[i := x])) - int (be_sum bytes) = w * (int u - int v)"
    using arg_cong [OF be_sum_update [OF assms(1), of x], of int, folded u_def v_def]
    by (cases "even i") (simp_all add: w_def algebra_simps)
  moreover have "(65535 :: int) dvd int (be_sum (bytes[i := x])) - int (be_sum bytes)"
    using assms(3,4) by (metis dvd_diff int_dvd_int_iff of_nat_numeral)
  ultimately have d: "(65535 :: int) dvd w * (int u - int v)" by simp
  have "u \<noteq> v" unfolding u_def v_def using assms(2) unsigned_word_eqI by blast
  moreover have "u < 256" "v < 256" using unsigned_less [of x] unsigned_less [of "bytes ! i"] by (simp_all add: u_def v_def)
  ultimately have "0 < \<bar>int u - int v\<bar>" "\<bar>int u - int v\<bar> \<le> 255" by linarith+
  moreover have "\<bar>w * (int u - int v)\<bar> = w * \<bar>int u - int v\<bar>" "w = 256 \<or> w = 1" by (simp_all add: abs_mult w_def)
  ultimately have "0 < \<bar>w * (int u - int v)\<bar>" "\<bar>w * (int u - int v)\<bar> < 65535" by auto
  then show False using d zdvd_not_zless [of "\<bar>w * (int u - int v)\<bar>" 65535] by simp
qed

lemma checksum_insert:
  assumes "even (length pre)" and "length pre + 2 + length post \<le> 65535"
    and "c = checksum (pre @ [0, 0] @ post)"
  shows "checksum (pre @ [ucast (drop_bit 8 c), ucast c] @ post) = 0"
proof -
  let ?s = "be_sum pre + be_sum post"
  have "be_sum (pre @ [0, 0] @ post) = ?s" using be_sum_append [OF assms(1)] by simp
  then have c: "unat c = 65535 - fold16 ?s" using assms by (simp add: checksum_fold)
  then have e: "?s + unat c + fold16 ?s = ?s + 65535" using fold16_le [of ?s] by simp
  have "(?s + unat c + ?s) mod 65535 = (?s + unat c + fold16 ?s) mod 65535"
    using fold16_mod [of ?s] by (metis mod_add_right_eq)
  also have "\<dots> = ?s mod 65535" unfolding e by simp
  finally have "65535 dvd (?s + unat c + ?s) - ?s" by (rule mod_eq_dvd_iff_nat [THEN iffD1, rotated]) simp
  then have "65535 dvd ?s + unat c" by simp
  moreover have "0 < ?s + unat c" using c by (cases "?s = 0") (auto simp: fold16_def)
  ultimately show ?thesis
    using checksum_stored [OF assms(1,2), of c] by (simp add: mod_eq_0_iff_dvd ac_simps)
qed

section \<open>Properties\<close>

text \<open>
  C25. The checksum routines agree: the vectorised sum, the scalar loop unrolled by eight and
  the sum taken while copying all give the sum of the big-endian 16-bit words, the copy is
  exact, and on an input within the 65535-byte protocol limit the 32-bit accumulator does not
  overflow.
\<close>

theorem checksum_variants_agree:
  "net_checksum_sum acc bytes = net_checksum_sum_tail acc bytes
   \<and> net_checksum_copy acc bytes = (net_checksum_sum_tail acc bytes, bytes)
   \<and> (length bytes \<le> 65535 \<longrightarrow> unat (net_checksum_sum 0 bytes) = be_sum bytes)"
proof (intro conjI impI)
  show "net_checksum_sum acc bytes = net_checksum_sum_tail acc bytes"
    "net_checksum_copy acc bytes = (net_checksum_sum_tail acc bytes, bytes)"
    by (simp_all add: checksum_sum_correct sum_tail_correct checksum_copy_correct)
qed (rule checksum_sum_exact)

text \<open>
  C26. A receiver accepts what a sender sums and rejects any single corrupted byte: storing the
  checksum in the zeroed field at an even offset makes the sum of the whole come out as zero,
  and changing one byte of an accepted message makes it nonzero.
\<close>

theorem checksum_accepts_and_detects:
  assumes "even (length pre)" and "length pre + 2 + length post \<le> 65535"
    and "c = checksum (pre @ [0, 0] @ post)"
  shows "checksum (pre @ [ucast (drop_bit 8 c), ucast c] @ post) = 0
    \<and> (\<forall>bytes i x. length bytes \<le> 65535 \<and> checksum bytes = 0 \<and> i < length bytes \<and> x \<noteq> bytes ! i
         \<longrightarrow> checksum (bytes[i := x]) \<noteq> 0)"
proof (intro conjI allI impI)
  show "checksum (pre @ [ucast (drop_bit 8 c), ucast c] @ post) = 0" using assms by (rule checksum_insert)
next
  fix bytes i x assume h: "length bytes \<le> 65535 \<and> checksum bytes = 0 \<and> i < length bytes \<and> x \<noteq> (bytes :: u8 list) ! i"
  show "checksum (bytes[i := x]) \<noteq> 0"
  proof
    assume "checksum (bytes[i := x]) = 0"
    then have "65535 dvd be_sum (bytes[i := x])" "65535 dvd be_sum bytes"
      using h checksum_zero [of bytes] checksum_zero [of "bytes[i := x]"] by simp_all
    then show False using h single_byte_not_multiple by blast
  qed
qed

section \<open>Witnesses\<close>

theorem checksum_variants_agree_witness:
  "unat (net_checksum_sum 0 (map of_nat [0..<41])) = be_sum (map of_nat [0..<41])"
proof -
  have "length (map of_nat [0..<41] :: u8 list) \<le> 65535" by simp
  with checksum_variants_agree [of 0 "map of_nat [0..<41]"] show ?thesis by blast
qed

theorem checksum_accepts_and_detects_witness:
  "checksum ([0x45, 0, 0, 20] @ [ucast (drop_bit 8 (checksum ([0x45, 0, 0, 20] @ [0, 0] @ [64, 17]))),
     ucast (checksum ([0x45, 0, 0, 20] @ [0, 0] @ [64, 17]))] @ [64, 17]) = 0
   \<and> checksum [0xFF, 0xFE] \<noteq> 0"
proof -
  have z: "checksum [0xFF, 0xFF] = 0" by code_simp
  note ad = checksum_accepts_and_detects [of "[0x45, 0, 0, 20]" "[64, 17]", OF _ _ refl]
  have "checksum ([0xFF, 0xFF] [1 := 0xFE]) \<noteq> 0"
    by (rule ad [THEN conjunct2, rule_format]) (simp_all add: z)
  with ad show ?thesis by simp
qed

end
