(* ===== verification/Ethernet.thy ===== *)
theory Ethernet
  imports Wire
begin

text \<open>
  Ethernet frames, \<^verbatim>\<open>src/net/ethernet.c\<close>: the parser with its one VLAN tag, the destination
  filter, the handler table and the counters. A handler (a C function with its context) is a
  value of type \<open>'f\<close>; running it is the argument \<open>call\<close>, which may change a state \<open>'s\<close>.
\<close>

section \<open>Frames\<close>

definition ETHERNET_HEADER_SIZE :: nat where "ETHERNET_HEADER_SIZE = 14"
definition ETHERNET_VLAN_HEADER_SIZE :: nat where "ETHERNET_VLAN_HEADER_SIZE = 18"
definition ETHERNET_FRAME_MAX_UNTAGGED :: nat where "ETHERNET_FRAME_MAX_UNTAGGED = 1518"
definition ETHERNET_FRAME_MAX :: nat where "ETHERNET_FRAME_MAX = 1522"
definition ETHERNET_HANDLER_MAX :: nat where "ETHERNET_HANDLER_MAX = 8"
definition ETHERNET_ADDRESS_SIZE :: nat where "ETHERNET_ADDRESS_SIZE = 6"

definition ETHERNET_FLAG_BROADCAST :: u32 where "ETHERNET_FLAG_BROADCAST = 1"
definition ETHERNET_FLAG_MULTICAST :: u32 where "ETHERNET_FLAG_MULTICAST = 2"
definition ETHERNET_FLAG_VLAN :: u32 where "ETHERNET_FLAG_VLAN = 4"


lemmas ethernet_flags = ETHERNET_FLAG_BROADCAST_def ETHERNET_FLAG_MULTICAST_def ETHERNET_FLAG_VLAN_def

record ethernet_frame_view =
  ef_frame :: "u8 list"
  ef_payload :: "u8 list"
  ef_frame_length :: nat
  ef_payload_length :: nat
  ef_ether_type :: u16
  ef_vlan_tci :: u16
  ef_flags :: u32

record ethernet_stats =
  es_frames :: u64
  es_bytes :: u64
  es_unicast :: u64
  es_broadcast :: u64
  es_multicast :: u64
  es_vlan :: u64
  es_drops_length :: u64
  es_drops_source :: u64
  es_drops_filter :: u64
  es_drops_protocol :: u64

record 'f ethernet_handler =
  eh_ether_type :: u16
  eh_function :: 'f

record 'f ethernet_port =
  ep_address :: "u8 list"
  ep_promiscuous :: bool
  ep_accept_multicast :: bool
  ep_handlers :: "'f ethernet_handler list"
  ep_stats :: ethernet_stats

definition address_equal :: "u8 list \<Rightarrow> u8 list \<Rightarrow> bool" where
  "address_equal left right \<longleftrightarrow> (\<forall>i \<in> set [0..<ETHERNET_ADDRESS_SIZE]. left ! i = right ! i)"

definition address_broadcast :: "u8 list \<Rightarrow> bool" where
  "address_broadcast address \<longleftrightarrow> (\<forall>i \<in> set [0..<ETHERNET_ADDRESS_SIZE]. address ! i = 0xFF)"

definition address_zero :: "u8 list \<Rightarrow> bool" where
  "address_zero address \<longleftrightarrow> (\<forall>i \<in> set [0..<ETHERNET_ADDRESS_SIZE]. address ! i = 0)"

definition zero_stats :: ethernet_stats where
  "zero_stats = \<lparr>es_frames = 0, es_bytes = 0, es_unicast = 0, es_broadcast = 0, es_multicast = 0, es_vlan = 0,
     es_drops_length = 0, es_drops_source = 0, es_drops_filter = 0, es_drops_protocol = 0\<rparr>"

text \<open>The handlers of a port are the first \<open>handler_count\<close> entries of its array.\<close>

definition ethernet_port_init :: "u8 list \<Rightarrow> 'f ethernet_port option" where
  "ethernet_port_init address =
     (if bit (address ! 0) 0 \<or> address_zero address then None
      else Some \<lparr>ep_address = take ETHERNET_ADDRESS_SIZE address, ep_promiscuous = False, ep_accept_multicast = False,
                 ep_handlers = [], ep_stats = zero_stats\<rparr>)"

definition ethernet_port_set_filter :: "bool \<Rightarrow> bool \<Rightarrow> 'f ethernet_port \<Rightarrow> 'f ethernet_port" where
  "ethernet_port_set_filter promiscuous accept_multicast port =
     port\<lparr>ep_promiscuous := promiscuous, ep_accept_multicast := accept_multicast\<rparr>"

definition ethernet_register_handler :: "u16 \<Rightarrow> 'f \<Rightarrow> 'f ethernet_port \<Rightarrow> int \<times> 'f ethernet_port" where
  "ethernet_register_handler ether_type f port =
     (if ether_type < 0x0600 \<or> ETHERNET_HANDLER_MAX \<le> length (ep_handlers port) then (-1, port)
      else if first_index (\<lambda>h. eh_ether_type h = ether_type) (ep_handlers port) \<noteq> None then (-1, port)
      else (0, port\<lparr>ep_handlers := ep_handlers port @ [\<lparr>eh_ether_type = ether_type, eh_function = f\<rparr>]\<rparr>))"

text \<open>The three failures of the parser: length, source address, protocol.\<close>

datatype ethernet_error = Drop_length | Drop_source | Drop_protocol

definition vlan_type :: "u16 \<Rightarrow> bool" where
  "vlan_type type \<longleftrightarrow> type = 0x8100 \<or> type = 0x88A8"

definition address_flags :: "u8 list \<Rightarrow> u32" where
  "address_flags bytes = (if address_broadcast bytes then ETHERNET_FLAG_BROADCAST
     else if bit (bytes ! 0) 0 then ETHERNET_FLAG_MULTICAST else 0)"

definition ethernet_parse :: "u8 list \<Rightarrow> ethernet_error + ethernet_frame_view" where
  "ethernet_parse bytes =
     (if length bytes < ETHERNET_HEADER_SIZE \<or> ETHERNET_FRAME_MAX < length bytes then Inl Drop_length
      else let source = drop ETHERNET_ADDRESS_SIZE bytes in
      if bit (source ! 0) 0 \<or> address_zero source then Inl Drop_source
      else let type = read_be16 (drop 12 bytes); flags = address_flags bytes in
      if vlan_type type
      then if length bytes < ETHERNET_VLAN_HEADER_SIZE then Inl Drop_length
           else let vlan_tci = read_be16 (drop 14 bytes); type' = read_be16 (drop 16 bytes) in
                if vlan_type type' then Inl Drop_protocol
                else if type' < 0x0600 then Inl Drop_protocol
                else Inr \<lparr>ef_frame = bytes, ef_payload = drop ETHERNET_VLAN_HEADER_SIZE bytes,
                          ef_frame_length = length bytes,
                          ef_payload_length = length bytes - ETHERNET_VLAN_HEADER_SIZE,
                          ef_ether_type = type', ef_vlan_tci = vlan_tci, ef_flags = flags OR ETHERNET_FLAG_VLAN\<rparr>
      else if type < 0x0600 then Inl Drop_protocol
      else if ETHERNET_FRAME_MAX_UNTAGGED < length bytes then Inl Drop_length
      else Inr \<lparr>ef_frame = bytes, ef_payload = drop ETHERNET_HEADER_SIZE bytes, ef_frame_length = length bytes,
                ef_payload_length = length bytes - ETHERNET_HEADER_SIZE,
                ef_ether_type = type, ef_vlan_tci = 0, ef_flags = flags\<rparr>)"

definition has_flag :: "u32 \<Rightarrow> ethernet_frame_view \<Rightarrow> bool" where
  "has_flag flag frame \<longleftrightarrow> ef_flags frame AND flag \<noteq> 0"

definition destination_allowed :: "'f ethernet_port \<Rightarrow> ethernet_frame_view \<Rightarrow> bool" where
  "destination_allowed port frame \<longleftrightarrow>
     ep_promiscuous port \<or> address_equal (ef_frame frame) (ep_address port) \<or> has_flag ETHERNET_FLAG_BROADCAST frame
     \<or> (has_flag ETHERNET_FLAG_MULTICAST frame \<and> ep_accept_multicast port)"

definition stat :: "(ethernet_stats \<Rightarrow> ethernet_stats) \<Rightarrow> 'f ethernet_port \<Rightarrow> 'f ethernet_port" where
  "stat f port = port\<lparr>ep_stats := f (ep_stats port)\<rparr>"

definition count_drop :: "ethernet_error \<Rightarrow> ethernet_stats \<Rightarrow> ethernet_stats" where
  "count_drop e = (case e of
      Drop_length \<Rightarrow> es_drops_length_update (\<lambda>n. n + 1)
    | Drop_source \<Rightarrow> es_drops_source_update (\<lambda>n. n + 1)
    | Drop_protocol \<Rightarrow> es_drops_protocol_update (\<lambda>n. n + 1))"

definition count_frame :: "ethernet_frame_view \<Rightarrow> ethernet_stats \<Rightarrow> ethernet_stats" where
  "count_frame frame st =
     (let st1 = st\<lparr>es_frames := es_frames st + 1, es_bytes := es_bytes st + of_nat (ef_frame_length frame)\<rparr>;
          st2 = (if has_flag ETHERNET_FLAG_BROADCAST frame then es_broadcast_update (\<lambda>n. n + 1) st1
                 else if has_flag ETHERNET_FLAG_MULTICAST frame then es_multicast_update (\<lambda>n. n + 1) st1
                 else es_unicast_update (\<lambda>n. n + 1) st1)
      in if has_flag ETHERNET_FLAG_VLAN frame then es_vlan_update (\<lambda>n. n + 1) st2 else st2)"

definition ethernet_receive :: "('f \<Rightarrow> ethernet_frame_view \<Rightarrow> 's \<Rightarrow> int \<times> 's) \<Rightarrow> u8 list
    \<Rightarrow> 'f ethernet_port \<times> 's \<Rightarrow> int \<times> 'f ethernet_port \<times> 's" where
  "ethernet_receive call data ps =
     (case ps of (port, s) \<Rightarrow>
      case ethernet_parse data of
        Inl e \<Rightarrow> (-1, stat (count_drop e) port, s)
      | Inr frame \<Rightarrow>
          if \<not> destination_allowed port frame then (-1, stat (es_drops_filter_update (\<lambda>n. n + 1)) port, s)
          else let port1 = stat (count_frame frame) port in
               case first_index (\<lambda>h. eh_ether_type h = ef_ether_type frame) (ep_handlers port1) of
                 None \<Rightarrow> (-1, stat (es_drops_protocol_update (\<lambda>n. n + 1)) port1, s)
               | Some i \<Rightarrow>
                   (case call (eh_function (ep_handlers port1 ! i)) frame s of
                      (r, s') \<Rightarrow> if r \<noteq> 0 then (-1, stat (es_drops_protocol_update (\<lambda>n. n + 1)) port1, s')
                                 else (0, port1, s')))"

section \<open>What the parser accepts\<close>

text \<open>
  A frame as the standard writes it: destination, source, an optional tag with its type and
  control word, the protocol, the payload.
\<close>

definition wire_frame :: "u8 list \<Rightarrow> u8 list \<Rightarrow> (u16 \<times> u16) option \<Rightarrow> u16 \<Rightarrow> u8 list \<Rightarrow> u8 list" where
  "wire_frame dst src tag type payload = dst @ src
     @ (case tag of None \<Rightarrow> [] | Some (tpid, tci) \<Rightarrow> be16 tpid @ be16 tci) @ be16 type @ payload"






section \<open>Counters\<close>

fun ethernet_run :: "('f \<Rightarrow> ethernet_frame_view \<Rightarrow> 's \<Rightarrow> int \<times> 's) \<Rightarrow> u8 list list
    \<Rightarrow> 'f ethernet_port \<times> 's \<Rightarrow> int list \<times> 'f ethernet_port \<times> 's" where
  "ethernet_run call [] ps = ([], ps)"
| "ethernet_run call (data # frames) ps =
     (case ethernet_receive call data ps of (r, ps') \<Rightarrow>
      case ethernet_run call frames ps' of (rs, qs) \<Rightarrow> (r # rs, qs))"

definition es_drops :: "ethernet_stats \<Rightarrow> u64" where
  "es_drops st = es_drops_length st + es_drops_source st + es_drops_filter st + es_drops_protocol st"

definition stats_ok :: "ethernet_stats \<Rightarrow> bool" where
  "stats_ok st \<longleftrightarrow> es_frames st = es_unicast st + es_broadcast st + es_multicast st"

lemma stat_simps [simp]:
  "ep_stats (stat f port) = f (ep_stats port)" "ep_handlers (stat f port) = ep_handlers port"
  by (simp_all add: stat_def)

lemma count_drop_facts [simp]:
  "es_drops (count_drop e st) = es_drops st + 1" "stats_ok (count_drop e st) = stats_ok st"
  by (cases e; simp add: count_drop_def es_drops_def stats_ok_def)+

lemma count_frame_facts [simp]: "es_drops (count_frame v st) = es_drops st" "stats_ok st \<Longrightarrow> stats_ok (count_frame v st)"
  by (simp_all add: count_frame_def es_drops_def stats_ok_def Let_def)

lemma count_undelivered [simp]:
  "es_drops (es_drops_filter_update (\<lambda>n. n + 1) st) = es_drops st + 1"
  "es_drops (es_drops_protocol_update (\<lambda>n. n + 1) st) = es_drops st + 1"
  "stats_ok (es_drops_filter_update (\<lambda>n. n + 1) st) = stats_ok st"
  "stats_ok (es_drops_protocol_update (\<lambda>n. n + 1) st) = stats_ok st"
  by (simp_all add: es_drops_def stats_ok_def)

lemma ethernet_receive_counts:
  assumes "stats_ok (ep_stats port)" and "ethernet_receive call data (port, s) = (r, port', s')"
  shows "stats_ok (ep_stats port') \<and> (r = 0 \<or> r = -1)
    \<and> es_drops (ep_stats port') = es_drops (ep_stats port) + (if r = 0 then 0 else 1)"
  using assms
  by (auto simp: ethernet_receive_def Let_def split: sum.splits if_splits option.splits prod.splits)

lemma ethernet_run_counts:
  "stats_ok (ep_stats port) \<Longrightarrow> ethernet_run call frames (port, s) = (rs, port', s') \<Longrightarrow>
     stats_ok (ep_stats port') \<and> length rs = length frames
     \<and> es_drops (ep_stats port') = es_drops (ep_stats port) + of_nat (count_if (\<lambda>r. r \<noteq> 0) rs)"
proof (induction frames arbitrary: port s rs)
  case (Cons data frames)
  obtain r port1 s1 where st: "ethernet_receive call data (port, s) = (r, port1, s1)" by (metis prod_cases3)
  obtain rs1 where rn: "ethernet_run call frames (port1, s1) = (rs1, port', s')" "rs = r # rs1"
    using Cons.prems(2) st by (auto split: prod.splits)
  note c = ethernet_receive_counts [OF Cons.prems(1) st]
  have "stats_ok (ep_stats port')" "length rs1 = length frames"
    "es_drops (ep_stats port') = es_drops (ep_stats port1) + of_nat (count_if (\<lambda>r. r \<noteq> 0) rs1)"
    using Cons.IH [OF _ rn(1)] c by auto
  with c rn(2) show ?case by (auto simp: algebra_simps)
qed simp

section \<open>Properties\<close>


text \<open>
  Every frame is accounted for once: whatever frames arrive at a port whose counters are
  zero, with whatever filter and handlers, the four drop counters together grow by exactly one for each frame that is
  not delivered, and the frame counter is the sum of the unicast, broadcast and multicast ones.
\<close>

theorem ethernet_accounts_every_frame:
  assumes st: "ep_stats port = zero_stats" and run: "ethernet_run call frames (port, s) = (rs, port', s')"
  shows "length rs = length frames
    \<and> es_drops (ep_stats port') = of_nat (count_if (\<lambda>r. r \<noteq> 0) rs)
    \<and> es_frames (ep_stats port') = es_unicast (ep_stats port') + es_broadcast (ep_stats port') + es_multicast (ep_stats port')"
proof -
  have "stats_ok (ep_stats port)" "es_drops (ep_stats port) = 0"
    by (simp_all add: st zero_stats_def stats_ok_def es_drops_def)
  with ethernet_run_counts [OF _ run] show ?thesis by (simp add: stats_ok_def)
qed

section \<open>Witnesses\<close>

definition sample_port :: "nat ethernet_port" where
  "sample_port = snd (ethernet_register_handler 0x0800 5 (the (ethernet_port_init [2, 0, 0, 0, 0, 1])))"

definition sample_frames :: "u8 list list" where
  "sample_frames = [wire_frame [2, 0, 0, 0, 0, 1] [2, 0, 0, 0, 0, 9] None 0x0800 [1, 2, 3],
     wire_frame [2, 0, 0, 0, 0, 7] [2, 0, 0, 0, 0, 9] None 0x0800 [], [1, 2, 3]]"

theorem ethernet_accounts_every_frame_witness:
  "es_drops (ep_stats (fst (snd (ethernet_run (\<lambda>f v s. (0, s)) sample_frames (sample_port, ()))))) = 2"
proof -
  obtain rs port' s' where run: "ethernet_run (\<lambda>f v s. (0, s)) sample_frames (sample_port, ()) = (rs, port', s')"
    by (metis prod_cases3)
  have "ep_stats sample_port = zero_stats" by code_simp
  from ethernet_accounts_every_frame [OF this run]
  have "es_drops (ep_stats port') = of_nat (count_if (\<lambda>r. r \<noteq> 0) rs)" by simp
  moreover have "fst (ethernet_run (\<lambda>f v s. (0, s)) sample_frames (sample_port, ())) = [0, -1, -1]" by code_simp
  ultimately show ?thesis using run by simp
qed

end
