(* ===== verification/Ipv4.thy ===== *)
theory Ipv4
  imports Ethernet
begin

text \<open>
  IPv4, \<^verbatim>\<open>src/net/ipv4.c\<close>: header construction, the parser with its six failures, the checks
  against spoofed and misdirected packets, the protocol table and the counters. As for
  Ethernet, handlers and the transmit function are values that \<open>call\<close> and \<open>tx\<close> run.
\<close>

section \<open>State\<close>

definition IPV4_HEADER_MIN :: nat where "IPV4_HEADER_MIN = 20"
definition IPV4_PROTOCOL_HANDLER_MAX :: nat where "IPV4_PROTOCOL_HANDLER_MAX = 8"

record ipv4_packet_view =
  ip_packet :: "u8 list"
  ip_payload :: "u8 list"
  ip_packet_length :: nat
  ip_header_length :: nat
  ip_payload_length :: nat
  ip_source :: u32
  ip_destination :: u32
  ip_identification :: u16
  ip_fragment :: u16
  ip_ttl :: u8
  ip_protocol :: u8
  ip_dscp_ecn :: u8

record ipv4_stats =
  is_packets :: u64
  is_bytes :: u64
  is_unicast :: u64
  is_broadcast :: u64
  is_drops_length :: u64
  is_drops_version :: u64
  is_drops_checksum :: u64
  is_drops_ttl :: u64
  is_drops_source :: u64
  is_drops_destination :: u64
  is_drops_fragment :: u64
  is_drops_protocol :: u64
  is_drops_land :: u64
  is_drops_spoof :: u64

record 'f ipv4_protocol_handler =
  ih_protocol :: u8
  ih_function :: 'f

record ('f, 't) ipv4_context =
  ic_port :: nat
  ic_local_address :: u32
  ic_netmask :: u32
  ic_subnet_broadcast :: u32
  ic_accept_broadcast :: bool
  ic_transmit :: "'t option"
  ic_handlers :: "'f ipv4_protocol_handler list"
  ic_stats :: ipv4_stats

section \<open>Operations\<close>

definition unicast_address :: "u32 \<Rightarrow> bool" where
  "unicast_address address \<longleftrightarrow>
     (let first = (ucast (drop_bit 24 address) :: u8) in
      address \<noteq> 0 \<and> address \<noteq> 0xFFFFFFFF \<and> first \<noteq> 0 \<and> first < 224)"

definition netmask_valid :: "u32 \<Rightarrow> bool" where
  "netmask_valid netmask \<longleftrightarrow> netmask \<noteq> 0 \<and> (let inverse = NOT netmask in inverse AND (inverse + 1) = 0)"

definition ipv4_checksum :: "u8 list \<Rightarrow> u16" where
  "ipv4_checksum data = (if data = [] then 0xFFFF else net_checksum_finish (net_checksum_sum 0 data))"

datatype ipv4_error = Bad_length | Bad_version | Bad_checksum | Bad_ttl | Bad_source | Bad_fragment

definition ipv4_parse :: "u8 list \<Rightarrow> ipv4_error + ipv4_packet_view" where
  "ipv4_parse bytes =
     (if length bytes < IPV4_HEADER_MIN then Inl Bad_length
      else let version = drop_bit 4 (bytes ! 0);
               header_length = unat (bytes ! 0 AND 0x0F) * 4 in
      if version \<noteq> 4 \<or> header_length < IPV4_HEADER_MIN then Inl Bad_version
      else if length bytes < header_length then Inl Bad_length
      else let total_length = unat (read_be16 (drop 2 bytes)) in
      if total_length < header_length \<or> length bytes < total_length then Inl Bad_length
      else if ipv4_checksum (take header_length bytes) \<noteq> 0 then Inl Bad_checksum
      else if bytes ! 8 = 0 then Inl Bad_ttl
      else let source = read_be32 (drop 12 bytes) in
      if \<not> unicast_address source then Inl Bad_source
      else let fragment = read_be16 (drop 6 bytes) in
      if fragment AND 0x8000 \<noteq> 0 \<or> fragment AND 0x3FFF \<noteq> 0 then Inl Bad_fragment
      else Inr \<lparr>ip_packet = bytes, ip_payload = drop header_length bytes, ip_packet_length = total_length,
                ip_header_length = header_length, ip_payload_length = total_length - header_length,
                ip_source = source, ip_destination = read_be32 (drop 16 bytes),
                ip_identification = read_be16 (drop 4 bytes), ip_fragment = fragment, ip_ttl = bytes ! 8,
                ip_protocol = bytes ! 9, ip_dscp_ecn = bytes ! 1\<rparr>)"

definition zero_ipv4_stats :: ipv4_stats where
  "zero_ipv4_stats = \<lparr>is_packets = 0, is_bytes = 0, is_unicast = 0, is_broadcast = 0, is_drops_length = 0,
     is_drops_version = 0, is_drops_checksum = 0, is_drops_ttl = 0, is_drops_source = 0, is_drops_destination = 0,
     is_drops_fragment = 0, is_drops_protocol = 0, is_drops_land = 0, is_drops_spoof = 0\<rparr>"

text \<open>Initialisation also registers the module with its port; \<open>handler\<close> is its entry there.\<close>

definition ipv4_init :: "nat \<Rightarrow> u32 \<Rightarrow> u32 \<Rightarrow> bool \<Rightarrow> 'h \<Rightarrow> 'h ethernet_port
    \<Rightarrow> int \<times> ('f, 't) ipv4_context option \<times> 'h ethernet_port" where
  "ipv4_init port_id local_address netmask accept_broadcast handler port =
     (if \<not> unicast_address local_address \<or> \<not> netmask_valid netmask then (-1, None, port)
      else let ctx = \<lparr>ic_port = port_id, ic_local_address = local_address, ic_netmask = netmask,
                 ic_subnet_broadcast = (local_address AND netmask) OR NOT netmask,
                 ic_accept_broadcast = accept_broadcast, ic_transmit = None, ic_handlers = [],
                 ic_stats = zero_ipv4_stats\<rparr>;
               (r, port') = ethernet_register_handler 0x0800 handler port
           in (r, Some ctx, port'))"

definition ipv4_set_transmit :: "'t \<Rightarrow> ('f, 't) ipv4_context \<Rightarrow> int \<times> ('f, 't) ipv4_context" where
  "ipv4_set_transmit transmit ctx =
     (if ic_transmit ctx \<noteq> None \<and> ic_transmit ctx \<noteq> Some transmit then (-1, ctx)
      else (0, ctx\<lparr>ic_transmit := Some transmit\<rparr>))"

definition ipv4_send :: "('t \<Rightarrow> u32 \<Rightarrow> u8 \<Rightarrow> u8 list \<Rightarrow> 's \<Rightarrow> int \<times> 's) \<Rightarrow> ('f, 't) ipv4_context
    \<Rightarrow> u32 \<Rightarrow> u8 \<Rightarrow> u8 list \<Rightarrow> 's \<Rightarrow> int \<times> 's" where
  "ipv4_send tx ctx destination protocol payload s =
     (case ic_transmit ctx of
        None \<Rightarrow> (-1, s)
      | Some t \<Rightarrow>
          if destination = 0 \<or> protocol = 0 \<or> 0xFFFF - IPV4_HEADER_MIN < length payload then (-1, s)
          else tx t destination protocol payload s)"

definition ipv4_register_protocol :: "u8 \<Rightarrow> 'f \<Rightarrow> ('f, 't) ipv4_context \<Rightarrow> int \<times> ('f, 't) ipv4_context" where
  "ipv4_register_protocol protocol f ctx =
     (if protocol = 0 \<or> IPV4_PROTOCOL_HANDLER_MAX \<le> length (ic_handlers ctx) then (-1, ctx)
      else if first_index (\<lambda>h. ih_protocol h = protocol) (ic_handlers ctx) \<noteq> None then (-1, ctx)
      else (0, ctx\<lparr>ic_handlers := ic_handlers ctx @ [\<lparr>ih_protocol = protocol, ih_function = f\<rparr>]\<rparr>))"

definition istat :: "(ipv4_stats \<Rightarrow> ipv4_stats) \<Rightarrow> ('f, 't) ipv4_context \<Rightarrow> ('f, 't) ipv4_context" where
  "istat f ctx = ctx\<lparr>ic_stats := f (ic_stats ctx)\<rparr>"

definition ip_broadcast :: "('f, 't) ipv4_context \<Rightarrow> ipv4_packet_view \<Rightarrow> bool" where
  "ip_broadcast ctx packet \<longleftrightarrow> ip_destination packet = 0xFFFFFFFF \<or> ip_destination packet = ic_subnet_broadcast ctx"

definition count_packet :: "bool \<Rightarrow> ipv4_packet_view \<Rightarrow> ipv4_stats \<Rightarrow> ipv4_stats" where
  "count_packet broadcast packet st =
     (let st1 = st\<lparr>is_packets := is_packets st + 1, is_bytes := is_bytes st + of_nat (ip_packet_length packet)\<rparr>
      in if broadcast then is_broadcast_update (\<lambda>n. n + 1) st1 else is_unicast_update (\<lambda>n. n + 1) st1)"

definition deliver_packet :: "('f \<Rightarrow> ipv4_packet_view \<Rightarrow> 's \<Rightarrow> int \<times> 's) \<Rightarrow> ipv4_packet_view
    \<Rightarrow> ('f, 't) ipv4_context \<Rightarrow> 's \<Rightarrow> int \<times> ('f, 't) ipv4_context \<times> 's" where
  "deliver_packet call packet ctx s =
     (case first_index (\<lambda>h. ih_protocol h = ip_protocol packet) (ic_handlers ctx) of
        None \<Rightarrow> (-1, istat (is_drops_protocol_update (\<lambda>n. n + 1)) ctx, s)
      | Some i \<Rightarrow>
          (case call (ih_function (ic_handlers ctx ! i)) packet s of
             (r, s') \<Rightarrow> if r < 0 then (-1, istat (is_drops_protocol_update (\<lambda>n. n + 1)) ctx, s')
                        else (r, ctx, s')))"

definition dispatch_packet :: "('f \<Rightarrow> ipv4_packet_view \<Rightarrow> 's \<Rightarrow> int \<times> 's) \<Rightarrow> ipv4_packet_view
    \<Rightarrow> ('f, 't) ipv4_context \<times> 's \<Rightarrow> int \<times> ('f, 't) ipv4_context \<times> 's" where
  "dispatch_packet call packet cs =
     (case cs of (ctx, s) \<Rightarrow>
      let source_loopback = (drop_bit 24 (ip_source packet) = 127);
          local_loopback = (drop_bit 24 (ic_local_address ctx) = 127) in
      if source_loopback \<noteq> local_loopback then (-1, istat (is_drops_source_update (\<lambda>n. n + 1)) ctx, s)
      else if \<not> local_loopback \<and> ip_source packet = ip_destination packet
           then (-1, istat (is_drops_land_update (\<lambda>n. n + 1)) ctx, s)
      else if \<not> local_loopback \<and> ip_source packet = ic_local_address ctx
           then (-1, istat (is_drops_spoof_update (\<lambda>n. n + 1)) ctx, s)
      else let broadcast = ip_broadcast ctx packet in
      if ip_destination packet \<noteq> ic_local_address ctx \<and> \<not> (broadcast \<and> ic_accept_broadcast ctx)
      then (-1, istat (is_drops_destination_update (\<lambda>n. n + 1)) ctx, s)
      else deliver_packet call packet (istat (count_packet broadcast packet) ctx) s)"

definition count_error :: "ipv4_error \<Rightarrow> ipv4_stats \<Rightarrow> ipv4_stats" where
  "count_error e = (case e of
      Bad_length \<Rightarrow> is_drops_length_update (\<lambda>n. n + 1)
    | Bad_version \<Rightarrow> is_drops_version_update (\<lambda>n. n + 1)
    | Bad_checksum \<Rightarrow> is_drops_checksum_update (\<lambda>n. n + 1)
    | Bad_ttl \<Rightarrow> is_drops_ttl_update (\<lambda>n. n + 1)
    | Bad_source \<Rightarrow> is_drops_source_update (\<lambda>n. n + 1)
    | Bad_fragment \<Rightarrow> is_drops_fragment_update (\<lambda>n. n + 1))"

definition ipv4_receive :: "('f \<Rightarrow> ipv4_packet_view \<Rightarrow> 's \<Rightarrow> int \<times> 's) \<Rightarrow> u8 list
    \<Rightarrow> ('f, 't) ipv4_context \<times> 's \<Rightarrow> int \<times> ('f, 't) ipv4_context \<times> 's" where
  "ipv4_receive call data cs =
     (case ipv4_parse data of
        Inl e \<Rightarrow> (-1, istat (count_error e) (fst cs), snd cs)
      | Inr packet \<Rightarrow> dispatch_packet call packet cs)"

definition ipv4_ethernet_handler :: "('f \<Rightarrow> ipv4_packet_view \<Rightarrow> 's \<Rightarrow> int \<times> 's) \<Rightarrow> nat \<Rightarrow> ethernet_frame_view
    \<Rightarrow> ('f, 't) ipv4_context \<times> 's \<Rightarrow> int \<times> ('f, 't) ipv4_context \<times> 's" where
  "ipv4_ethernet_handler call port_id frame cs =
     (if ic_port (fst cs) \<noteq> port_id \<or> ef_ether_type frame \<noteq> 0x0800 then (-1, cs)
      else ipv4_receive call (take (ef_payload_length frame) (ef_payload frame)) cs)"

text \<open>The first 20 bytes of the buffer are written; the rest is the caller's payload.\<close>

definition ipv4_build_header :: "u8 list \<Rightarrow> nat \<Rightarrow> u32 \<Rightarrow> u32 \<Rightarrow> u8 \<Rightarrow> u8 \<Rightarrow> u16 \<Rightarrow> bool \<Rightarrow> u8 list option" where
  "ipv4_build_header buffer payload_length source destination protocol ttl identification dont_fragment =
     (if length buffer < IPV4_HEADER_MIN \<or> 0xFFFF - IPV4_HEADER_MIN < payload_length
         \<or> \<not> unicast_address source \<or> destination = 0 \<or> protocol = 0 \<or> ttl = 0 then None
      else let h0 = replicate IPV4_HEADER_MIN 0 @ drop IPV4_HEADER_MIN buffer;
               h1 = h0[0 := 0x45];
               h2 = write_be16 2 (of_nat (IPV4_HEADER_MIN + payload_length)) h1;
               h3 = write_be16 4 identification h2;
               h4 = write_be16 6 (if dont_fragment then 0x4000 else 0) h3;
               h5 = h4[8 := ttl, 9 := protocol];
               h6 = write_be32 12 source h5;
               h7 = write_be32 16 destination h6
           in Some (write_be16 10 (ipv4_checksum (take IPV4_HEADER_MIN h7)) h7))"

section \<open>Header round trip\<close>

definition be32 :: "u32 \<Rightarrow> u8 list" where
  "be32 v = [ucast (drop_bit 24 v), ucast (drop_bit 16 v), ucast (drop_bit 8 v), ucast v]"

definition header_bytes :: "nat \<Rightarrow> u16 \<Rightarrow> u16 \<Rightarrow> u8 \<Rightarrow> u8 \<Rightarrow> u8 list \<Rightarrow> u32 \<Rightarrow> u32 \<Rightarrow> u8 list" where
  "header_bytes len identification fragment ttl protocol sum16 source destination =
     [0x45, 0] @ be16 (of_nat len) @ be16 identification @ be16 fragment @ [ttl, protocol] @ sum16
     @ be32 source @ be32 destination"

lemma build_header_bytes:
  assumes "ipv4_build_header buffer n source destination protocol ttl identification df = Some packet"
  shows "packet = header_bytes (20 + n) identification (if df then 0x4000 else 0) ttl protocol
    (be16 (checksum (header_bytes (20 + n) identification (if df then 0x4000 else 0) ttl protocol [0, 0] source destination)))
    source destination @ drop 20 buffer"
proof -
  have z: "replicate 20 (0 :: u8) = [0,0,0,0,0,0,0,0,0,0,0,0,0,0,0,0,0,0,0,0]" by (simp add: numeral_eq_Suc)
  show ?thesis
    using assms
    by (auto simp: ipv4_build_header_def Let_def IPV4_HEADER_MIN_def z write_be16_def write_be32_def header_bytes_def
        be16_def be32_def ipv4_checksum_def checksum_def split: if_splits)
qed

lemma read_be32_be32: "read_be32 (be32 v @ rest) = v"
  by (simp add: be32_def read_be32_def be32_bytes)

lemma header_length: "length sum16 = 2 \<Longrightarrow> length (header_bytes l i f t p sum16 s d) = 20"
  by (simp add: header_bytes_def be32_def)

lemma header_checksum:
  assumes "c = checksum (header_bytes l i f t p [0, 0] s d)"
  shows "checksum (header_bytes l i f t p (be16 c) s d) = 0"
proof -
  let ?pre = "[0x45, 0] @ be16 (of_nat l) @ be16 i @ be16 f @ [t, p]" and ?post = "be32 s @ be32 d"
  have z: "header_bytes l i f t p [0, 0] s d = ?pre @ [0, 0] @ ?post"
    "header_bytes l i f t p (be16 c) s d = ?pre @ [ucast (drop_bit 8 c), ucast c] @ ?post"
    by (simp_all add: header_bytes_def be16_def)
  have "even (length ?pre)" "length ?pre + 2 + length ?post \<le> 65535" by (simp_all add: be16_def be32_def)
  from checksum_insert [OF this] show ?thesis using assms unfolding z by simp
qed

lemma header_fields:
  assumes "length sum16 = 2"
  shows "header_bytes l i f t p sum16 s d @ rest = 0x45 # 0 # be16 (of_nat l) @ be16 i @ be16 f @ t # p # sum16
      @ be32 s @ be32 d @ rest"
    and "drop 2 (header_bytes l i f t p sum16 s d @ rest) = be16 (of_nat l) @ drop 4 (header_bytes l i f t p sum16 s d @ rest)"
    and "drop 4 (header_bytes l i f t p sum16 s d @ rest) = be16 i @ drop 6 (header_bytes l i f t p sum16 s d @ rest)"
    and "drop 6 (header_bytes l i f t p sum16 s d @ rest) = be16 f @ drop 8 (header_bytes l i f t p sum16 s d @ rest)"
    and "drop 12 (header_bytes l i f t p sum16 s d @ rest) = be32 s @ drop 16 (header_bytes l i f t p sum16 s d @ rest)"
    and "drop 16 (header_bytes l i f t p sum16 s d @ rest) = be32 d @ rest"
    and "drop 20 (header_bytes l i f t p sum16 s d @ rest) = rest"
    and "(header_bytes l i f t p sum16 s d @ rest) ! 8 = t" and "(header_bytes l i f t p sum16 s d @ rest) ! 9 = p"
  using assms by (simp_all add: header_bytes_def be16_def be32_def nth_append)

lemma parse_header:
  assumes sum16: "length sum16 = 2" "checksum (header_bytes (20 + length rest) i f t p sum16 s d) = 0"
    and len: "20 + length rest \<le> 65535" and t: "t \<noteq> 0" and s: "unicast_address s"
    and f: "f AND 0x8000 = 0" "f AND 0x3FFF = 0"
  shows "ipv4_parse (header_bytes (20 + length rest) i f t p sum16 s d @ rest) =
    Inr \<lparr>ip_packet = header_bytes (20 + length rest) i f t p sum16 s d @ rest, ip_payload = rest,
      ip_packet_length = 20 + length rest, ip_header_length = 20, ip_payload_length = length rest, ip_source = s,
      ip_destination = d, ip_identification = i, ip_fragment = f, ip_ttl = t, ip_protocol = p, ip_dscp_ecn = 0\<rparr>"
proof -
  let ?h = "header_bytes (20 + length rest) i f t p sum16 s d"
  note hf = header_fields [OF sum16(1), of "20 + length rest" i f t p s d rest]
  have b0: "(?h @ rest) ! 0 = 0x45" "(?h @ rest) ! 1 = 0" by (simp_all add: hf(1))
  have tl: "unat (of_nat (20 + length rest) :: u16) = 20 + length rest"
    using len by (simp only: unat_of_nat) (rule mod_less, simp)
  have rd: "read_be16 (drop 2 (?h @ rest)) = of_nat (20 + length rest)" "read_be16 (drop 4 (?h @ rest)) = i"
    "read_be16 (drop 6 (?h @ rest)) = f" "read_be32 (drop 12 (?h @ rest)) = s" "read_be32 (drop 16 (?h @ rest)) = d"
    using hf(2-6) by (simp_all only: read_be16_be16 read_be32_be32)
  have cs: "ipv4_checksum (take 20 (?h @ rest)) = 0"
    using sum16(2) header_length [OF sum16(1)] by (simp add: ipv4_checksum_def checksum_def) (simp add: header_bytes_def)
  have ver: "drop_bit 4 (0x45 :: u8) = 4" "unat (0x45 AND 0x0F :: u8) * 4 = 20" by (simp_all add: drop_bit_eq_div)
  have ln: "length (?h @ rest) = 20 + length rest" using header_length [OF sum16(1)] by simp
  show ?thesis
    unfolding ipv4_parse_def Let_def IPV4_HEADER_MIN_def b0 ver ln rd tl
    using cs t s f hf(7-9) by simp
qed

section \<open>Counters\<close>

definition is_drops :: "ipv4_stats \<Rightarrow> u64" where
  "is_drops st = is_drops_length st + is_drops_version st + is_drops_checksum st + is_drops_ttl st + is_drops_source st
     + is_drops_destination st + is_drops_fragment st + is_drops_protocol st + is_drops_land st + is_drops_spoof st"

definition ipv4_stats_ok :: "ipv4_stats \<Rightarrow> bool" where
  "ipv4_stats_ok st \<longleftrightarrow> is_packets st = is_unicast st + is_broadcast st"

lemma istat_simps [simp]:
  "ic_stats (istat f ctx) = f (ic_stats ctx)" "ic_handlers (istat f ctx) = ic_handlers ctx"
  "ic_local_address (istat f ctx) = ic_local_address ctx"
  by (simp_all add: istat_def)

lemma count_error_facts [simp]:
  "is_drops (count_error e st) = is_drops st + 1" "ipv4_stats_ok (count_error e st) = ipv4_stats_ok st"
  by (cases e; simp add: count_error_def is_drops_def ipv4_stats_ok_def)+

lemma count_packet_facts [simp]:
  "is_drops (count_packet b v st) = is_drops st" "ipv4_stats_ok st \<Longrightarrow> ipv4_stats_ok (count_packet b v st)"
  by (simp_all add: count_packet_def is_drops_def ipv4_stats_ok_def Let_def)

lemma count_refused [simp]:
  "is_drops (is_drops_source_update (\<lambda>n. n + 1) st) = is_drops st + 1"
  "is_drops (is_drops_land_update (\<lambda>n. n + 1) st) = is_drops st + 1"
  "is_drops (is_drops_spoof_update (\<lambda>n. n + 1) st) = is_drops st + 1"
  "is_drops (is_drops_destination_update (\<lambda>n. n + 1) st) = is_drops st + 1"
  "is_drops (is_drops_protocol_update (\<lambda>n. n + 1) st) = is_drops st + 1"
  "ipv4_stats_ok (is_drops_source_update (\<lambda>n. n + 1) st) = ipv4_stats_ok st"
  "ipv4_stats_ok (is_drops_land_update (\<lambda>n. n + 1) st) = ipv4_stats_ok st"
  "ipv4_stats_ok (is_drops_spoof_update (\<lambda>n. n + 1) st) = ipv4_stats_ok st"
  "ipv4_stats_ok (is_drops_destination_update (\<lambda>n. n + 1) st) = ipv4_stats_ok st"
  "ipv4_stats_ok (is_drops_protocol_update (\<lambda>n. n + 1) st) = ipv4_stats_ok st"
  by (simp_all add: is_drops_def ipv4_stats_ok_def)

lemma deliver_counts:
  assumes "deliver_packet call packet ctx s = (r, ctx', s')"
  shows "ipv4_stats_ok (ic_stats ctx') = ipv4_stats_ok (ic_stats ctx)
    \<and> is_drops (ic_stats ctx') = is_drops (ic_stats ctx) + (if r < 0 then 1 else 0)"
  using assms by (auto simp: deliver_packet_def split: if_splits option.splits prod.splits)

lemma dispatch_counts:
  assumes "ipv4_stats_ok (ic_stats ctx)" and "dispatch_packet call packet (ctx, s) = (r, ctx', s')"
  shows "ipv4_stats_ok (ic_stats ctx') \<and> is_drops (ic_stats ctx') = is_drops (ic_stats ctx) + (if r < 0 then 1 else 0)"
  using assms by (auto simp: dispatch_packet_def Let_def dest!: deliver_counts split: if_splits)

lemma ipv4_receive_counts:
  assumes "ipv4_stats_ok (ic_stats ctx)" and "ipv4_receive call data (ctx, s) = (r, ctx', s')"
  shows "ipv4_stats_ok (ic_stats ctx') \<and> is_drops (ic_stats ctx') = is_drops (ic_stats ctx) + (if r < 0 then 1 else 0)"
  using assms dispatch_counts [of ctx call _ s r ctx' s']
  by (auto simp: ipv4_receive_def split: sum.splits)

text \<open>The conditions under which a packet reaches the handler of its protocol.\<close>

definition deliverable :: "('f, 't) ipv4_context \<Rightarrow> ipv4_packet_view \<Rightarrow> bool" where
  "deliverable ctx packet \<longleftrightarrow>
     (drop_bit 24 (ip_source packet) = 127 \<longleftrightarrow> drop_bit 24 (ic_local_address ctx) = 127)
     \<and> (drop_bit 24 (ic_local_address ctx) \<noteq> 127 \<longrightarrow>
          ip_source packet \<noteq> ip_destination packet \<and> ip_source packet \<noteq> ic_local_address ctx)
     \<and> (ip_destination packet = ic_local_address ctx \<or> ip_broadcast ctx packet \<and> ic_accept_broadcast ctx)"

lemma dispatch_deliverable:
  "dispatch_packet call packet (ctx, s) = (r, ctx', s') \<Longrightarrow> s' \<noteq> s \<Longrightarrow> deliverable ctx packet
     \<and> deliver_packet call packet (istat (count_packet (ip_broadcast ctx packet) packet) ctx) s = (r, ctx', s')"
  by (auto simp: dispatch_packet_def deliverable_def Let_def split: if_splits)

lemma deliver_handler:
  assumes "deliver_packet call packet ctx s = (r, ctx', s')" and "s' \<noteq> s"
  shows "\<exists>h \<in> set (ic_handlers ctx). ih_protocol h = ip_protocol packet \<and> s' = snd (call (ih_function h) packet s)"
proof (cases "first_index (\<lambda>h. ih_protocol h = ip_protocol packet) (ic_handlers ctx)")
  case None
  with assms show ?thesis by (simp add: deliver_packet_def)
next
  case (Some i)
  have "s' = snd (call (ih_function (ic_handlers ctx ! i)) packet s)"
    using assms(1) Some by (auto simp: deliver_packet_def split: if_splits prod.splits)
  with first_indexD(1,2) [OF Some] show ?thesis by (auto intro: nth_mem)
qed

lemma dispatch_delivers:
  "dispatch_packet call packet (ctx, s) = (r, ctx', s') \<Longrightarrow> s' \<noteq> s \<Longrightarrow>
     deliverable ctx packet \<and> (\<exists>h \<in> set (ic_handlers ctx). ih_protocol h = ip_protocol packet
       \<and> s' = snd (call (ih_function h) packet s))"
  using dispatch_deliverable [of call packet ctx s r ctx' s'] deliver_handler by fastforce

lemma ipv4_parse_sound:
  assumes "ipv4_parse bytes = Inr v"
  shows "20 \<le> ip_header_length v \<and> ip_header_length v \<le> ip_packet_length v \<and> ip_packet_length v \<le> length bytes
    \<and> ip_payload v = drop (ip_header_length v) bytes \<and> ip_payload_length v = ip_packet_length v - ip_header_length v
    \<and> checksum (take (ip_header_length v) bytes) = 0 \<and> drop_bit 4 (bytes ! 0) = 4 \<and> ip_ttl v \<noteq> 0
    \<and> unicast_address (ip_source v) \<and> ip_fragment v AND 0xBFFF = 0"
proof -
  have frag: "f AND 0xBFFF = 0" if "f AND 0x8000 = 0" "f AND 0x3FFF = 0" for f :: u16
  proof -
    have "(0xBFFF :: u16) = 0x8000 OR 0x3FFF" by simp
    then show ?thesis using that by (simp only: bit.conj_disj_distrib or.right_neutral)
  qed
  from assms frag show ?thesis
    by (auto simp: ipv4_parse_def Let_def IPV4_HEADER_MIN_def ipv4_checksum_def checksum_def split: if_splits)
qed

lemma build_then_parse:
  assumes b: "ipv4_build_header buffer n source destination protocol ttl identification df = Some packet"
    and len: "length buffer = 20 + n"
  shows "ipv4_parse packet = Inr \<lparr>ip_packet = packet, ip_payload = drop 20 buffer, ip_packet_length = 20 + n,
    ip_header_length = 20, ip_payload_length = n, ip_source = source, ip_destination = destination,
    ip_identification = identification, ip_fragment = (if df then 0x4000 else 0), ip_ttl = ttl,
    ip_protocol = protocol, ip_dscp_ecn = 0\<rparr>"
proof -
  let ?f = "if df then 0x4000 else 0 :: u16"
  define c where "c = checksum (header_bytes (20 + n) identification ?f ttl protocol [0, 0] source destination)"
  have rest: "length (drop 20 buffer) = n" using len by simp
  have p: "packet = header_bytes (20 + n) identification ?f ttl protocol (be16 c) source destination @ drop 20 buffer"
    using build_header_bytes [OF b] by (simp add: c_def)
  have "n \<le> 65515" "ttl \<noteq> 0" "unicast_address source"
    using b by (auto simp: ipv4_build_header_def IPV4_HEADER_MIN_def split: if_splits)
  with parse_header [of "be16 c" "drop 20 buffer" identification ?f ttl protocol source destination]
    header_checksum [OF c_def] rest show ?thesis unfolding p by simp
qed

section \<open>Properties\<close>

text \<open>
  C27. What the sender builds the receiver parses: a header built in front of a payload is
  accepted by the parser, whatever the addresses, protocol, lifetime and identification the
  builder admits, and every field and the payload come back as they went in.
\<close>

theorem ipv4_header_roundtrip:
  assumes b: "ipv4_build_header buffer n source destination protocol ttl identification df = Some packet"
    and len: "length buffer = 20 + n"
  shows "ipv4_parse packet = Inr \<lparr>ip_packet = packet, ip_payload = drop 20 buffer, ip_packet_length = 20 + n,
    ip_header_length = 20, ip_payload_length = n, ip_source = source, ip_destination = destination,
    ip_identification = identification, ip_fragment = (if df then 0x4000 else 0), ip_ttl = ttl,
    ip_protocol = protocol, ip_dscp_ecn = 0\<rparr>"
  using assms by (rule build_then_parse)

text \<open>
  C29. The parser stays within the packet and lets through only sound headers: an accepted
  packet has a header of at least 20 bytes inside the stated length, which is inside the data;
  the header sums to zero, the version is 4, the lifetime is not zero, the source is a unicast
  address and the packet is no fragment.
\<close>

theorem ipv4_parse_checks:
  assumes "ipv4_parse bytes = Inr v"
  shows "20 \<le> ip_header_length v \<and> ip_header_length v \<le> ip_packet_length v \<and> ip_packet_length v \<le> length bytes
    \<and> ip_payload v = drop (ip_header_length v) bytes \<and> ip_payload_length v = ip_packet_length v - ip_header_length v
    \<and> checksum (take (ip_header_length v) bytes) = 0 \<and> drop_bit 4 (bytes ! 0) = 4 \<and> ip_ttl v \<noteq> 0
    \<and> unicast_address (ip_source v) \<and> ip_fragment v AND 0xBFFF = 0"
  using assms by (rule ipv4_parse_sound)

text \<open>
  C28. Only packets meant for this host reach a protocol, and every other one is counted: if
  receiving data has any effect beyond the counters, the data parses to a packet that is not
  from this host's own address, not from its own destination, not loopback traffic from
  outside, and is addressed to this host or to a broadcast address it accepts; and every
  receive either succeeds or adds exactly one to the ten drop counters together.
\<close>

theorem ipv4_delivers_only_local:
  assumes "ipv4_stats_ok (ic_stats ctx)" and "ipv4_receive call data (ctx, s) = (r, ctx', s')"
  shows "(s' \<noteq> s \<longrightarrow> (\<exists>packet. ipv4_parse data = Inr packet \<and> deliverable ctx packet
       \<and> (\<exists>h \<in> set (ic_handlers ctx). ih_protocol h = ip_protocol packet \<and> s' = snd (call (ih_function h) packet s))))
    \<and> is_drops (ic_stats ctx') = is_drops (ic_stats ctx) + (if r < 0 then 1 else 0)
    \<and> is_packets (ic_stats ctx') = is_unicast (ic_stats ctx') + is_broadcast (ic_stats ctx')"
proof -
  have "\<exists>packet. ipv4_parse data = Inr packet \<and> deliverable ctx packet
      \<and> (\<exists>h \<in> set (ic_handlers ctx). ih_protocol h = ip_protocol packet \<and> s' = snd (call (ih_function h) packet s))"
    if "s' \<noteq> s"
  proof (cases "ipv4_parse data")
    case (Inl e)
    with assms(2) that show ?thesis by (simp add: ipv4_receive_def)
  next
    case (Inr packet)
    with assms(2) have "dispatch_packet call packet (ctx, s) = (r, ctx', s')" by (simp add: ipv4_receive_def)
    from dispatch_delivers [OF this that] Inr show ?thesis by blast
  qed
  with ipv4_receive_counts [OF assms] show ?thesis by (simp add: ipv4_stats_ok_def)
qed

section \<open>Witnesses\<close>

definition sample_packet :: "u8 list" where
  "sample_packet = the (ipv4_build_header (replicate 20 0 @ [1, 2, 3]) 3 0xC0A80002 0xC0A80001 17 64 7 True)"

lemma sample_built: "ipv4_build_header (replicate 20 0 @ [1, 2, 3]) 3 0xC0A80002 0xC0A80001 17 64 7 True = Some sample_packet"
proof -
  have "unicast_address 0xC0A80002" by (simp add: unicast_address_def drop_bit_eq_div)
  then show ?thesis unfolding sample_packet_def by (simp add: ipv4_build_header_def Let_def IPV4_HEADER_MIN_def)
qed

theorem ipv4_header_roundtrip_witness:
  "\<exists>v. ipv4_parse sample_packet = Inr v \<and> ip_payload v = [1, 2, 3] \<and> ip_source v = 0xC0A80002"
  using ipv4_header_roundtrip [OF sample_built] by simp

lemma sample_parse:
  "ipv4_parse sample_packet = Inr \<lparr>ip_packet = sample_packet, ip_payload = [1, 2, 3], ip_packet_length = 23,
    ip_header_length = 20, ip_payload_length = 3, ip_source = 0xC0A80002, ip_destination = 0xC0A80001,
    ip_identification = 7, ip_fragment = 0x4000, ip_ttl = 64, ip_protocol = 17, ip_dscp_ecn = 0\<rparr>"
  using build_then_parse [OF sample_built] by simp

theorem ipv4_parse_checks_witness: "checksum (take 20 sample_packet) = 0"
  using ipv4_parse_checks [OF sample_parse] by simp

definition sample_context :: "(nat, nat) ipv4_context" where
  "sample_context = snd (ipv4_register_protocol 17 3 (the (fst (snd
     (ipv4_init 1 0xC0A80001 0xFFFFFF00 True (0 :: nat) sample_port)))))"

theorem ipv4_delivers_only_local_witness:
  "\<exists>packet. ipv4_parse sample_packet = Inr packet \<and> deliverable sample_context packet"
proof -
  let ?call = "\<lambda>(f :: nat) (v :: ipv4_packet_view) (s :: nat). (0 :: int, s + f)"
  obtain r ctx' s' where rc: "ipv4_receive ?call sample_packet (sample_context, 0) = (r, ctx', s')" by (metis prod_cases3)
  have ok: "ipv4_stats_ok (ic_stats sample_context)" by code_simp
  have ctx: "ic_local_address sample_context = 0xC0A80001"
    "ic_handlers sample_context = [\<lparr>ih_protocol = 17, ih_function = 3\<rparr>]" by code_simp+
  have "snd (snd (ipv4_receive ?call sample_packet (sample_context, 0))) = 3"
    by (simp add: ipv4_receive_def sample_parse dispatch_packet_def deliver_packet_def ctx drop_bit_eq_div)
  with rc have "s' \<noteq> 0" by simp
  with ipv4_delivers_only_local [OF ok rc] show ?thesis by blast
qed

end
