(* ===== verification/Dns.thy ===== *)
theory Dns
  imports Wire
begin

text \<open>
  DNS messages, \<^verbatim>\<open>src/net/dns_message.c\<close>: the query encoder, the walk over possibly
  compressed names and the reply parser. A C string is the list of its characters (without
  the terminating zero); \<open>char_at\<close> reads the zero behind it.
\<close>

section \<open>Names\<close>

definition DNS_NAME_MAX :: nat where "DNS_NAME_MAX = 255"
definition DNS_LABEL_MAX :: nat where "DNS_LABEL_MAX = 63"
definition DNS_ADDRESS_MAX :: nat where "DNS_ADDRESS_MAX = 4"
definition DNS_CNAME_MAX :: nat where "DNS_CNAME_MAX = 8"
definition DNS_JUMP_MAX :: nat where "DNS_JUMP_MAX = 16"
definition DNS_TYPE_A :: u32 where "DNS_TYPE_A = 1"
definition DNS_TYPE_CNAME :: u32 where "DNS_TYPE_CNAME = 5"
definition DNS_TYPE_AAAA :: u32 where "DNS_TYPE_AAAA = 28"

lemmas dns_limits = DNS_NAME_MAX_def DNS_LABEL_MAX_def DNS_ADDRESS_MAX_def DNS_CNAME_MAX_def DNS_JUMP_MAX_def

type_synonym cstring = "u8 list"

definition char_at :: "cstring \<Rightarrow> nat \<Rightarrow> u8" where
  "char_at s i = (if i < length s then s ! i else 0)"

definition dot :: u8 where "dot = 46"

definition name_length :: "cstring \<Rightarrow> nat" where
  "name_length name = min (length name) (DNS_NAME_MAX + 1)"

definition lower :: "u8 \<Rightarrow> u8" where
  "lower a = (if 65 \<le> a \<and> a \<le> 90 then a + 32 else a)"

text \<open>The comparison loop, with the number of characters it may still look at.\<close>

fun names_equal_from :: "nat \<Rightarrow> nat \<Rightarrow> cstring \<Rightarrow> cstring \<Rightarrow> bool" where
  "names_equal_from 0 index left right = False"
| "names_equal_from (Suc n) index left right =
     (let a = lower (char_at left index); b = lower (char_at right index) in
      if a \<noteq> b then False else if a = 0 then True else names_equal_from n (index + 1) left right)"

definition names_equal :: "cstring \<Rightarrow> cstring \<Rightarrow> bool" where
  "names_equal left right = names_equal_from (DNS_NAME_MAX + 1) 0 left right"

text \<open>The encoder: labels with their lengths. The recursion shortens the name by a label.\<close>

function encode_labels :: "nat \<Rightarrow> cstring \<Rightarrow> u8 list \<Rightarrow> u8 list option" where
  "encode_labels limit name out =
     (if name = [] then Some out
      else let label = takeWhile (\<lambda>c. c \<noteq> dot) name in
           if label = [] \<or> DNS_LABEL_MAX < length label then None
           else if limit \<le> length out + length label + 1 then None
           else encode_labels limit (drop (length label + 1) name) (out @ of_nat (length label) # label))"
  by auto
termination
  by (relation "measure (\<lambda>(_, name, _). length name)") auto

declare encode_labels.simps [simp del]

definition encode_name :: "nat \<Rightarrow> cstring \<Rightarrow> u8 list option" where
  "encode_name limit name =
     (case encode_labels limit name [] of
        None \<Rightarrow> None
      | Some out \<Rightarrow> if out = [] \<or> limit < length out + 1 then None else Some (out @ [0]))"

text \<open>
  The walk over a name. \<open>next\<close> is where the name ends in the message, known once a pointer
  has been followed; the text is \<open>None\<close> when the caller wants none, and then \<open>written\<close>
  counts the octets of the name.
\<close>

record walk =
  wk_jumps :: nat
  wk_cursor :: nat
  wk_next :: "nat option"
  wk_text :: "cstring option"
  wk_written :: nat

definition add_label :: "nat \<Rightarrow> u8 list \<Rightarrow> walk \<Rightarrow> walk option" where
  "add_label text_limit label w =
     (case wk_text w of
        Some text \<Rightarrow>
          let text1 = (if text \<noteq> [] \<and> length text + 1 < text_limit then text @ [dot] else text) in
          if text_limit \<le> length text1 + length label then None
          else Some (w\<lparr>wk_text := Some (text1 @ label)\<rparr>)
      | None \<Rightarrow> if DNS_NAME_MAX < wk_written w + length label + 1 then None
                else Some (w\<lparr>wk_written := wk_written w + length label + 1\<rparr>))"

lemma add_label_cursor: "add_label limit label w = Some w' \<Longrightarrow> wk_cursor w' = wk_cursor w \<and> wk_jumps w' = wk_jumps w"
  by (auto simp: add_label_def Let_def split: option.splits if_splits)

function walk_name :: "u8 list \<Rightarrow> nat \<Rightarrow> walk \<Rightarrow> (nat \<times> cstring option) option" where
  "walk_name message text_limit w =
     (let cursor = wk_cursor w in
      if length message \<le> cursor then None
      else let marker = message ! cursor in
      if marker AND 0xC0 = 0xC0
      then if length message \<le> cursor + 1 then None
           else let target = unat (marker AND 0x3F) * 256 + unat (message ! (cursor + 1)) in
                if cursor \<le> target then None
                else if DNS_JUMP_MAX < wk_jumps w + 1 then None
                else walk_name message text_limit (w\<lparr>wk_jumps := wk_jumps w + 1, wk_cursor := target,
                       wk_next := (case wk_next w of None \<Rightarrow> Some (cursor + 2) | Some n \<Rightarrow> Some n)\<rparr>)
      else if marker AND 0xC0 \<noteq> 0 then None
      else if marker = 0 then Some (case wk_next w of None \<Rightarrow> cursor + 1 | Some n \<Rightarrow> n, wk_text w)
      else if DNS_LABEL_MAX < unat marker then None
      else if length message < cursor + 1 + unat marker then None
      else case add_label text_limit (take (unat marker) (drop (cursor + 1) message)) w of
             None \<Rightarrow> None
           | Some w' \<Rightarrow> walk_name message text_limit (w'\<lparr>wk_cursor := cursor + 1 + unat marker\<rparr>))"
  by auto
termination
  by (relation "inv_image (less_than <*lex*> less_than)
       (\<lambda>(message, _, w). (Suc DNS_JUMP_MAX - wk_jumps w, length message - wk_cursor w))")
    (auto dest!: add_label_cursor)

declare walk_name.simps [simp del]

definition skip_name :: "u8 list \<Rightarrow> nat \<Rightarrow> cstring option \<Rightarrow> nat \<Rightarrow> (nat \<times> cstring option) option" where
  "skip_name message offset text text_limit =
     walk_name message text_limit \<lparr>wk_jumps = 0, wk_cursor = offset, wk_next = None, wk_text = text, wk_written = 0\<rparr>"

section \<open>Messages\<close>

text \<open>The query; the caller's buffer has \<open>limit\<close> bytes.\<close>

definition dns_build_query :: "nat \<Rightarrow> cstring \<Rightarrow> u32 \<Rightarrow> u32 \<Rightarrow> u8 list option" where
  "dns_build_query limit name type transaction =
     (if limit < 12 + 5 then None
      else let length' = name_length name in
      if length' = 0 \<or> DNS_NAME_MAX < length' then None
      else case encode_name (limit - 12 - 4) name of
             None \<Rightarrow> None
           | Some encoded \<Rightarrow>
               Some (be16 (ucast transaction) @ be16 0x0100 @ be16 1 @ replicate 6 0
                     @ encoded @ be16 (ucast type) @ be16 1))"

definition question_matches :: "u8 list \<Rightarrow> cstring \<Rightarrow> u32 \<Rightarrow> nat option" where
  "question_matches message name type =
     (case skip_name message 12 (Some []) (DNS_NAME_MAX + 1) of
        Some (next, Some parsed) \<Rightarrow>
          if length message < next + 4 then None
          else if ucast (read_be16 (drop next message)) \<noteq> type then None
          else if read_be16 (drop (next + 2) message) \<noteq> 1 then None
          else if \<not> names_equal parsed name then None
          else Some (next + 4)
      | _ \<Rightarrow> None)"

record dns_result =
  dr_ipv4 :: "u32 list"
  dr_ipv6 :: "u8 list list"
  dr_ttl :: u32

definition note_ttl :: "u32 \<Rightarrow> dns_result \<Rightarrow> dns_result" where
  "note_ttl ttl r = (if dr_ttl r = 0 \<or> ttl < dr_ttl r then r\<lparr>dr_ttl := ttl\<rparr> else r)"

text \<open>One answer: the cursor, the name now wanted, the aliases so far and the result move on.\<close>

record answers =
  an_cursor :: nat
  an_wanted :: cstring
  an_aliases :: nat
  an_result :: dns_result

definition add_ipv4 :: "u32 \<Rightarrow> dns_result \<Rightarrow> dns_result" where
  "add_ipv4 address r = (if length (dr_ipv4 r) < DNS_ADDRESS_MAX then r\<lparr>dr_ipv4 := dr_ipv4 r @ [address]\<rparr> else r)"

definition add_ipv6 :: "u8 list \<Rightarrow> dns_result \<Rightarrow> dns_result" where
  "add_ipv6 address r = (if length (dr_ipv6 r) < DNS_ADDRESS_MAX then r\<lparr>dr_ipv6 := dr_ipv6 r @ [address]\<rparr> else r)"

text \<open>A record whose owner is the wanted name: type, time to live, size and offset of its data.\<close>

definition use_record :: "u8 list \<Rightarrow> u32 \<Rightarrow> u32 \<Rightarrow> u32 \<Rightarrow> nat \<Rightarrow> nat \<Rightarrow> answers \<Rightarrow> answers option" where
  "use_record message type rtype ttl rsize data a =
     (if rtype = DNS_TYPE_CNAME
      then if DNS_CNAME_MAX < an_aliases a + 1 then None
           else case skip_name message data (Some []) (DNS_NAME_MAX + 1) of
                  Some (_, Some wanted') \<Rightarrow>
                    Some (a\<lparr>an_aliases := an_aliases a + 1, an_wanted := wanted', an_result := note_ttl ttl (an_result a)\<rparr>)
                | _ \<Rightarrow> None
      else if rtype = DNS_TYPE_A \<and> type = DNS_TYPE_A
      then if rsize \<noteq> 4 then None
           else Some (a\<lparr>an_result := note_ttl ttl (add_ipv4 (read_be32 (drop data message)) (an_result a))\<rparr>)
      else if rtype = DNS_TYPE_AAAA \<and> type = DNS_TYPE_AAAA
      then if rsize \<noteq> 16 then None
           else Some (a\<lparr>an_result := note_ttl ttl (add_ipv6 (take 16 (drop data message)) (an_result a))\<rparr>)
      else Some a)"

definition parse_answer :: "u8 list \<Rightarrow> u32 \<Rightarrow> answers \<Rightarrow> answers option" where
  "parse_answer message type a =
     (case skip_name message (an_cursor a) (Some []) (DNS_NAME_MAX + 1) of
        Some (next, Some owner) \<Rightarrow>
          if length message < next + 10 then None
          else let rtype = ucast (read_be16 (drop next message));
                   klass = read_be16 (drop (next + 2) message);
                   ttl = read_be32 (drop (next + 4) message);
                   rsize = unat (read_be16 (drop (next + 8) message));
                   data = next + 10 in
          if length message < data + rsize then None
          else let a1 = a\<lparr>an_cursor := data + rsize\<rparr> in
          if klass \<noteq> 1 \<or> \<not> names_equal owner (an_wanted a) then Some a1
          else use_record message type rtype ttl rsize data a1
      | _ \<Rightarrow> None)"

fun parse_answers :: "u8 list \<Rightarrow> u32 \<Rightarrow> nat \<Rightarrow> answers \<Rightarrow> answers option" where
  "parse_answers message type 0 a = Some a"
| "parse_answers message type (Suc n) a =
     (case parse_answer message type a of None \<Rightarrow> None | Some a' \<Rightarrow> parse_answers message type n a')"

text \<open>A discarded reply, a truncated one, or an answer.\<close>

datatype dns_reply = Discard | Truncated | Answer dns_result

definition dns_parse_reply :: "u8 list \<Rightarrow> cstring \<Rightarrow> u32 \<Rightarrow> u32 \<Rightarrow> dns_reply" where
  "dns_parse_reply message name type transaction =
     (if length message < 12 then Discard
      else if read_be16 message \<noteq> ucast transaction then Discard
      else let flags = read_be16 (drop 2 message) in
      if flags AND 0x8000 = 0 then Discard
      else if flags AND 0x0200 \<noteq> 0 then Truncated
      else if flags AND 0x000F \<noteq> 0 then Discard
      else if read_be16 (drop 4 message) \<noteq> 1 then Discard
      else let answers = unat (read_be16 (drop 6 message)) in
      case question_matches message name type of
        None \<Rightarrow> Discard
      | Some cursor \<Rightarrow>
          (case parse_answers message type answers \<lparr>an_cursor = cursor, an_wanted = take DNS_NAME_MAX name,
                  an_aliases = 0, an_result = \<lparr>dr_ipv4 = [], dr_ipv6 = [], dr_ttl = 0\<rparr>\<rparr> of
             None \<Rightarrow> Discard
           | Some a \<Rightarrow> if dr_ipv4 (an_result a) \<noteq> [] \<or> dr_ipv6 (an_result a) \<noteq> [] then Answer (an_result a) else Discard))"

section \<open>Bounds\<close>

definition walk_ok :: "u8 list \<Rightarrow> nat \<Rightarrow> walk \<Rightarrow> bool" where
  "walk_ok message limit w \<longleftrightarrow> (\<forall>n. wk_next w = Some n \<longrightarrow> n \<le> length message)
     \<and> (\<forall>t. wk_text w = Some t \<longrightarrow> length t < limit)"

lemma add_label_ok: "walk_ok message limit w \<Longrightarrow> add_label limit label w = Some w' \<Longrightarrow>
    walk_ok message limit (w'\<lparr>wk_cursor := c\<rparr>) \<and> (wk_text w' = None \<longleftrightarrow> wk_text w = None)"
  by (auto simp: add_label_def walk_ok_def Let_def split: option.splits if_splits)

lemma walk_name_bounds:
  "walk_ok message limit w \<Longrightarrow> walk_name message limit w = Some (n, t) \<Longrightarrow>
     n \<le> length message \<and> (\<forall>text. t = Some text \<longrightarrow> length text < limit) \<and> (t = None \<longleftrightarrow> wk_text w = None)"
proof (induction message limit w rule: walk_name.induct)
  case (1 message limit w)
  let ?c = "wk_cursor w" and ?m = "message ! wk_cursor w"
  have c: "?c < length message" using 1(4) by (auto simp: walk_name.simps [of message limit w] Let_def split: if_splits)
  consider (jump) "?m AND 0xC0 = 0xC0" | (stop) "?m AND 0xC0 = 0" "?m = 0"
    | (label) "?m AND 0xC0 = 0" "?m \<noteq> 0" | (bad) "?m AND 0xC0 \<noteq> 0xC0" "?m AND 0xC0 \<noteq> 0" by blast
  then show ?case
  proof cases
    case jump
    let ?t = "unat (?m AND 0x3F) * 256 + unat (message ! (?c + 1))"
    let ?w = "w\<lparr>wk_jumps := wk_jumps w + 1, wk_cursor := ?t,
      wk_next := (case wk_next w of None \<Rightarrow> Some (?c + 2) | Some n \<Rightarrow> Some n)\<rparr>"
    have g: "?c + 1 < length message" "\<not> ?c \<le> ?t" "\<not> DNS_JUMP_MAX < wk_jumps w + 1"
      and rec: "walk_name message limit ?w = Some (n, t)"
      using 1(4) jump c by (auto simp: walk_name.simps [of message limit w] Let_def split: if_splits)
    have "walk_ok message limit ?w" using 1(3) g(1) by (auto simp: walk_ok_def split: option.splits)
    from 1(1) [OF refl _ refl jump _ refl g(2,3) this rec] c g(1) show ?thesis by simp
  next
    case stop
    with 1(3,4) c show ?thesis
      by (auto simp: walk_name.simps [of message limit w] Let_def walk_ok_def split: if_splits option.splits)
  next
    case label
    have g: "\<not> DNS_LABEL_MAX < unat ?m" "\<not> length message < ?c + 1 + unat ?m"
      using 1(4) label c by (auto simp: walk_name.simps [of message limit w] Let_def split: if_splits)
    obtain w' where a: "add_label limit (take (unat ?m) (drop (?c + 1) message)) w = Some w'"
      and rec: "walk_name message limit (w'\<lparr>wk_cursor := ?c + 1 + unat ?m\<rparr>) = Some (n, t)"
      using 1(4) label c g by (auto simp: walk_name.simps [of message limit w] Let_def split: if_splits option.splits)
    note ok = add_label_ok [OF 1(3) a]
    have nm: "?m AND 0xC0 \<noteq> 0xC0" using label(1) by simp
    from 1(2) [OF refl _ refl nm _ label(2) g a _ rec] ok c label(1) show ?thesis by simp
  next
    case bad
    with 1(4) c show ?thesis by (simp add: walk_name.simps [of message limit w])
  qed
qed

lemma skip_name_bounds:
  assumes "skip_name message offset (Some []) (DNS_NAME_MAX + 1) = Some (n, t)"
  shows "n \<le> length message" and "\<exists>text. t = Some text \<and> length text \<le> 255"
proof -
  have "walk_ok message (DNS_NAME_MAX + 1) \<lparr>wk_jumps = 0, wk_cursor = offset, wk_next = None, wk_text = Some [],
      wk_written = 0\<rparr>" by (simp add: walk_ok_def dns_limits)
  from walk_name_bounds [OF this assms [unfolded skip_name_def]]
  show "n \<le> length message" "\<exists>text. t = Some text \<and> length text \<le> 255" by (cases t; auto simp: dns_limits)+
qed

section \<open>A query is recognised\<close>












section \<open>Replies\<close>

definition result_ok :: "u32 \<Rightarrow> dns_result \<Rightarrow> bool" where
  "result_ok type r \<longleftrightarrow> length (dr_ipv4 r) \<le> DNS_ADDRESS_MAX \<and> length (dr_ipv6 r) \<le> DNS_ADDRESS_MAX
     \<and> (dr_ipv4 r \<noteq> [] \<longrightarrow> type = DNS_TYPE_A) \<and> (dr_ipv6 r \<noteq> [] \<longrightarrow> type = DNS_TYPE_AAAA)
     \<and> (\<forall>a \<in> set (dr_ipv6 r). length a = 16)"

lemma note_ttl_fields [simp]: "dr_ipv4 (note_ttl ttl r) = dr_ipv4 r" "dr_ipv6 (note_ttl ttl r) = dr_ipv6 r"
  by (simp_all add: note_ttl_def)

lemma note_ttl_ok [simp]: "result_ok type (note_ttl ttl r) = result_ok type r"
  by (simp add: result_ok_def)

lemma parse_answer_ok:
  assumes "result_ok type (an_result a)" and "parse_answer message type a = Some a'"
  shows "result_ok type (an_result a') \<and> an_cursor a' \<le> length message"
proof -
  from assms(2) obtain next' owner where sk: "skip_name message (an_cursor a) (Some []) (DNS_NAME_MAX + 1) = Some (next', Some owner)"
    and len: "\<not> length message < next' + 10"
    by (auto simp: parse_answer_def split: option.splits if_splits)
  let ?rsize = "unat (read_be16 (drop (next' + 8) message))" and ?data = "next' + 10"
  have fits: "\<not> length message < ?data + ?rsize" using assms(2) sk len by (auto simp: parse_answer_def Let_def split: if_splits)
  have use: "result_ok type (an_result b') \<and> an_cursor b' = an_cursor b"
    if "use_record message type rt ttl ?rsize ?data b = Some b'" "result_ok type (an_result b)" for rt ttl b b'
    using that fits
    by (auto simp: use_record_def result_ok_def add_ipv4_def add_ipv6_def DNS_TYPE_A_def DNS_TYPE_AAAA_def
        split: if_splits option.splits)
  show ?thesis
    using assms sk len fits by (auto simp: parse_answer_def Let_def split: if_splits dest!: use)
qed

lemma parse_answers_ok:
  "result_ok type (an_result a) \<Longrightarrow> parse_answers message type n a = Some a' \<Longrightarrow> result_ok type (an_result a')"
proof (induction n arbitrary: a)
  case (Suc n)
  then obtain b where b: "parse_answer message type a = Some b" "parse_answers message type n b = Some a'"
    by (auto split: option.splits)
  from parse_answer_ok [OF Suc.prems(1) b(1)] Suc.IH [OF _ b(2)] show ?case by blast
qed simp

section \<open>Properties\<close>


text \<open>
  C32. Walking a name stays in bounds on every message: whatever bytes a server sends and
  wherever the walk starts, it returns (the jump counter and the cursor bound it), the offset
  it reports lies within the message and the text fits the 256-byte buffer with its
  terminator.
\<close>

theorem dns_walk_in_bounds:
  assumes "skip_name message offset (Some []) (DNS_NAME_MAX + 1) = Some (n, t)"
  shows "n \<le> length message \<and> (\<exists>text. t = Some text \<and> length text \<le> 255)"
  using skip_name_bounds [OF assms] by simp

text \<open>
  C33. Only a matching reply is answered: an accepted reply carries the transaction number and
  the question of the query, is marked as a response, untruncated and without error; it gives
  at least one and at most four addresses, only of the family asked for, and IPv6 addresses of
  16 bytes read from inside the message.
\<close>

theorem dns_reply_checked:
  assumes "dns_parse_reply message name type transaction = Answer r"
  shows "read_be16 message = ucast transaction \<and> read_be16 (drop 2 message) AND 0x8000 \<noteq> 0
    \<and> read_be16 (drop 2 message) AND 0x0200 = 0 \<and> read_be16 (drop 2 message) AND 0x000F = 0
    \<and> question_matches message name type \<noteq> None \<and> result_ok type r \<and> (dr_ipv4 r \<noteq> [] \<or> dr_ipv6 r \<noteq> [])"
proof -
  let ?a = "\<lambda>c. \<lparr>an_cursor = c, an_wanted = take DNS_NAME_MAX name, an_aliases = 0,
      an_result = \<lparr>dr_ipv4 = [], dr_ipv6 = [], dr_ttl = 0\<rparr>\<rparr>"
  from assms obtain c a where q: "question_matches message name type = Some c"
    and pa: "parse_answers message type (unat (read_be16 (drop 6 message))) (?a c) = Some a" "r = an_result a"
    by (auto simp: dns_parse_reply_def Let_def split: if_splits option.splits)
  have "result_ok type (an_result (?a c))" by (simp add: result_ok_def)
  from parse_answers_ok [OF this pa(1)] assms q pa(2) show ?thesis
    by (auto simp: dns_parse_reply_def Let_def split: if_splits option.splits)
qed

section \<open>Two quirks\<close>

text \<open>
  A name written with a final dot is encoded like the name without it, but then compared with
  the dot, so no reply to it is ever accepted.
\<close>

lemma dns_trailing_dot_unanswered:
  "map_option (\<lambda>q. question_matches q [97, 46] 1) (dns_build_query 512 [97, 46] 1 7) = Some None"
  "dns_build_query 512 [97, 46] 1 7 = dns_build_query 512 [97] 1 7"
  by code_simp+

text \<open>A record with time to live 0 is taken for none: a later, longer time replaces it.\<close>

lemma dns_zero_ttl_forgotten: "dr_ttl r = 0 \<Longrightarrow> dr_ttl (note_ttl 300 (note_ttl 0 r)) = 300"
  by (simp add: note_ttl_def)

section \<open>Witnesses\<close>

definition sample_query :: "u8 list" where
  "sample_query = the (dns_build_query 512 [97, 46, 98] 1 7)"

text \<open>The query with the response bit, one answer: a pointer to the question, type A, 10.0.0.1.\<close>

definition sample_reply :: "u8 list" where
  "sample_reply = sample_query[2 := 0x81, 7 := 1] @ [0xC0, 12, 0, 1, 0, 1, 0, 0, 0, 60, 0, 4, 10, 0, 0, 1]"



theorem dns_walk_in_bounds_witness:
  "\<exists>n t. skip_name sample_reply 21 (Some []) (DNS_NAME_MAX + 1) = Some (n, t) \<and> n \<le> length sample_reply"
proof -
  have "skip_name sample_reply 21 (Some []) (DNS_NAME_MAX + 1) = Some (23, Some [97, 46, 98])" by code_simp
  with dns_walk_in_bounds [OF this] show ?thesis by blast
qed

theorem dns_reply_checked_witness:
  "\<exists>r. dns_parse_reply sample_reply [97, 46, 98] 1 7 = Answer r \<and> result_ok 1 r"
proof -
  have "dns_parse_reply sample_reply [97, 46, 98] 1 7 = Answer \<lparr>dr_ipv4 = [0x0A000001], dr_ipv6 = [], dr_ttl = 60\<rparr>"
    by code_simp
  with dns_reply_checked [OF this] show ?thesis by blast
qed

end
