(* ===== verification/Pledge.thy ===== *)
theory Pledge
  imports Tasks
begin

text \<open>
  The promise and veil sandbox of the POSIX profile, \<^verbatim>\<open>src/process/posix_pledge.c\<close>: the
  per-slot state, the promise vocabulary and its parser, pledge, unveil, the inheritance on
  fork and exec, the syscall gates and the veil check. The path walk belongs to the file
  system: what it answers for a path, the identity of a node and of its ancestors, is an
  argument of the operations that ask for it.
\<close>

section \<open>State\<close>

definition POSIX_PLEDGE_EPERM :: int where "POSIX_PLEDGE_EPERM = -1"
definition POSIX_PLEDGE_ENOENT :: int where "POSIX_PLEDGE_ENOENT = -2"
definition POSIX_PLEDGE_E2BIG :: int where "POSIX_PLEDGE_E2BIG = -7"
definition POSIX_PLEDGE_EACCES :: int where "POSIX_PLEDGE_EACCES = -13"
definition POSIX_PLEDGE_EINVAL :: int where "POSIX_PLEDGE_EINVAL = -22"
definition POSIX_PLEDGE_ENOSYS :: int where "POSIX_PLEDGE_ENOSYS = -38"

definition POSIX_PLEDGE_STDIO :: u32 where "POSIX_PLEDGE_STDIO = push_bit 0 1"
definition POSIX_PLEDGE_RPATH :: u32 where "POSIX_PLEDGE_RPATH = push_bit 1 1"
definition POSIX_PLEDGE_WPATH :: u32 where "POSIX_PLEDGE_WPATH = push_bit 2 1"
definition POSIX_PLEDGE_CPATH :: u32 where "POSIX_PLEDGE_CPATH = push_bit 3 1"
definition POSIX_PLEDGE_FATTR :: u32 where "POSIX_PLEDGE_FATTR = push_bit 4 1"
definition POSIX_PLEDGE_PROC :: u32 where "POSIX_PLEDGE_PROC = push_bit 5 1"
definition POSIX_PLEDGE_EXEC :: u32 where "POSIX_PLEDGE_EXEC = push_bit 6 1"
definition POSIX_PLEDGE_UNVEIL :: u32 where "POSIX_PLEDGE_UNVEIL = push_bit 7 1"
definition POSIX_PLEDGE_ERROR :: u32 where "POSIX_PLEDGE_ERROR = push_bit 8 1"
definition POSIX_PLEDGE_NET :: u32 where "POSIX_PLEDGE_NET = push_bit 9 1"

definition POSIX_VEIL_READ :: u32 where "POSIX_VEIL_READ = push_bit 0 1"
definition POSIX_VEIL_WRITE :: u32 where "POSIX_VEIL_WRITE = push_bit 1 1"
definition POSIX_VEIL_EXECUTE :: u32 where "POSIX_VEIL_EXECUTE = push_bit 2 1"
definition POSIX_VEIL_CREATE :: u32 where "POSIX_VEIL_CREATE = push_bit 3 1"

definition POSIX_PLEDGE_UNVEIL_MAX :: nat where "POSIX_PLEDGE_UNVEIL_MAX = 12"

lemmas promise_bits = POSIX_PLEDGE_STDIO_def POSIX_PLEDGE_RPATH_def POSIX_PLEDGE_WPATH_def
  POSIX_PLEDGE_CPATH_def POSIX_PLEDGE_FATTR_def POSIX_PLEDGE_PROC_def POSIX_PLEDGE_EXEC_def
  POSIX_PLEDGE_UNVEIL_def POSIX_PLEDGE_ERROR_def POSIX_PLEDGE_NET_def

lemmas pledge_codes = POSIX_PLEDGE_EPERM_def POSIX_PLEDGE_ENOENT_def POSIX_PLEDGE_E2BIG_def
  POSIX_PLEDGE_EACCES_def POSIX_PLEDGE_EINVAL_def POSIX_PLEDGE_ENOSYS_def

text \<open>
  What the file system tells of a node. Names are C strings, so comparing two of them up to
  the terminator is equality.
\<close>

datatype node_kind = VFS_NODE_REGULAR | VFS_NODE_DIRECTORY | VFS_NODE_SYMLINK

record vfs_node_identity =
  ni_slot :: u32
  ni_generation :: u32
  ni_parent :: u32
  ni_parent_generation :: u32
  ni_type :: node_kind
  ni_name :: string

record posix_veil_entry =
  ve_slot :: u32
  ve_generation :: u32
  ve_parent :: u32
  ve_parent_generation :: u32
  ve_name :: string
  ve_permissions :: u8
  ve_is_directory :: bool
  ve_used :: bool

record posix_pledge_state =
  promises :: u32
  exec_promises :: u32
  entry_count :: nat
  promised :: bool
  has_exec_promises :: bool
  veiled :: bool
  locked :: bool
  entries :: "posix_veil_entry list"

definition zero_entry :: posix_veil_entry where
  "zero_entry = \<lparr>ve_slot = 0, ve_generation = 0, ve_parent = 0, ve_parent_generation = 0, ve_name = [],
     ve_permissions = 0, ve_is_directory = False, ve_used = False\<rparr>"

definition zero_pledge :: posix_pledge_state where
  "zero_pledge = \<lparr>promises = 0, exec_promises = 0, entry_count = 0, promised = False,
     has_exec_promises = False, veiled = False, locked = False,
     entries = replicate POSIX_PLEDGE_UNVEIL_MAX zero_entry\<rparr>"

text \<open>The operations address the table of all tasks by the task's slot.\<close>

type_synonym pledge_table = "posix_pledge_state list"

definition pledge_for :: "nat \<Rightarrow> pledge_table \<Rightarrow> posix_pledge_state option" where
  "pledge_for slot states = (if MAX_TASKS \<le> slot then None else Some (states ! slot))"

definition posix_pledge_reset :: "nat \<Rightarrow> pledge_table \<Rightarrow> pledge_table" where
  "posix_pledge_reset slot states =
     (case pledge_for slot states of None \<Rightarrow> states | Some _ \<Rightarrow> states[slot := zero_pledge])"

definition posix_pledge_fork :: "nat \<Rightarrow> nat \<Rightarrow> pledge_table \<Rightarrow> pledge_table" where
  "posix_pledge_fork parent child states =
     (case (pledge_for parent states, pledge_for child states) of
        (Some from, Some _) \<Rightarrow> states[child := from]
      | _ \<Rightarrow> states)"

definition exec_state :: "posix_pledge_state \<Rightarrow> posix_pledge_state" where
  "exec_state st =
     (let st1 = (if has_exec_promises st
        then st\<lparr>promises := exec_promises st, has_exec_promises := False\<rparr> else st)
      in st1\<lparr>exec_promises := 0\<rparr>)"

definition posix_pledge_exec :: "nat \<Rightarrow> pledge_table \<Rightarrow> pledge_table" where
  "posix_pledge_exec slot states =
     (case pledge_for slot states of None \<Rightarrow> states | Some st \<Rightarrow> states[slot := exec_state st])"

section \<open>Promises\<close>

definition promise_table :: "(string \<times> u32) list" where
  "promise_table =
    [(''stdio'', POSIX_PLEDGE_STDIO), (''rpath'', POSIX_PLEDGE_RPATH), (''wpath'', POSIX_PLEDGE_WPATH),
     (''cpath'', POSIX_PLEDGE_CPATH), (''fattr'', POSIX_PLEDGE_FATTR), (''proc'', POSIX_PLEDGE_PROC),
     (''exec'', POSIX_PLEDGE_EXEC), (''unveil'', POSIX_PLEDGE_UNVEIL), (''error'', POSIX_PLEDGE_ERROR),
     (''net'', POSIX_PLEDGE_NET)]"

definition promise_token :: "string \<Rightarrow> u32 option" where
  "promise_token token = map_of promise_table token"

text \<open>The scan of \<^verbatim>\<open>parse_promises\<close>: skip spaces, take a word, add its bit.\<close>

function parse_from :: "string \<Rightarrow> u32 \<Rightarrow> u32 option" where
  "parse_from string acc =
     (let rest = dropWhile (\<lambda>c. c = CHR '' '') string
      in if rest = [] then Some acc
         else (case promise_token (takeWhile (\<lambda>c. c \<noteq> CHR '' '') rest) of
             None \<Rightarrow> None
           | Some b \<Rightarrow> parse_from (dropWhile (\<lambda>c. c \<noteq> CHR '' '') rest) (acc OR b)))"
  by pat_completeness auto

lemma dropWhile_progress:
  "dropWhile P string \<noteq> [] \<Longrightarrow> length (dropWhile (\<lambda>c. \<not> P c) (dropWhile P string)) < length string"
proof (induction string)
  case (Cons c cs)
  then show ?case
    by (cases "P c") (use length_dropWhile_le [of "\<lambda>c. \<not> P c" cs] in auto)
qed simp

termination parse_from
proof (relation "measure (\<lambda>(string, acc). length string)")
  fix string acc rest b
  assume "rest = dropWhile (\<lambda>c. c = CHR '' '') string" "rest \<noteq> []"
  then show "((dropWhile (\<lambda>c. c \<noteq> CHR '' '') rest, acc OR b), string, acc)
      \<in> measure (\<lambda>(string, acc). length string)"
    using dropWhile_progress [of "\<lambda>c. c = CHR '' ''" string] by simp
qed simp

declare parse_from.simps [simp del]

definition parse_promises :: "string option \<Rightarrow> u32 option" where
  "parse_promises string = (case string of None \<Rightarrow> Some 0 | Some str \<Rightarrow> parse_from str 0)"

text \<open>The two halves of \<^verbatim>\<open>posix_pledge_promise\<close>, on the caller's entry.\<close>

definition promise_half :: "string option \<Rightarrow> posix_pledge_state \<Rightarrow> int \<times> posix_pledge_state" where
  "promise_half string st =
     (if string = None then (0, st)
      else (case parse_promises string of
          None \<Rightarrow> (POSIX_PLEDGE_EINVAL, st)
        | Some nxt \<Rightarrow>
            (if promised st \<and> nxt AND NOT (promises st) \<noteq> 0 then (POSIX_PLEDGE_EPERM, st)
             else (let st1 = st\<lparr>promises := nxt, promised := True\<rparr>
               in (0, if nxt AND POSIX_PLEDGE_UNVEIL = 0 then st1\<lparr>locked := True\<rparr> else st1)))))"

definition execpromise_half :: "string option \<Rightarrow> posix_pledge_state \<Rightarrow> int \<times> posix_pledge_state" where
  "execpromise_half string st =
     (if string = None then (0, st)
      else (case parse_promises string of
          None \<Rightarrow> (POSIX_PLEDGE_EINVAL, st)
        | Some nxt \<Rightarrow>
            (if has_exec_promises st \<and> nxt AND NOT (exec_promises st) \<noteq> 0 then (POSIX_PLEDGE_EPERM, st)
             else (0, st\<lparr>exec_promises := nxt, has_exec_promises := True\<rparr>))))"

definition posix_pledge_promise ::
  "nat \<Rightarrow> string option \<Rightarrow> string option \<Rightarrow> pledge_table \<Rightarrow> int \<times> pledge_table" where
  "posix_pledge_promise slot string execstring states =
     (case pledge_for slot states of
        None \<Rightarrow> (POSIX_PLEDGE_EPERM, states)
      | Some st \<Rightarrow>
          (let (r, st1) = promise_half string st
           in if r \<noteq> 0 then (r, states[slot := st1])
              else (let (r2, st2) = execpromise_half execstring st1 in (r2, states[slot := st2]))))"

section \<open>The veil\<close>

fun parse_permissions_from :: "string \<Rightarrow> u32 \<Rightarrow> u32 option" where
  "parse_permissions_from [] permissions = Some permissions"
| "parse_permissions_from (c # cs) permissions =
     (if c = CHR ''r'' then parse_permissions_from cs (permissions OR POSIX_VEIL_READ)
      else if c = CHR ''w'' then parse_permissions_from cs (permissions OR POSIX_VEIL_WRITE)
      else if c = CHR ''x'' then parse_permissions_from cs (permissions OR POSIX_VEIL_EXECUTE)
      else if c = CHR ''c'' then parse_permissions_from cs (permissions OR POSIX_VEIL_CREATE)
      else None)"

definition parse_permissions :: "string option \<Rightarrow> u32 option" where
  "parse_permissions string = (case string of None \<Rightarrow> None | Some str \<Rightarrow> parse_permissions_from str 0)"

definition same_node :: "posix_veil_entry \<Rightarrow> vfs_node_identity \<Rightarrow> bool" where
  "same_node e i \<longleftrightarrow> ve_slot e = ni_slot i \<and> ve_generation e = ni_generation i"

definition same_name :: "posix_veil_entry \<Rightarrow> vfs_node_identity \<Rightarrow> bool" where
  "same_name e i \<longleftrightarrow> ve_parent e = ni_parent i \<and> ve_parent_generation e = ni_parent_generation i
     \<and> ve_name e = ni_name i"



text \<open>The rules in force are the first \<open>entry_count\<close> entries; a chain is a node and its ancestors.\<close>

definition rules :: "posix_pledge_state \<Rightarrow> posix_veil_entry list" where
  "rules st = take (entry_count st) (entries st)"



definition rule_matches :: "vfs_node_identity \<Rightarrow> posix_veil_entry \<Rightarrow> bool" where
  "rule_matches i e \<longleftrightarrow> ve_used e \<and> ve_is_directory e = (ni_type i = VFS_NODE_DIRECTORY)
     \<and> (same_node e i \<or> ni_type i \<noteq> VFS_NODE_DIRECTORY \<and> same_name e i)"

definition new_rule :: "vfs_node_identity \<Rightarrow> u32 \<Rightarrow> posix_veil_entry" where
  "new_rule i bits = \<lparr>ve_slot = ni_slot i, ve_generation = ni_generation i, ve_parent = ni_parent i,
     ve_parent_generation = ni_parent_generation i, ve_name = ni_name i, ve_permissions = ucast bits,
     ve_is_directory = (ni_type i = VFS_NODE_DIRECTORY), ve_used = True\<rparr>"

text \<open>The part of \<^verbatim>\<open>posix_pledge_unveil\<close> after the path has been resolved to a node.\<close>

definition unveil_node :: "vfs_node_identity \<Rightarrow> u32 \<Rightarrow> posix_pledge_state \<Rightarrow> int \<times> posix_pledge_state" where
  "unveil_node i bits st =
     (case first_index (rule_matches i) (rules st) of
        Some k \<Rightarrow>
          (let e = entries st ! k
           in if bits AND NOT (ucast (ve_permissions e)) \<noteq> 0 then (POSIX_PLEDGE_EPERM, st)
              else (0, st\<lparr>entries := (entries st)[k := e\<lparr>ve_permissions := ucast bits\<rparr>], veiled := True\<rparr>))
      | None \<Rightarrow>
          (if POSIX_PLEDGE_UNVEIL_MAX \<le> entry_count st then (POSIX_PLEDGE_E2BIG, st)
           else (0, st\<lparr>entries := (entries st)[entry_count st := new_rule i bits],
                      entry_count := entry_count st + 1, veiled := True\<rparr>)))"

text \<open>
  The path argument is \<open>None\<close> for a null pointer, otherwise what the path resolves to: \<open>Some
  None\<close> when it names no node.
\<close>

definition unveil_state ::
  "vfs_node_identity option option \<Rightarrow> string option \<Rightarrow> posix_pledge_state \<Rightarrow> int \<times> posix_pledge_state" where
  "unveil_state path permissions st =
     (if path = None \<and> permissions = None then
        (if locked st then (POSIX_PLEDGE_EPERM, st) else (0, st\<lparr>locked := True\<rparr>))
      else if path = None \<or> permissions = None then (POSIX_PLEDGE_EINVAL, st)
      else if locked st then (POSIX_PLEDGE_EPERM, st)
      else if promised st \<and> promises st AND POSIX_PLEDGE_UNVEIL = 0 then (POSIX_PLEDGE_EPERM, st)
      else (case parse_permissions permissions of
          None \<Rightarrow> (POSIX_PLEDGE_EINVAL, st)
        | Some bits \<Rightarrow>
            (case the path of
               None \<Rightarrow> (POSIX_PLEDGE_ENOENT, st)
             | Some i \<Rightarrow> unveil_node i bits st)))"

definition posix_pledge_unveil ::
  "nat \<Rightarrow> vfs_node_identity option option \<Rightarrow> string option \<Rightarrow> pledge_table \<Rightarrow> int \<times> pledge_table" where
  "posix_pledge_unveil slot path permissions states =
     (case pledge_for slot states of
        None \<Rightarrow> (POSIX_PLEDGE_EPERM, states)
      | Some st \<Rightarrow> (let (r, st1) = unveil_state path permissions st in (r, states[slot := st1])))"

section \<open>The gates\<close>

text \<open>
  The system call numbers of \<^verbatim>\<open>posix_abi.h\<close> each promise covers. stdio: close, read, write,
  lseek, dup, dup2, fcntl, fstat, getcwd, brk, getrandom, pread, pwrite, fsync, fdatasync,
  clock\_gettime, clock\_getres, nanosleep, sigaction, sigprocmask, sigreturn, sigpending, pipe,
  poll, ioctl. rpath: stat, chdir, getdents, readlink, lstat, access. wpath: truncate,
  ftruncate. cpath: mkdir, rmdir, unlink, link, rename, symlink. fattr: chmod, fchmod, chown,
  umask, utimensat, futimens. proc: fork, waitpid, kill. exec: execve. net: socket, bind,
  listen, accept, connect.
\<close>

definition required_promises :: "nat \<Rightarrow> u32" where
  "required_promises number =
     (if number \<in> set [187, 188, 189, 190, 191, 192, 193, 195, 200, 208, 209, 228, 229, 230, 231,
        235, 236, 237, 239, 240, 241, 242, 245, 262, 263] then POSIX_PLEDGE_STDIO
      else if number \<in> set [194, 199, 217, 225, 226, 232] then POSIX_PLEDGE_RPATH
      else if number \<in> set [201, 227] then POSIX_PLEDGE_WPATH
      else if number \<in> set [196, 197, 198, 222, 223, 224] then POSIX_PLEDGE_CPATH
      else if number \<in> set [218, 219, 220, 221, 233, 234] then POSIX_PLEDGE_FATTR
      else if number \<in> set [202, 205, 238] then POSIX_PLEDGE_PROC
      else if number = 203 then POSIX_PLEDGE_EXEC
      else if number \<in> set [246, 247, 248, 249, 250] then POSIX_PLEDGE_NET
      else 0)"

definition gate_mask :: "posix_pledge_state \<Rightarrow> u32 \<Rightarrow> int" where
  "gate_mask st need =
     (if \<not> promised st \<or> need = 0 then 0
      else if promises st AND need = need then 0
      else if promises st AND POSIX_PLEDGE_ERROR \<noteq> 0 then POSIX_PLEDGE_ENOSYS
      else 1)"

definition posix_pledge_gate :: "nat \<Rightarrow> nat \<Rightarrow> pledge_table \<Rightarrow> int" where
  "posix_pledge_gate slot number states =
     (case pledge_for slot states of None \<Rightarrow> 0 | Some st \<Rightarrow> gate_mask st (required_promises number))"






section \<open>The parser reads words\<close>

text \<open>The words of a string, cut at every space: the specification of the scan.\<close>

fun cut :: "string \<Rightarrow> string \<Rightarrow> string list" where
  "cut [] w = [w]"
| "cut (c # cs) w = (if c = CHR '' '' then w # cut cs [] else cut cs (w @ [c]))"

definition words :: "string \<Rightarrow> string list" where
  "words string = filter (\<lambda>w. w \<noteq> []) (cut string [])"

lemma cut_span:
  "cut s w = (w @ takeWhile (\<lambda>c. c \<noteq> CHR '' '') s) #
     (case dropWhile (\<lambda>c. c \<noteq> CHR '' '') s of [] \<Rightarrow> [] | _ # cs \<Rightarrow> cut cs [])"
  by (induction s arbitrary: w) auto

lemma words_space: "words (CHR '' '' # s) = words s"
  by (simp add: words_def)

lemma words_dropWhile: "words (dropWhile (\<lambda>c. c = CHR '' '') s) = words s"
  by (induction s) (auto simp: words_space)

lemma words_Nil: "words [] = []"
  by (simp add: words_def)

lemma words_word:
  assumes "s \<noteq> []" and "hd s \<noteq> CHR '' ''"
  shows "words s = takeWhile (\<lambda>c. c \<noteq> CHR '' '') s # words (dropWhile (\<lambda>c. c \<noteq> CHR '' '') s)"
proof -
  have ne: "takeWhile (\<lambda>c. c \<noteq> CHR '' '') s \<noteq> []" using assms by (cases s) auto
  show ?thesis
  proof (cases "dropWhile (\<lambda>c. c \<noteq> CHR '' '') s")
    case Nil
    with ne show ?thesis unfolding words_def Nil by (subst cut_span) (simp add: Nil del: dropWhile_eq_Nil_conv)
  next
    case (Cons c cs)
    then have "c = CHR '' ''" using hd_dropWhile [of "\<lambda>c. c \<noteq> CHR '' ''" s] by simp
    with Cons ne show ?thesis unfolding words_def by (subst cut_span) simp
  qed
qed

lemma parse_from_words:
  "parse_from s acc = (if \<forall>w \<in> set (words s). promise_token w \<noteq> None
     then Some (fold (\<lambda>w a. a OR the (promise_token w)) (words s) acc) else None)"
proof (induction s acc rule: parse_from.induct)
  case (1 s acc)
  let ?r = "dropWhile (\<lambda>c. c = CHR '' '') s"
  show ?case
  proof (cases "?r = []")
    case True
    then have "words s = []" using words_dropWhile [of s] by (simp only: True words_Nil)
    with True show ?thesis by (simp add: parse_from.simps [of s])
  next
    case False
    then have "hd ?r \<noteq> CHR '' ''" using hd_dropWhile [of "\<lambda>c. c = CHR '' ''" s] by simp
    then have w: "words s = takeWhile (\<lambda>c. c \<noteq> CHR '' '') ?r # words (dropWhile (\<lambda>c. c \<noteq> CHR '' '') ?r)"
      using words_word [OF False] words_dropWhile [of s] by simp
    show ?thesis
    proof (cases "promise_token (takeWhile (\<lambda>c. c \<noteq> CHR '' '') ?r)")
      case None
      with False w show ?thesis by (simp add: parse_from.simps [of s] Let_def)
    next
      case (Some b)
      from 1 [OF refl False Some] False Some w show ?thesis
        by (simp only: parse_from.simps [of s] Let_def if_False option.case) auto
    qed
  qed
qed

lemma fold_or_bit:
  "bit (fold (\<lambda>w a. a OR f w) ws (acc :: u32)) n \<longleftrightarrow> bit acc n \<or> (\<exists>w \<in> set ws. bit (f w) n)"
  by (induction ws arbitrary: acc) (auto simp: bit_simps)

lemma promise_table_bits:
  "list_all (\<lambda>k. snd (promise_table ! k) = push_bit k 1) [0..<10]"
  "list_all (\<lambda>(w, b). list_all (\<lambda>k. bit b k = (w = fst (promise_table ! k))) [0..<10]) promise_table"
  by code_simp+

lemma promise_token_bit:
  assumes "(name, c) \<in> set promise_table"
  shows "\<exists>k < 10. c = push_bit k 1 \<and> (\<forall>w. promise_token w \<noteq> None \<longrightarrow> bit (the (promise_token w)) k = (w = name))"
proof -
  have "length promise_table = 10" by (simp add: promise_table_def)
  with assms obtain k where k: "k < 10" "promise_table ! k = (name, c)"
    by (metis in_set_conv_nth)
  have "bit b k = (v = name)" if "promise_token v = Some b" for v b
    using promise_table_bits(2) k map_of_SomeD [OF that [unfolded promise_token_def]]
    by (auto simp: list_all_iff)
  moreover have "c = push_bit k 1" using k promise_table_bits(1) by (auto simp: list_all_iff dest!: bspec [of _ _ k])
  ultimately show ?thesis using k(1) by auto
qed

section \<open>A sandbox only narrows\<close>

text \<open>The order in which a state may change: fewer promises, and a locked veil stays as it is.\<close>

definition narrows :: "posix_pledge_state \<Rightarrow> posix_pledge_state \<Rightarrow> bool" where
  "narrows st st' \<longleftrightarrow> (promised st \<longrightarrow> promised st' \<and> promises st' AND NOT (promises st) = 0)
     \<and> (locked st \<longrightarrow> locked st' \<and> rules st' = rules st \<and> veiled st' = veiled st)"

lemma narrows_refl [simp]: "narrows st st"
  by (simp add: narrows_def)







datatype pledge_op = Reset nat | Fork nat nat | Exec nat
  | Promise nat "string option" "string option"
  | Unveil nat "vfs_node_identity option option" "string option"

fun pledge_step :: "pledge_op \<Rightarrow> pledge_table \<Rightarrow> pledge_table" where
  "pledge_step (Reset slot) states = posix_pledge_reset slot states"
| "pledge_step (Fork parent child) states = posix_pledge_fork parent child states"
| "pledge_step (Exec slot) states = posix_pledge_exec slot states"
| "pledge_step (Promise slot string execstring) states = snd (posix_pledge_promise slot string execstring states)"
| "pledge_step (Unveil slot path permissions) states = snd (posix_pledge_unveil slot path permissions states)"




lemma length_pledge_step [simp]: "length (pledge_step op states) = length states"
  by (cases op) (auto simp: posix_pledge_reset_def posix_pledge_fork_def posix_pledge_exec_def
      posix_pledge_promise_def posix_pledge_unveil_def split: option.splits prod.splits)



section \<open>The tables stay well formed\<close>


definition pledge_init :: pledge_table where
  "pledge_init = replicate MAX_TASKS zero_pledge"













lemma pledge_gate_words:
  assumes "\<forall>w \<in> set (words string). promise_token w \<noteq> None" and "promised st"
    and "promises st = fold (\<lambda>w a. a OR the (promise_token w)) (words string) 0"
  shows "gate_mask st need = 0 \<longleftrightarrow>
     need = 0 \<or> promises st AND need = need"
    and "(name, need) \<in> set promise_table \<Longrightarrow> promises st AND need = need \<longleftrightarrow> name \<in> set (words string)"
proof -
  show "gate_mask st need = 0 \<longleftrightarrow> need = 0 \<or> promises st AND need = need"
    using assms(2) by (auto simp: gate_mask_def pledge_codes)
  assume "(name, need) \<in> set promise_table"
  from promise_token_bit [OF this] obtain k where k: "k < 10" "need = push_bit k 1"
    "\<And>w. promise_token w \<noteq> None \<Longrightarrow> bit (the (promise_token w)) k = (w = name)" by blast
  have "promises st AND need = need \<longleftrightarrow> bit (promises st) k"
    using k(1,2) by (auto simp: mask_covers bit_exp_iff)
  also have "\<dots> \<longleftrightarrow> name \<in> set (words string)"
    using k(3) assms(1,3) by (auto simp: fold_or_bit)
  finally show "promises st AND need = need \<longleftrightarrow> name \<in> set (words string)" .
qed

lemma required_promises_table: "required_promises number = 0 \<or> required_promises number \<in> snd ` set promise_table"
  unfolding required_promises_def by (simp only: split: if_split) (simp add: promise_table_def)

section \<open>Properties\<close>


text \<open>
  C34. A first pledge grants exactly the words of its string: with an unknown word it is
  refused and changes nothing; otherwise a system call passes the gate if and only if it needs
  no promise or the name of the promise it needs is one of the words, whatever their order,
  repetition and spacing.
\<close>

theorem pledge_grants_words:
  assumes "length states = MAX_TASKS" and "slot < MAX_TASKS" and "\<not> promised (states ! slot)"
    and "posix_pledge_promise slot (Some string) None states = (code, states')"
  shows "(if \<exists>w \<in> set (words string). w \<notin> fst ` set promise_table
     then code = POSIX_PLEDGE_EINVAL \<and> states' = states
     else code = 0 \<and> (posix_pledge_gate slot number states' = 0 \<longleftrightarrow>
       (\<exists>name \<in> set (words string). (name, required_promises number) \<in> set promise_table)
       \<or> required_promises number = 0))"
proof -
  have tok: "promise_token w = None \<longleftrightarrow> w \<notin> fst ` set promise_table" for w
    by (simp add: promise_token_def map_of_eq_None_iff)
  show ?thesis
  proof (cases "\<forall>w \<in> set (words string). promise_token w \<noteq> None")
    case False
    then have "parse_promises (Some string) = None" by (auto simp: parse_promises_def parse_from_words)
    with False tok assms show ?thesis
      by (auto simp: posix_pledge_promise_def pledge_for_def promise_half_def pledge_codes)
  next
    case True
    let ?m = "fold (\<lambda>w a. a OR the (promise_token w)) (words string) 0"
    have "parse_promises (Some string) = Some ?m" using True by (simp add: parse_promises_def parse_from_words)
    with assms have c: "code = 0" "promised (states' ! slot)" "promises (states' ! slot) = ?m"
      by (auto simp: posix_pledge_promise_def pledge_for_def promise_half_def execpromise_half_def Let_def)
    have "posix_pledge_gate slot number states' = 0 \<longleftrightarrow>
        required_promises number = 0 \<or> ?m AND required_promises number = required_promises number"
      using pledge_gate_words(1) [OF True c(2,3)] assms(2) c(3) by (simp add: posix_pledge_gate_def pledge_for_def)
    also have "\<dots> \<longleftrightarrow> (\<exists>name \<in> set (words string). (name, required_promises number) \<in> set promise_table)
       \<or> required_promises number = 0"
      using pledge_gate_words(2) [OF True c(2,3), of _ "required_promises number"] required_promises_table [of number] c(3)
      by fastforce
    finally have "posix_pledge_gate slot number states' = 0 \<longleftrightarrow>
       (\<exists>name \<in> set (words string). (name, required_promises number) \<in> set promise_table)
       \<or> required_promises number = 0" .
    with c(1) True tok show ?thesis by auto
  qed
qed


section \<open>Divergences from the header\<close>

text \<open>
  A process that never pledged for itself and gives promises for the programs it will execute:
  exec installs them but not the flag that they are in force, so the gate stays open, although
  the header says the replacement set takes over.
\<close>

lemma pledge_exec_unenforced:
  assumes "slot < MAX_TASKS" and "length states = MAX_TASKS" and "\<not> promised (states ! slot)"
  shows "posix_pledge_gate slot number
    (posix_pledge_exec slot (snd (posix_pledge_promise slot None (Some string) states))) = 0"
  using assms
  by (auto simp: posix_pledge_gate_def posix_pledge_exec_def posix_pledge_promise_def pledge_for_def
      promise_half_def execpromise_half_def exec_state_def gate_mask_def Let_def split: option.splits)

text \<open>A call whose second string does not parse is refused after its first string took effect.\<close>

lemma pledge_refused_half_applied:
  "case posix_pledge_promise 3 (Some []) (Some ''typo'') pledge_init of (code, states) \<Rightarrow>
     code = POSIX_PLEDGE_EINVAL \<and> posix_pledge_gate 3 188 pledge_init = 0 \<and> posix_pledge_gate 3 188 states = 1"
  by code_simp

text \<open>
  Sending and receiving on a socket, and changing process groups, need no promise, although the
  comment on \<^verbatim>\<open>required_promises\<close> names only exit, getpid, getppid and the pledge calls.
\<close>

lemma send_needs_no_promise: "list_all (\<lambda>number. required_promises number = 0) [251, 252, 253, 254, 265, 267]"
  by code_simp

section \<open>Witnesses\<close>




theorem pledge_grants_words_witness:
  "posix_pledge_gate 3 188 (snd (posix_pledge_promise 3 (Some ''  proc stdio '') None pledge_init)) = 0
   \<and> posix_pledge_gate 3 194 (snd (posix_pledge_promise 3 (Some ''  proc stdio '') None pledge_init)) \<noteq> 0
   \<and> fst (posix_pledge_promise 3 (Some ''stdio typo'') None pledge_init) = POSIX_PLEDGE_EINVAL"
proof -
  have h: "length pledge_init = MAX_TASKS" "3 < MAX_TASKS" "\<not> promised (pledge_init ! 3)"
    "words ''  proc stdio '' = [''proc'', ''stdio'']" "words ''stdio typo'' = [''stdio'', ''typo'']" by code_simp+
  have t: "''proc'' \<in> fst ` set promise_table" "''stdio'' \<in> fst ` set promise_table" "''typo'' \<notin> fst ` set promise_table"
    "(''stdio'', required_promises 188) \<in> set promise_table" "required_promises 194 \<noteq> 0"
    "(''proc'', required_promises 194) \<notin> set promise_table" "(''stdio'', required_promises 194) \<notin> set promise_table"
    by code_simp+
  note g = pledge_grants_words [OF h(1,2,3) prod.collapse [symmetric]]
  show ?thesis
    using g [of "''  proc stdio ''" 188] g [of "''  proc stdio ''" 194] g [of "''stdio typo''"] h(4,5) t by simp
qed



end
