(* ===== verification/Runtime.thy ===== *)
theory Runtime
  imports Tasks
begin

text \<open>
  What the POSIX calls share below the task pool: user memory through the page tables
  (\<^verbatim>\<open>vm64_user_access\<close> and the copies of \<^verbatim>\<open>src/arch/x86_64/memory/vm.c\<close>), the wait status and
  the report of a stopped or continued child (\<^verbatim>\<open>posix_process.c\<close>, \<^verbatim>\<open>task64_report_child\<close> of
  \<^verbatim>\<open>kernel.c\<close>), and sleeping (\<^verbatim>\<open>posix_time.c\<close> and the nanosleep call).
\<close>

section \<open>User memory\<close>

text \<open>
  A page table entry is the physical frame of a present user page and whether it can be
  written; a copy-on-write page that can be resolved counts as one that can. Physical memory
  is shared, so two address spaces may see the same bytes.
\<close>

record runtime_st = tasks_st +
  user_pte :: "u64 \<Rightarrow> u64 \<Rightarrow> (u64 \<times> bool) option"
  frames :: "u64 \<Rightarrow> u8"
  timer_ticks :: u32

definition VM64_USER_BASE :: u64 where "VM64_USER_BASE = 0x100000000"
definition VM64_USER_LIMIT :: u64 where "VM64_USER_LIMIT = 0x120000000"

definition byte_access :: "u64 \<Rightarrow> bool \<Rightarrow> u64 \<Rightarrow> 'a runtime_st_scheme \<Rightarrow> bool" where
  "byte_access root writable a s \<longleftrightarrow>
     (case user_pte s root (drop_bit 12 a) of None \<Rightarrow> False | Some (frame, w) \<Rightarrow> writable \<longrightarrow> w)"

definition vm64_user_access :: "u64 \<Rightarrow> u64 \<Rightarrow> nat \<Rightarrow> bool \<Rightarrow> 'a runtime_st_scheme \<Rightarrow> bool" where
  "vm64_user_access root address len writable s \<longleftrightarrow>
     \<not> (address < VM64_USER_BASE \<or> VM64_USER_LIMIT \<le> address \<or> unat (VM64_USER_LIMIT - address) < len)
     \<and> list_all (\<lambda>k. byte_access root writable (address + of_nat k) s) [0..<len]"

definition physical :: "u64 \<Rightarrow> u64 \<Rightarrow> 'a runtime_st_scheme \<Rightarrow> u64" where
  "physical root a s = fst (the (user_pte s root (drop_bit 12 a))) + (a AND 0xFFF)"

definition vm64_copy_from :: "u64 \<Rightarrow> u64 \<Rightarrow> nat \<Rightarrow> 'a runtime_st_scheme \<Rightarrow> u8 list option" where
  "vm64_copy_from root address len s =
     (if \<not> vm64_user_access root address len False s then None
      else Some (map (\<lambda>k. frames s (physical root (address + of_nat k) s)) [0..<len]))"

definition vm64_copy_to :: "u64 \<Rightarrow> u64 \<Rightarrow> u8 list \<Rightarrow> 'a runtime_st_scheme \<Rightarrow> bool \<times> 'a runtime_st_scheme" where
  "vm64_copy_to root address bytes s =
     (if \<not> vm64_user_access root address (length bytes) True s then (False, s)
      else (True, s\<lparr>frames := fold (\<lambda>k m. m(physical root (address + of_nat k) s := bytes ! k))
                      [0..<length bytes] (frames s)\<rparr>))"

text \<open>Little-endian values in user memory.\<close>

definition le_bytes :: "nat \<Rightarrow> u64 \<Rightarrow> u8 list" where
  "le_bytes n v = map (\<lambda>k. ucast (drop_bit (8 * k) v)) [0..<n]"

fun le_value :: "u8 list \<Rightarrow> u64" where
  "le_value [] = 0"
| "le_value (b # bs) = ucast b OR push_bit 8 (le_value bs)"

definition POSIX_IO_TRANSFERRED_OFFSET :: u64 where "POSIX_IO_TRANSFERRED_OFFSET = 8"

definition posix_io_patch_result :: "nat \<Rightarrow> u64 \<Rightarrow> nat \<Rightarrow> 'a runtime_st_scheme \<Rightarrow> bool \<times> 'a runtime_st_scheme" where
  "posix_io_patch_result i request transferred s =
     vm64_copy_to (t_page_dir (task_pool s ! i)) (request + POSIX_IO_TRANSFERRED_OFFSET)
       (le_bytes 4 (of_nat transferred)) s"

section \<open>Reports to a waiting parent\<close>

definition POSIX_WAIT_UNTRACED :: u32 where "POSIX_WAIT_UNTRACED = 2"
definition POSIX_WAIT_CONTINUED :: u32 where "POSIX_WAIT_CONTINUED = 4"
definition POSIX_WAIT_STATUS_STOPPED :: u32 where "POSIX_WAIT_STATUS_STOPPED = 0x7F"
definition POSIX_WAIT_STATUS_CONTINUED :: u32 where "POSIX_WAIT_STATUS_CONTINUED = 0xFFFF"

definition posix_wait_status :: "u32 \<Rightarrow> u32 \<Rightarrow> u32 \<Rightarrow> u32 \<Rightarrow> u32" where
  "posix_wait_status code signal stop_signal continued =
     (if continued \<noteq> 0 then POSIX_WAIT_STATUS_CONTINUED
      else if stop_signal \<noteq> 0 then POSIX_WAIT_STATUS_STOPPED OR push_bit 8 (stop_signal AND 0x7F)
      else if signal \<noteq> 0 then signal AND 0x7F
      else push_bit 8 (code AND 0xFF))"

text \<open>The parent slot a report goes to, when it waits and asked for this kind of report.\<close>

definition report_parent :: "nat \<Rightarrow> 'a runtime_st_scheme \<Rightarrow> nat option" where
  "report_parent c s =
     (let child = task_pool s ! c; p = unat (PID_SLOT (word_of_int (t_parent_id child)))
      in if task_pool_count s \<le> c \<or> (t_stop_report child = 0 \<and> t_continued_report child = 0) then None
         else if p = 0 \<or> task_pool_count s \<le> p then None
         else (let parent = task_pool s ! p
           in if t_id parent \<noteq> t_parent_id child \<or> t_wait_posix parent = 0 then None
              else if t_stop_report child \<noteq> 0 \<and> t_wait_options parent AND POSIX_WAIT_UNTRACED = 0 then None
              else if t_continued_report child \<noteq> 0 \<and> t_wait_options parent AND POSIX_WAIT_CONTINUED = 0 then None
              else Some p))"

definition task64_report_child :: "nat \<Rightarrow> 'a runtime_st_scheme \<Rightarrow> 'a runtime_st_scheme" where
  "task64_report_child c s =
     (case report_parent c s of
        None \<Rightarrow> s
      | Some p \<Rightarrow>
          (case task_wait_wake (Some p) (t_id (task_pool s ! c)) s of
             (False, _) \<Rightarrow> s
           | (True, s1) \<Rightarrow>
               (let child = task_pool s1 ! c;
                    status = posix_wait_status (word_of_int (t_exit_code child)) 0
                      (t_stop_report child) (t_continued_report child);
                    address = t_wait_status_address (task_pool s1 ! p);
                    s2 = task_upd c (\<lambda>t. t\<lparr>t_stop_report := 0, t_continued_report := 0\<rparr>) s1;
                    s3 = task_upd p (\<lambda>t. t\<lparr>t_wait_posix := 0, t_wait_options := 0, t_wait_status_address := 0\<rparr>) s2;
                    s4 = (if address \<noteq> 0
                      then snd (vm64_copy_to (t_page_dir (task_pool s3 ! p)) address (le_bytes 4 (ucast status)) s3)
                      else s3)
                in task64_set_result p (uint (word_of_int (t_id child) :: u32)) s4)))"

section \<open>Sleeping\<close>

definition RTC64_TICK_HZ :: u64 where "RTC64_TICK_HZ = 100"
definition POSIX_TIME_TICK_NSEC :: u64 where "POSIX_TIME_TICK_NSEC = 1000000000 div RTC64_TICK_HZ"

definition posix_sleep_ticks :: "int \<Rightarrow> int \<Rightarrow> u32 option" where
  "posix_sleep_ticks sec nsec =
     (if sec < 0 \<or> nsec < 0 \<or> nsec > 999999999 then None
      else (let count = word_of_int sec * RTC64_TICK_HZ
              + (word_of_int nsec + POSIX_TIME_TICK_NSEC - 1) div POSIX_TIME_TICK_NSEC
        in Some (ucast (if count > 0xFFFFFFFE then 0xFFFFFFFE else count))))"

definition expire_slot :: "u32 \<Rightarrow> nat \<Rightarrow> 'a tasks_st_scheme \<Rightarrow> 'a tasks_st_scheme" where
  "expire_slot now slot s =
     (if t_state (task_pool s ! slot) \<noteq> TASK_BLOCKED_SLEEP then s
      else if not_due now (t_sleep_deadline (task_pool s ! slot)) then s
      else task64_set_result slot 0 (task_sleep_expire_locked slot s))"

definition posix_time_tick :: "u32 \<Rightarrow> 'a tasks_st_scheme \<Rightarrow> 'a tasks_st_scheme" where
  "posix_time_tick now s = fold (expire_slot now) [0..<task_pool_count s] s"

definition POSIX_VFS_EIO :: int where "POSIX_VFS_EIO = -5"
definition POSIX_VFS_EINVAL :: int where "POSIX_VFS_EINVAL = -22"

text \<open>
  The nanosleep call up to its context switch: the answer is \<open>None\<close> when the caller parks.
\<close>

definition sys_nanosleep :: "nat \<Rightarrow> u64 \<Rightarrow> 'a runtime_st_scheme \<Rightarrow> int option \<times> 'a runtime_st_scheme" where
  "sys_nanosleep i arg0 s =
     (let root = t_page_dir (task_pool s ! i)
      in if \<not> vm64_user_access root arg0 32 True s then (Some POSIX_VFS_EINVAL, s)
         else (case vm64_copy_from root arg0 32 s of
             None \<Rightarrow> (Some POSIX_VFS_EINVAL, s)
           | Some request \<Rightarrow>
               (case posix_sleep_ticks (sint (le_value (take 8 request))) (sint (le_value (take 8 (drop 8 request)))) of
                  None \<Rightarrow> (Some POSIX_VFS_EINVAL, s)
                | Some ticks \<Rightarrow>
                    (case vm64_copy_to root arg0 (take 16 request @ replicate 16 0) s of
                       (False, s1) \<Rightarrow> (Some POSIX_VFS_EIO, s1)
                     | (True, s1) \<Rightarrow>
                         (if ticks = 0 then (Some 0, s1)
                          else (None, task_upd i (t_sleep_request_update (\<lambda>_. arg0))
                                  (task_sleep_block_locked i (timer_ticks s1 + ticks) s1)))))))"

section \<open>Lemmas\<close>

definition expired :: "u32 \<Rightarrow> task \<Rightarrow> task" where
  "expired now t = (if t_state t = TASK_BLOCKED_SLEEP \<and> \<not> not_due now (t_sleep_deadline t)
     then t\<lparr>t_sleep_deadline := 0, t_state := TASK_RUNNING\<rparr> else t)"

lemma fold_upd_in: "inj_on f {..<n} \<Longrightarrow> j < n \<Longrightarrow> fold (\<lambda>k m. m(f k := b k)) [0..<n] m (f j) = b j"
proof (induction n)
  case (Suc n)
  show ?case
  proof (cases "j = n")
    case False
    then have "j < n" "f n \<noteq> f j" using Suc.prems by (auto simp: inj_on_def)
    then show ?thesis using Suc.IH Suc.prems(1) by (auto simp: inj_on_subset [OF Suc.prems(1)])
  qed simp
qed simp

lemma physical_frame: "user_pte s' = user_pte s \<Longrightarrow> physical root a s' = physical root a s"
  by (simp add: physical_def)

lemma user_access_frame:
  "user_pte s' = user_pte s \<Longrightarrow> vm64_user_access root a n w s' = vm64_user_access root a n w s"
  by (simp add: vm64_user_access_def byte_access_def)

lemma le_bytes_Suc: "le_bytes (Suc n) v = ucast v # le_bytes n (drop_bit 8 v)"
  by (simp add: le_bytes_def map_upt_Suc algebra_simps del: upt_Suc)

lemma le_value_bytes: "le_value (le_bytes n v) = take_bit (8 * n) v"
proof (induction n arbitrary: v)
  case (Suc n)
  have "bit (le_value (le_bytes (Suc n) v)) k = bit (take_bit (8 * Suc n) v) k" if "k < 64" for k
    using that by (cases "k < 8") (auto simp: le_bytes_Suc Suc bit_or_iff bit_push_bit_iff bit_take_bit_iff
        bit_unsigned_iff bit_drop_bit_eq)
  then show ?case by (intro bit_word_eqI) simp
qed (simp add: le_bytes_def)

lemma length_le_bytes [simp]: "length (le_bytes n v) = n"
  by (simp add: le_bytes_def)

lemma copy_from_after_copy:
  assumes "vm64_copy_to root a bs s = (True, s1)" and "inj_on (\<lambda>k. physical root (a + of_nat k) s) {..<length bs}"
    and "frames s2 = frames s1" and "user_pte s2 = user_pte s"
  shows "vm64_copy_from root a (length bs) s2 = Some bs"
proof -
  have acc: "vm64_user_access root a (length bs) True s"
    and fr: "frames s1 = fold (\<lambda>k m. m(physical root (a + of_nat k) s := bs ! k)) [0..<length bs] (frames s)"
    using assms(1) by (auto simp: vm64_copy_to_def split: if_splits)
  have "frames s2 (physical root (a + of_nat k) s2) = bs ! k" if "k < length bs" for k
    using fold_upd_in [OF assms(2) that, of "(!) bs"] by (simp add: assms(3) fr physical_frame [OF assms(4)])
  moreover have "vm64_user_access root a (length bs) False s2"
    using acc unfolding user_access_frame [OF assms(4)]
    by (auto simp: vm64_user_access_def byte_access_def list_all_iff split: option.splits)
  ultimately show ?thesis by (auto simp: vm64_copy_from_def intro: nth_equalityI)
qed

lemma expire_slot_task:
  "i < length (task_pool s) \<Longrightarrow>
     task_pool (expire_slot now slot s) ! i = (if i = slot then expired now (task_pool s ! i) else task_pool s ! i)"
  by (cases "i = slot") (simp_all add: expire_slot_def expired_def task_sleep_expire_locked_def)

lemma length_expire_slot [simp]: "length (task_pool (expire_slot now slot s)) = length (task_pool s)"
  by (simp add: expire_slot_def task_sleep_expire_locked_def)

lemma expire_prefix:
  assumes "i < length (task_pool s)"
  shows "length (task_pool (fold (expire_slot now) [0..<n] s)) = length (task_pool s)
    \<and> task_pool (fold (expire_slot now) [0..<n] s) ! i = (if i < n then expired now (task_pool s ! i) else task_pool s ! i)"
  using assms by (induction n) (auto simp: expire_slot_task less_Suc_eq)

lemma posix_time_tick_task:
  assumes "i < task_pool_count s" and "i < length (task_pool s)"
  shows "task_pool (posix_time_tick now s) ! i =
     (if t_state (task_pool s ! i) = TASK_BLOCKED_SLEEP \<and> \<not> not_due now (t_sleep_deadline (task_pool s ! i))
      then (task_pool s ! i)\<lparr>t_sleep_deadline := 0, t_state := TASK_RUNNING\<rparr> else task_pool s ! i)"
  using expire_prefix [OF assms(2), of now "task_pool_count s"] assms(1)
  by (simp add: posix_time_tick_def expired_def)

lemma sleep_ticks_exact:
  assumes "0 \<le> sec" and "sec \<le> 21474835" and "0 \<le> nsec" and "nsec \<le> 999999999"
  shows "\<exists>ticks. posix_sleep_ticks sec nsec = Some ticks
    \<and> int (unat ticks) = sec * 100 + (nsec + 9999999) div 10000000"
proof -
  obtain a b where ab: "sec = int a" "nsec = int b" using assms by (metis nonneg_int_cases)
  let ?t = "a * 100 + (b + 9999999) div 10000000"
  have t: "?t < 2 ^ 31" using assms(2,4) ab by simp
  have "(9999999 + of_nat b :: u64) div 10000000 = of_nat ((b + 9999999) div 10000000)"
  proof -
    have "unat (of_nat (9999999 + b) :: u64) = 9999999 + b"
      using assms(4) ab(2) by (simp only: unat_of_nat) (rule mod_less, simp)
    then have "unat (9999999 + of_nat b :: u64) = b + 9999999" by simp
    then show ?thesis by (simp only: word_arith_nat_div) simp
  qed
  then have c: "word_of_int sec * RTC64_TICK_HZ
      + (word_of_int nsec + POSIX_TIME_TICK_NSEC - 1) div POSIX_TIME_TICK_NSEC = (of_nat ?t :: u64)"
    by (simp add: ab POSIX_TIME_TICK_NSEC_def RTC64_TICK_HZ_def)
  have u: "unat (of_nat ?t :: u64) = ?t" using t by (simp only: unat_of_nat) (rule mod_less, simp)
  then have "\<not> (of_nat ?t :: u64) > 0xFFFFFFFE" using t by (simp add: word_less_nat_alt)
  moreover have "unat (ucast (of_nat ?t :: u64) :: u32) = ?t"
    using t u by (simp add: unsigned_ucast_eq unsigned_take_bit_eq take_bit_nat_eq_self)
  ultimately have "posix_sleep_ticks sec nsec = Some (ucast (of_nat ?t :: u64))" "int (unat (ucast (of_nat ?t :: u64) :: u32)) = int ?t"
    using assms by (simp_all only: posix_sleep_ticks_def Let_def c) simp
  moreover have "int ?t = sec * 100 + (nsec + 9999999) div 10000000" using ab by (simp add: zdiv_int)
  ultimately show ?thesis by auto
qed

section \<open>Properties\<close>

text \<open>
  C36. A sleep is never short: for every interval of up to 21474835 seconds the tick count
  covers the interval and overshoots it by less than one tick, a clock tick before the count
  has run out leaves the sleeping task parked, and the tick at which it runs out, or any of
  the next 2147483647 if that one was missed, makes it runnable again with its deadline
  cleared.
\<close>

theorem sleep_lasts_its_ticks:
  assumes "0 \<le> sec" and "sec \<le> 21474835" and "0 \<le> nsec" and "nsec \<le> 999999999"
    and "i < task_pool_count s" and "i < length (task_pool s)"
    and "posix_sleep_ticks sec nsec = Some ticks" and "elapsed < unat ticks + 2 ^ 31"
    and "u = task_sleep_block_locked i (start + ticks) s"
  shows "sec * 1000000000 + nsec \<le> int (unat ticks) * 10000000
    \<and> int (unat ticks) * 10000000 < sec * 1000000000 + nsec + 10000000
    \<and> task_pool (posix_time_tick (start + of_nat elapsed) u) ! i =
       (if elapsed < unat ticks then task_pool u ! i
        else (task_pool u ! i)\<lparr>t_sleep_deadline := 0, t_state := TASK_RUNNING\<rparr>)"
proof -
  have t: "int (unat ticks) = sec * 100 + (nsec + 9999999) div 10000000"
    using sleep_ticks_exact [OF assms(1-4)] assms(7) by auto
  moreover have "(nsec + 9999999) div 10000000 \<le> 100" using assms(4) by linarith
  ultimately have "int (unat ticks) < 2147483648" using assms(2) by linarith
  then have lt: "unat ticks < 2 ^ 31" by (simp only: of_nat_less_iff [symmetric, where 'a = int]) simp
  have "not_due (start + of_nat elapsed) (start + ticks) \<longleftrightarrow> elapsed < unat ticks"
  proof (cases "elapsed < unat ticks")
    case True
    have e: "unat (of_nat elapsed :: u32) = elapsed" using True lt by (simp only: unat_of_nat) (rule mod_less, simp)
    have "unat (start + of_nat elapsed - (start + ticks)) = unat (of_nat elapsed - ticks)" by simp
    also have "\<dots> = elapsed + 2 ^ 32 - unat ticks" using True e by (simp add: unat_sub_if_size word_size)
    finally show ?thesis using True lt by (simp add: not_due_iff)
  next
    case False
    have e: "unat (of_nat elapsed :: u32) = elapsed" using assms(8) lt by (simp only: unat_of_nat) (rule mod_less, simp)
    have "unat (start + of_nat elapsed - (start + ticks)) = unat (of_nat elapsed - ticks)" by simp
    also have "\<dots> = elapsed - unat ticks" using False e by (simp add: unat_sub_if_size)
    finally show ?thesis using False assms(8) by (simp add: not_due_iff)
  qed
  with posix_time_tick_task [of i u "start + of_nat elapsed"] assms(5,6,9) t assms(1-4) show ?thesis
    by (auto simp: task_sleep_block_locked_def task_upd_def)
qed

section \<open>Divergences from the comments\<close>

text \<open>
  \<^verbatim>\<open>posix_sleep_ticks\<close> says an interval past the range of the tick counter parks at the
  counter's ceiling. The product with the tick rate wraps instead for a large number of
  seconds, and a sleep of the ceiling itself is over at the next tick, because the deadline
  is compared as a signed difference.
\<close>

lemma sleep_product_wraps: "posix_sleep_ticks 184467440737095517 0 = Some 84"
  by code_simp

lemma sleep_ceiling_is_due: "posix_sleep_ticks 42949673 0 = Some 0xFFFFFFFE \<and> \<not> not_due (start + 1) (start + 0xFFFFFFFE)"
proof
  show "posix_sleep_ticks 42949673 0 = Some 0xFFFFFFFE" by code_simp
  have "start + 1 - (start + 0xFFFFFFFE) = (3 :: u32)" by simp
  then show "\<not> not_due (start + 1) (start + 0xFFFFFFFE)" by (simp add: not_due_iff)
qed

text \<open>
  A parent that waits for stopped children only is not told of a stop while an earlier
  continue of the same child has not been collected: the second test of the report asks for
  the option of the older report.
\<close>

lemma stop_hidden_by_continue:
  assumes "t_continued_report (task_pool s ! c) \<noteq> 0"
    and "p = unat (PID_SLOT (word_of_int (t_parent_id (task_pool s ! c))))"
    and "t_wait_options (task_pool s ! p) = POSIX_WAIT_UNTRACED"
  shows "task64_report_child c s = s"
  using assms by (simp add: task64_report_child_def report_parent_def Let_def
      POSIX_WAIT_UNTRACED_def POSIX_WAIT_CONTINUED_def)

section \<open>Witness\<close>

definition sleeper :: tasks_st where
  "sleeper = tasks_boot\<lparr>task_pool_count := 2\<rparr>"

theorem sleep_lasts_its_ticks_witness:
  "posix_sleep_ticks 1 5 = Some 101
   \<and> t_state (task_pool (posix_time_tick 110 (task_sleep_block_locked 1 (10 + 101) sleeper)) ! 1) = TASK_BLOCKED_SLEEP
   \<and> t_state (task_pool (posix_time_tick 111 (task_sleep_block_locked 1 (10 + 101) sleeper)) ! 1) = TASK_RUNNING"
proof -
  have c: "posix_sleep_ticks 1 5 = Some 101" by code_simp
  have k: "1 < task_pool_count sleeper" "1 < length (task_pool sleeper)"
    by (simp_all add: sleeper_def tasks_boot_def MAX_TASKS_def)
  note w = sleep_lasts_its_ticks [OF _ _ _ _ k c _ refl, where start = 10]
  from w [of 100] w [of 101] c k show ?thesis by (simp add: task_sleep_block_locked_def)
qed

end
