(* ===== verification/Pipes.thy ===== *)
theory Pipes
  imports Runtime Interfaces
begin

text \<open>
  Pipes, \<^verbatim>\<open>src/process/posix_pipe.c\<close>: the pool of rings with its end counts, the parked
  readers and writers, and every operation as its section under the pipe lock. A call that
  parks the caller answers so, and one that makes descriptors ready says that the poll module
  is to be notified; the context switch and the notification follow outside the lock.
\<close>

section \<open>State\<close>

definition POSIX_PIPE_MAX :: nat where "POSIX_PIPE_MAX = 32"
definition POSIX_PIPE_BUF :: nat where "POSIX_PIPE_BUF = 4096"
definition POSIX_PIPE_END_READ :: nat where "POSIX_PIPE_END_READ = 1"
definition POSIX_PIPE_END_WRITE :: nat where "POSIX_PIPE_END_WRITE = 2"
definition POSIX_IO_MAX :: nat where "POSIX_IO_MAX = 512"
definition POSIX_IO_DATA_OFFSET :: u64 where "POSIX_IO_DATA_OFFSET = 12"

definition POSIX_VFS_ENFILE :: int where "POSIX_VFS_ENFILE = -23"
definition POSIX_VFS_EPIPE :: int where "POSIX_VFS_EPIPE = -32"
definition POSIX_VFS_EDEADLK :: int where "POSIX_VFS_EDEADLK = -35"
definition POSIX_SIGNAL_EINTR :: int where "POSIX_SIGNAL_EINTR = -4"

lemmas pipe_consts = POSIX_PIPE_MAX_def POSIX_PIPE_BUF_def POSIX_PIPE_END_READ_def POSIX_PIPE_END_WRITE_def
  POSIX_IO_MAX_def

lemmas pipe_errors = POSIX_VFS_ENFILE_def POSIX_VFS_EPIPE_def POSIX_VFS_EDEADLK_def POSIX_VFS_EIO_def
  POSIX_VFS_EINVAL_def POSIX_SIGNAL_EINTR_def

record posix_pipe_state =
  pp_ring :: "u8 list"
  pp_tail :: nat
  pp_count :: nat
  pp_readers :: nat
  pp_writers :: nat
  pp_active :: bool

text \<open>A wait names its pipe by the index plus one; 0 is no wait.\<close>

record pipe_wait =
  pw_pipe :: nat
  pw_end :: nat
  pw_request :: u64
  pw_length :: nat

record pipes_st = runtime_st +
  pipes :: "posix_pipe_state list"
  pipe_waits :: "pipe_wait list"

definition zero_pipe :: posix_pipe_state where
  "zero_pipe = \<lparr>pp_ring = replicate POSIX_PIPE_BUF 0, pp_tail = 0, pp_count = 0, pp_readers = 0,
     pp_writers = 0, pp_active = False\<rparr>"

definition pipe_upd ::
  "nat \<Rightarrow> (posix_pipe_state \<Rightarrow> posix_pipe_state) \<Rightarrow> 'a pipes_st_scheme \<Rightarrow> 'a pipes_st_scheme" where
  "pipe_upd i f s = s\<lparr>pipes := (pipes s)[i := f (pipes s ! i)]\<rparr>"

section \<open>The ring\<close>

definition ring_free :: "posix_pipe_state \<Rightarrow> nat" where
  "ring_free pipe = POSIX_PIPE_BUF - pp_count pipe"

fun ring_put_from :: "nat \<Rightarrow> u8 list \<Rightarrow> u8 list \<Rightarrow> u8 list" where
  "ring_put_from head [] ring = ring"
| "ring_put_from head (b # bs) ring = ring_put_from ((head + 1) mod POSIX_PIPE_BUF) bs (ring[head := b])"

definition ring_put :: "u8 list \<Rightarrow> posix_pipe_state \<Rightarrow> posix_pipe_state" where
  "ring_put source pipe =
     pipe\<lparr>pp_ring := ring_put_from ((pp_tail pipe + pp_count pipe) mod POSIX_PIPE_BUF) source (pp_ring pipe),
          pp_count := pp_count pipe + length source\<rparr>"

fun ring_take_from :: "u8 list \<Rightarrow> nat \<Rightarrow> nat \<Rightarrow> u8 list \<times> nat" where
  "ring_take_from ring tail 0 = ([], tail)"
| "ring_take_from ring tail (Suc n) =
     (let (bs, tail') = ring_take_from ring ((tail + 1) mod POSIX_PIPE_BUF) n in (ring ! tail # bs, tail'))"

definition ring_take :: "nat \<Rightarrow> posix_pipe_state \<Rightarrow> u8 list \<times> posix_pipe_state" where
  "ring_take len pipe =
     (let (bs, tail) = ring_take_from (pp_ring pipe) (pp_tail pipe) len
      in (bs, pipe\<lparr>pp_tail := tail, pp_count := pp_count pipe - len\<rparr>))"

section \<open>Waking the parked\<close>

definition parked_on :: "nat \<Rightarrow> nat \<Rightarrow> nat \<Rightarrow> 'a pipes_st_scheme \<Rightarrow> bool" where
  "parked_on index which slot s \<longleftrightarrow> slot < length (task_pool s) \<and> t_state (task_pool s ! slot) = TASK_BLOCKED_PIPE
     \<and> pw_pipe (pipe_waits s ! slot) = index + 1 \<and> pw_end (pipe_waits s ! slot) = which"

definition clear_wait :: "nat \<Rightarrow> 'a pipes_st_scheme \<Rightarrow> 'a pipes_st_scheme" where
  "clear_wait slot s = s\<lparr>pipe_waits := (pipe_waits s)[slot := (pipe_waits s ! slot)
     \<lparr>pw_pipe := 0, pw_request := 0, pw_length := 0\<rparr>]\<rparr>"

text \<open>The end of every completion: forget the wait, make the task runnable, publish the answer.\<close>

definition finish_wait :: "nat \<Rightarrow> int \<Rightarrow> 'a pipes_st_scheme \<Rightarrow> 'a pipes_st_scheme" where
  "finish_wait slot answer s =
     task64_set_result slot answer (task_state_set (Some slot) TASK_RUNNING (clear_wait slot s))"

definition wake_reader :: "nat \<Rightarrow> nat \<Rightarrow> 'a pipes_st_scheme \<Rightarrow> 'a pipes_st_scheme" where
  "wake_reader index slot s =
     (let pipe = pipes s ! index; wait = pipe_waits s ! slot;
          take = (if pp_count pipe < pw_length wait then pp_count pipe else pw_length wait);
          (staging, pipe') = ring_take take pipe;
          s1 = pipe_upd index (\<lambda>_. pipe') s;
          (copied, s2) = vm64_copy_to (t_page_dir (task_pool s1 ! slot)) (pw_request wait + POSIX_IO_DATA_OFFSET) staging s1;
          (patched, s3) = (if copied then posix_io_patch_result slot (pw_request wait) take s2 else (False, s2))
      in finish_wait slot (if copied \<and> patched then int take else POSIX_VFS_EIO) s3)"

fun wake_readers_from :: "nat \<Rightarrow> nat list \<Rightarrow> 'a pipes_st_scheme \<Rightarrow> 'a pipes_st_scheme" where
  "wake_readers_from index [] s = s"
| "wake_readers_from index (slot # slots) s =
     (if \<not> parked_on index POSIX_PIPE_END_READ slot s then wake_readers_from index slots s
      else if pp_count (pipes s ! index) = 0 then s
      else wake_readers_from index slots (wake_reader index slot s))"

definition wake_readers :: "nat \<Rightarrow> 'a pipes_st_scheme \<Rightarrow> 'a pipes_st_scheme" where
  "wake_readers index s = wake_readers_from index [0..<task_pool_count s] s"

definition wake_writer :: "nat \<Rightarrow> nat \<Rightarrow> 'a pipes_st_scheme \<Rightarrow> 'a pipes_st_scheme" where
  "wake_writer index slot s =
     (let wait = pipe_waits s ! slot
      in case vm64_copy_from (t_page_dir (task_pool s ! slot)) (pw_request wait + POSIX_IO_DATA_OFFSET) (pw_length wait) s of
           None \<Rightarrow> finish_wait slot POSIX_VFS_EIO s
         | Some staging \<Rightarrow>
             (let s1 = pipe_upd index (ring_put staging) s;
                  s2 = snd (posix_io_patch_result slot (pw_request wait) (pw_length wait) s1)
              in finish_wait slot (int (pw_length wait)) s2))"

fun wake_writers_from :: "nat \<Rightarrow> nat list \<Rightarrow> 'a pipes_st_scheme \<Rightarrow> 'a pipes_st_scheme" where
  "wake_writers_from index [] s = s"
| "wake_writers_from index (slot # slots) s =
     (if \<not> parked_on index POSIX_PIPE_END_WRITE slot s then wake_writers_from index slots s
      else if pw_length (pipe_waits s ! slot) > ring_free (pipes s ! index) then s
      else wake_writers_from index slots (wake_writer index slot s))"

definition wake_writers :: "nat \<Rightarrow> 'a pipes_st_scheme \<Rightarrow> 'a pipes_st_scheme" where
  "wake_writers index s = wake_writers_from index [0..<task_pool_count s] s"

text \<open>The parked tasks of one end all answer the same: broken pipe to writers, end of file to readers.\<close>

definition wake_one :: "nat \<Rightarrow> nat \<Rightarrow> int \<Rightarrow> nat \<Rightarrow> 'a pipes_st_scheme \<Rightarrow> 'a pipes_st_scheme" where
  "wake_one index which answer slot s =
     (if \<not> parked_on index which slot s then s
      else finish_wait slot answer (snd (posix_io_patch_result slot (pw_request (pipe_waits s ! slot)) 0 s)))"

definition wake_all :: "nat \<Rightarrow> nat \<Rightarrow> int \<Rightarrow> 'a pipes_st_scheme \<Rightarrow> 'a pipes_st_scheme" where
  "wake_all index which answer s = fold (wake_one index which answer) [0..<task_pool_count s] s"

definition wake_writers_broken :: "nat \<Rightarrow> 'a pipes_st_scheme \<Rightarrow> 'a pipes_st_scheme" where
  "wake_writers_broken index s = wake_all index POSIX_PIPE_END_WRITE POSIX_VFS_EPIPE s"

section \<open>The operations\<close>

definition posix_pipe_create :: "'a pipes_st_scheme \<Rightarrow> int \<times> 'a pipes_st_scheme" where
  "posix_pipe_create s =
     (case first_index (\<lambda>pipe. \<not> pp_active pipe) (pipes s) of
        None \<Rightarrow> (POSIX_VFS_ENFILE, s)
      | Some index \<Rightarrow>
          (int index, pipe_upd index (\<lambda>pipe. pipe\<lparr>pp_tail := 0, pp_count := 0, pp_readers := 0,
             pp_writers := 0, pp_active := True\<rparr>) s))"

definition posix_pipe_retain :: "nat \<Rightarrow> nat \<Rightarrow> 'a pipes_st_scheme \<Rightarrow> 'a pipes_st_scheme" where
  "posix_pipe_retain index which s =
     (if POSIX_PIPE_MAX \<le> index \<or> \<not> pp_active (pipes s ! index) then s
      else if which = POSIX_PIPE_END_READ then pipe_upd index (\<lambda>pipe. pipe\<lparr>pp_readers := pp_readers pipe + 1\<rparr>) s
      else if which = POSIX_PIPE_END_WRITE then pipe_upd index (\<lambda>pipe. pipe\<lparr>pp_writers := pp_writers pipe + 1\<rparr>) s
      else s)"

text \<open>The common end of both branches of the release: the pipe goes when both ends are closed.\<close>

definition retire_pipe :: "nat \<Rightarrow> 'a pipes_st_scheme \<Rightarrow> 'a pipes_st_scheme" where
  "retire_pipe index s =
     (if pp_readers (pipes s ! index) = 0 \<and> pp_writers (pipes s ! index) = 0
      then pipe_upd index (\<lambda>pipe. pipe\<lparr>pp_active := False\<rparr>) s else s)"

definition posix_pipe_release :: "nat \<Rightarrow> nat \<Rightarrow> 'a pipes_st_scheme \<Rightarrow> 'a pipes_st_scheme" where
  "posix_pipe_release index which s =
     (if POSIX_PIPE_MAX \<le> index \<or> \<not> pp_active (pipes s ! index) then s
      else if which = POSIX_PIPE_END_READ then
        (if pp_readers (pipes s ! index) = 0 then s
         else (let s1 = pipe_upd index (\<lambda>pipe. pipe\<lparr>pp_readers := pp_readers pipe - 1\<rparr>) s
           in if pp_readers (pipes s1 ! index) \<noteq> 0 then s1
              else retire_pipe index (wake_writers_broken index s1)))
      else if which = POSIX_PIPE_END_WRITE then
        (if pp_writers (pipes s ! index) = 0 then s
         else (let s1 = pipe_upd index (\<lambda>pipe. pipe\<lparr>pp_writers := pp_writers pipe - 1\<rparr>) s
           in if pp_writers (pipes s1 ! index) \<noteq> 0 then s1
              else retire_pipe index (wake_all index POSIX_PIPE_END_READ 0 (wake_readers index s1))))
      else s)"

datatype pipe_answer = Answer int | Parked

text \<open>Park the caller, unless nothing else could run then.\<close>

definition pipe_park ::
  "int \<Rightarrow> nat \<Rightarrow> nat \<Rightarrow> nat \<Rightarrow> u64 \<Rightarrow> nat \<Rightarrow> 'a pipes_st_scheme \<Rightarrow> pipe_answer \<times> 'a pipes_st_scheme" where
  "pipe_park cpu slot index which request len s =
     (let s1 = s\<lparr>pipe_waits := (pipe_waits s)[slot :=
            \<lparr>pw_pipe = index + 1, pw_end = which, pw_request = request, pw_length = len\<rparr>]\<rparr>;
          s2 = task_state_set (Some slot) TASK_BLOCKED_PIPE s1
      in case task_pick_next (int slot) cpu s2 of
           None \<Rightarrow> (Answer POSIX_VFS_EDEADLK, task_state_set (Some slot) TASK_RUNNING (clear_wait slot s2))
         | Some _ \<Rightarrow> (Parked, s2))"

definition pipe_read ::
  "int \<Rightarrow> nat \<Rightarrow> nat \<Rightarrow> u64 \<Rightarrow> nat \<Rightarrow> 'a pipes_st_scheme \<Rightarrow> pipe_answer \<times> bool \<times> 'a pipes_st_scheme" where
  "pipe_read cpu slot index request len s =
     (let pipe = pipes s ! index
      in if pp_count pipe \<noteq> 0 then
           (let take = (if pp_count pipe < len then pp_count pipe else len);
                (staging, pipe') = ring_take take pipe;
                s1 = pipe_upd index (\<lambda>_. pipe') s;
                (copied, s2) = vm64_copy_to (t_page_dir (task_pool s1 ! slot)) (request + POSIX_IO_DATA_OFFSET) staging s1;
                (patched, s3) = (if copied then posix_io_patch_result slot request take s2 else (False, s2))
            in if \<not> copied \<or> \<not> patched then (Answer POSIX_VFS_EIO, False, s3)
               else (Answer (int take), True, wake_writers index s3))
         else if pp_writers pipe = 0 then (Answer 0, False, snd (posix_io_patch_result slot request 0 s))
         else (case pipe_park cpu slot index POSIX_PIPE_END_READ request len s of (r, s') \<Rightarrow> (r, False, s')))"

definition pipe_write ::
  "int \<Rightarrow> nat \<Rightarrow> nat \<Rightarrow> u64 \<Rightarrow> nat \<Rightarrow> 'a pipes_st_scheme \<Rightarrow> pipe_answer \<times> bool \<times> 'a pipes_st_scheme" where
  "pipe_write cpu slot index request len s =
     (let pipe = pipes s ! index
      in if pp_readers pipe = 0 then (Answer POSIX_VFS_EPIPE, False, s)
         else if len > ring_free pipe then
           (case pipe_park cpu slot index POSIX_PIPE_END_WRITE request len s of (r, s') \<Rightarrow> (r, False, s'))
         else (case vm64_copy_from (t_page_dir (task_pool s ! slot)) (request + POSIX_IO_DATA_OFFSET) len s of
             None \<Rightarrow> (Answer POSIX_VFS_EIO, False, s)
           | Some staging \<Rightarrow>
               (let s1 = pipe_upd index (ring_put staging) s;
                    s2 = snd (posix_io_patch_result slot request len s1)
                in (Answer (int len), True, wake_readers index s2))))"

text \<open>
  \<^verbatim>\<open>pipe_io_locked\<close>: \<open>current\<close> is the running task of the CPU, \<open>slot\<close> the one the call names.
  The answer comes with whether the poll module is to be notified.
\<close>

definition pipe_io_locked ::
  "int \<Rightarrow> int \<Rightarrow> nat \<Rightarrow> nat \<Rightarrow> nat \<Rightarrow> u64 \<Rightarrow> nat \<Rightarrow> 'a pipes_st_scheme
     \<Rightarrow> pipe_answer \<times> bool \<times> 'a pipes_st_scheme" where
  "pipe_io_locked cpu current slot index which request len s =
     (if POSIX_PIPE_MAX \<le> index \<or> \<not> pp_active (pipes s ! index) \<or> len = 0 \<or> POSIX_IO_MAX < len
      then (Answer POSIX_VFS_EINVAL, False, s)
      else if current < 0 \<or> nat current \<noteq> slot then (Answer POSIX_VFS_EIO, False, s)
      else if which = POSIX_PIPE_END_READ then pipe_read cpu slot index request len s
      else if which \<noteq> POSIX_PIPE_END_WRITE then (Answer POSIX_VFS_EINVAL, False, s)
      else pipe_write cpu slot index request len s)"

definition posix_pipe_signal :: "nat \<Rightarrow> 'a pipes_st_scheme \<Rightarrow> int \<times> 'a pipes_st_scheme" where
  "posix_pipe_signal slot s =
     (if slot < MAX_TASKS \<and> t_state (task_pool s ! slot) = TASK_BLOCKED_PIPE
      then (POSIX_SIGNAL_EINTR, clear_wait slot s) else (0, s))"

definition POSIX_POLLIN :: u16 where "POSIX_POLLIN = 1"
definition POSIX_POLLOUT :: u16 where "POSIX_POLLOUT = 4"
definition POSIX_POLLERR :: u16 where "POSIX_POLLERR = 8"
definition POSIX_POLLHUP :: u16 where "POSIX_POLLHUP = 0x10"
definition POSIX_POLLNVAL :: u16 where "POSIX_POLLNVAL = 0x20"

definition posix_pipe_poll :: "nat \<Rightarrow> nat \<Rightarrow> 'a pipes_st_scheme \<Rightarrow> u16" where
  "posix_pipe_poll index which s =
     (if POSIX_PIPE_MAX \<le> index \<or> \<not> pp_active (pipes s ! index) then POSIX_POLLNVAL
      else (let pipe = pipes s ! index
        in if which = POSIX_PIPE_END_READ then
             (let ready = (if pp_count pipe \<noteq> 0 then POSIX_POLLIN else 0)
              in if pp_writers pipe = 0 then ready OR POSIX_POLLHUP else ready)
           else if which \<noteq> POSIX_PIPE_END_WRITE then POSIX_POLLNVAL
           else if pp_readers pipe = 0 then POSIX_POLLERR
           else if ring_free pipe \<noteq> 0 then POSIX_POLLOUT else 0))"

definition posix_pipe_active_count :: "'a pipes_st_scheme \<Rightarrow> nat" where
  "posix_pipe_active_count s = count_if pp_active (pipes s)"

section \<open>The ring is a queue of bytes\<close>

definition pipe_wf :: "posix_pipe_state \<Rightarrow> bool" where
  "pipe_wf p \<longleftrightarrow> length (pp_ring p) = POSIX_PIPE_BUF \<and> pp_tail p < POSIX_PIPE_BUF \<and> pp_count p \<le> POSIX_PIPE_BUF"

definition pipe_bytes :: "posix_pipe_state \<Rightarrow> u8 list" where
  "pipe_bytes p = ring_list (pp_ring p) (pp_tail p) (pp_count p)"

definition put_byte :: "u8 \<Rightarrow> posix_pipe_state \<Rightarrow> posix_pipe_state option" where
  "put_byte b p = (if ring_free p < 1 then None else Some (ring_put [b] p))"

definition take_byte :: "posix_pipe_state \<Rightarrow> (u8 \<times> posix_pipe_state) option" where
  "take_byte p = (if pp_count p < 1 then None else Some (hd (fst (ring_take 1 p)), snd (ring_take 1 p)))"

lemma length_pipe_bytes [simp]: "length (pipe_bytes p) = pp_count p"
  by (simp add: pipe_bytes_def)

lemma put_byte_spec:
  assumes "pipe_wf p" and "pp_count p < POSIX_PIPE_BUF"
  shows "pipe_wf (ring_put [b] p)" and "pipe_bytes (ring_put [b] p) = pipe_bytes p @ [b]"
  using assms ring_list_put [of "pp_count p" "pp_ring p" "pp_tail p" b]
  by (auto simp: pipe_wf_def ring_put_def pipe_bytes_def)

lemma take_byte_spec:
  assumes "pipe_wf p" and "0 < pp_count p"
  shows "pipe_wf (snd (ring_take 1 p))"
    and "pipe_bytes p = hd (fst (ring_take 1 p)) # pipe_bytes (snd (ring_take 1 p))"
  using assms ring_list_get [of "pp_count p" "pp_tail p" "pp_ring p"]
  by (auto simp: pipe_wf_def ring_take_def pipe_bytes_def POSIX_PIPE_BUF_def)

interpretation pq: bounded_fifo pipe_bytes pipe_wf POSIX_PIPE_BUF put_byte take_byte
proof (unfold_locales, goal_cases)
  case (1 q x)
  then show ?case by (auto simp: put_byte_def ring_free_def pipe_wf_def)
next
  case (2 q x q')
  then show ?case using put_byte_spec(1) [of q x] by (auto simp: put_byte_def ring_free_def split: if_splits)
next
  case (3 q x q')
  then show ?case using put_byte_spec(2) [of q x] by (auto simp: put_byte_def ring_free_def split: if_splits)
next
  case (4 q)
  then show ?case by (auto simp: take_byte_def pipe_bytes_def)
next
  case (5 q x q')
  then show ?case using take_byte_spec(1) [of q] by (auto simp: take_byte_def split: if_splits)
next
  case (6 q x q')
  then show ?case using take_byte_spec(2) [of q] by (auto simp: take_byte_def split: if_splits)
qed

text \<open>A transfer of a whole chunk is that many single puts or takes.\<close>

lemma ring_put_Nil [simp]: "ring_put [] p = p"
  by (simp add: ring_put_def)

lemma ring_put_Cons: "ring_put (b # bs) p = ring_put bs (ring_put [b] p)"
  by (simp add: ring_put_def mod_simps)

lemma ring_take_0 [simp]: "ring_take 0 p = ([], p)"
  by (simp add: ring_take_def)

lemma ring_take_Suc:
  "ring_take (Suc n) p = (hd (fst (ring_take 1 p)) # fst (ring_take n (snd (ring_take 1 p))), snd (ring_take n (snd (ring_take 1 p))))"
  by (simp add: ring_take_def case_prod_beta)

lemma ring_put_chunk:
  "pipe_wf p \<Longrightarrow> length bs \<le> ring_free p \<Longrightarrow>
     fifo_run put_byte take_byte (map Put bs @ ops) p =
       (case fifo_run put_byte take_byte ops (ring_put bs p) of (ins, outs, r) \<Rightarrow> (bs @ ins, outs, r))"
proof (induction bs arbitrary: p)
  case Nil
  then show ?case by (simp split: prod.splits)
next
  case (Cons b bs)
  then have f: "pp_count p < POSIX_PIPE_BUF" by (simp add: ring_free_def)
  have "length bs \<le> ring_free (ring_put [b] p)" using Cons.prems(2) by (simp add: ring_free_def ring_put_def)
  from Cons.IH [OF put_byte_spec(1) [OF Cons.prems(1) f] this] f show ?case
    by (auto simp: fifo_step_def put_byte_def ring_free_def ring_put_Cons [of b bs] split: prod.splits)
qed

lemma ring_take_chunk:
  "pipe_wf p \<Longrightarrow> n \<le> pp_count p \<Longrightarrow>
     fifo_run put_byte take_byte (replicate n Get @ ops) p =
       (case fifo_run put_byte take_byte ops (snd (ring_take n p)) of
          (ins, outs, r) \<Rightarrow> (ins, fst (ring_take n p) @ outs, r))"
proof (induction n arbitrary: p)
  case 0
  then show ?case by (simp split: prod.splits)
next
  case (Suc n)
  then have f: "0 < pp_count p" by simp
  have "n \<le> pp_count (snd (ring_take 1 p))" using Suc.prems(2) by (simp add: ring_take_def case_prod_beta)
  from Suc.IH [OF take_byte_spec(1) [OF Suc.prems(1) f] this] f show ?case
    by (auto simp: fifo_step_def take_byte_def ring_take_Suc [of n] split: prod.splits)
qed

lemma ring_put_spec:
  assumes "pipe_wf p" and "length bs \<le> ring_free p"
  shows "pipe_wf (ring_put bs p)" and "pipe_bytes (ring_put bs p) = pipe_bytes p @ bs"
proof -
  have r: "fifo_run put_byte take_byte (map Put bs) p = (bs, [], ring_put bs p)"
    using ring_put_chunk [OF assms, of "[]"] by simp
  show "pipe_wf (ring_put bs p)" using pq.run_bounded [OF assms(1) _ r] assms(1) by (simp add: pipe_wf_def)
  show "pipe_bytes (ring_put bs p) = pipe_bytes p @ bs" using pq.run_order [OF assms(1) r] by simp
qed

lemma ring_take_spec:
  assumes "pipe_wf p" and "n \<le> pp_count p"
  shows "pipe_wf (snd (ring_take n p))" and "pipe_bytes p = fst (ring_take n p) @ pipe_bytes (snd (ring_take n p))"
proof -
  have r: "fifo_run put_byte take_byte (replicate n Get) p = ([], fst (ring_take n p), snd (ring_take n p))"
    using ring_take_chunk [OF assms, of "[]"] by simp
  show "pipe_wf (snd (ring_take n p))" using pq.run_bounded [OF assms(1) _ r] assms(1) by (simp add: pipe_wf_def)
  show "pipe_bytes p = fst (ring_take n p) @ pipe_bytes (snd (ring_take n p))" using pq.run_order [OF assms(1) r] by simp
qed

lemma ring_frame [simp]:
  "pp_count (ring_put bs p) = pp_count p + length bs" "pp_readers (ring_put bs p) = pp_readers p"
  "pp_writers (ring_put bs p) = pp_writers p" "pp_active (ring_put bs p) = pp_active p"
  "pp_count (snd (ring_take n p)) = pp_count p - n" "pp_readers (snd (ring_take n p)) = pp_readers p"
  "pp_writers (snd (ring_take n p)) = pp_writers p" "pp_active (snd (ring_take n p)) = pp_active p"
  by (simp_all add: ring_put_def ring_take_def case_prod_beta)

section \<open>What the wake-ups touch\<close>

lemma vm64_copy_to_frame [simp]:
  fixes s :: "'a pipes_st_scheme"
  shows "task_pool (snd (vm64_copy_to r a bs s)) = task_pool s"
    "task_pool_count (snd (vm64_copy_to r a bs s)) = task_pool_count s"
    "pipes (snd (vm64_copy_to r a bs s)) = pipes s"
    "pipe_waits (snd (vm64_copy_to r a bs s)) = pipe_waits s"
    "task_result (snd (vm64_copy_to r a bs s)) = task_result s"
    "user_pte (snd (vm64_copy_to r a bs s)) = user_pte s"
  by (simp_all add: vm64_copy_to_def)

lemma patch_result_frame [simp]:
  fixes s :: "'a pipes_st_scheme"
  shows "task_pool (snd (posix_io_patch_result i q n s)) = task_pool s"
    "task_pool_count (snd (posix_io_patch_result i q n s)) = task_pool_count s"
    "pipes (snd (posix_io_patch_result i q n s)) = pipes s"
    "pipe_waits (snd (posix_io_patch_result i q n s)) = pipe_waits s"
    "task_result (snd (posix_io_patch_result i q n s)) = task_result s"
    "user_pte (snd (posix_io_patch_result i q n s)) = user_pte s"
  by (simp_all add: posix_io_patch_result_def)

lemma pipe_upd_frame [simp]:
  "task_pool (pipe_upd i f s) = task_pool s" "task_pool_count (pipe_upd i f s) = task_pool_count s"
  "pipe_waits (pipe_upd i f s) = pipe_waits s" "task_result (pipe_upd i f s) = task_result s"
  "user_pte (pipe_upd i f s) = user_pte s" "pipes (pipe_upd i f s) = (pipes s)[i := f (pipes s ! i)]"
  by (simp_all add: pipe_upd_def)

lemma parked_on_frame [simp]:
  "parked_on i w j (pipe_upd k f s) = parked_on i w j s"
  "parked_on i w j (snd (vm64_copy_to r a bs s)) = parked_on i w j s"
  "parked_on i w j (snd (posix_io_patch_result k q n s)) = parked_on i w j s"
  by (simp_all add: parked_on_def)

lemma task_upd_pipes [simp]:
  fixes s :: "'a pipes_st_scheme"
  shows "pipes (task_upd i f s) = pipes s" "pipe_waits (task_upd i f s) = pipe_waits s"
    "user_pte (task_upd i f s) = user_pte s"
  by (simp_all add: task_upd_def)

lemma set_result_pipes [simp]:
  fixes s :: "'a pipes_st_scheme"
  shows "pipes (task64_set_result i v s) = pipes s" "pipe_waits (task64_set_result i v s) = pipe_waits s"
    "user_pte (task64_set_result i v s) = user_pte s" "task_result (task64_set_result i v s) i = Some v"
    "i \<noteq> j \<Longrightarrow> task_result (task64_set_result i v s) j = task_result s j"
  by (simp_all add: task64_set_result_def)

lemma clear_wait_frame [simp]:
  "pipes (clear_wait i s) = pipes s" "task_pool (clear_wait i s) = task_pool s"
  "task_pool_count (clear_wait i s) = task_pool_count s" "task_result (clear_wait i s) = task_result s"
  "length (pipe_waits (clear_wait i s)) = length (pipe_waits s)"
  "i \<noteq> j \<Longrightarrow> pipe_waits (clear_wait i s) ! j = pipe_waits s ! j" "user_pte (clear_wait i s) = user_pte s"
  by (simp_all add: clear_wait_def)

lemma finish_wait_frame [simp]:
  "pipes (finish_wait i v s) = pipes s" "task_pool_count (finish_wait i v s) = task_pool_count s"
  "length (task_pool (finish_wait i v s)) = length (task_pool s)"
  "length (pipe_waits (finish_wait i v s)) = length (pipe_waits s)"
  "i \<noteq> j \<Longrightarrow> pipe_waits (finish_wait i v s) ! j = pipe_waits s ! j"
  "i \<noteq> j \<Longrightarrow> task_pool (finish_wait i v s) ! j = task_pool s ! j"
  "task_result (finish_wait i v s) i = Some v"
  "i \<noteq> j \<Longrightarrow> task_result (finish_wait i v s) j = task_result s j"
  by (simp_all add: finish_wait_def task_state_set_def)

lemma finish_wait_state:
  "i < length (task_pool s) \<Longrightarrow> t_state (task_pool (finish_wait i v s) ! i) = TASK_RUNNING"
  by (simp add: finish_wait_def task_state_set_def)

lemma finish_wait_parked:
  "i < length (task_pool s) \<Longrightarrow> parked_on k w j (finish_wait i v s) \<longleftrightarrow> j \<noteq> i \<and> parked_on k w j s"
  by (cases "j = i") (auto simp: parked_on_def finish_wait_state)

text \<open>
  Every wake-up of a pipe leaves the other pipes, the end counts, and the tasks it does not
  complete as they are; a task it completes is runnable.
\<close>

definition calmer :: "nat \<Rightarrow> 'a pipes_st_scheme \<Rightarrow> 'a pipes_st_scheme \<Rightarrow> bool" where
  "calmer i s s' \<longleftrightarrow>
     length (pipes s') = length (pipes s) \<and> length (pipe_waits s') = length (pipe_waits s)
     \<and> length (task_pool s') = length (task_pool s) \<and> task_pool_count s' = task_pool_count s
     \<and> (\<forall>j. j \<noteq> i \<longrightarrow> pipes s' ! j = pipes s ! j)
     \<and> pp_readers (pipes s' ! i) = pp_readers (pipes s ! i) \<and> pp_writers (pipes s' ! i) = pp_writers (pipes s ! i)
     \<and> pp_active (pipes s' ! i) = pp_active (pipes s ! i) \<and> pipe_wf (pipes s' ! i)
     \<and> (\<forall>j. pipe_waits s' ! j = pipe_waits s ! j \<and> task_pool s' ! j = task_pool s ! j \<and> task_result s' j = task_result s j
          \<or> (\<exists>w. parked_on i w j s) \<and> t_state (task_pool s' ! j) = TASK_RUNNING)"

lemma calmer_refl: "pipe_wf (pipes s ! i) \<Longrightarrow> calmer i s s"
  by (simp add: calmer_def)

lemma calmer_slot:
  "calmer i s s' \<Longrightarrow> pipe_waits s' ! j = pipe_waits s ! j \<and> task_pool s' ! j = task_pool s ! j \<and> task_result s' j = task_result s j
     \<or> (\<exists>w. parked_on i w j s) \<and> t_state (task_pool s' ! j) = TASK_RUNNING"
  by (simp add: calmer_def)

lemma calmer_parked: "calmer i s s' \<Longrightarrow> parked_on k w j s' \<Longrightarrow> parked_on k w j s \<and> pipe_waits s' ! j = pipe_waits s ! j"
  using calmer_slot [of i s s' j] by (auto simp: parked_on_def calmer_def)

lemma calmer_trans: "calmer i s t \<Longrightarrow> calmer i t u \<Longrightarrow> calmer i s u"
proof -
  assume a: "calmer i s t" and b: "calmer i t u"
  then have l: "length (task_pool t) = length (task_pool s)" by (simp add: calmer_def)
  have "pipe_waits u ! j = pipe_waits s ! j \<and> task_pool u ! j = task_pool s ! j \<and> task_result u j = task_result s j
     \<or> (\<exists>w. parked_on i w j s) \<and> t_state (task_pool u ! j) = TASK_RUNNING" for j
    using calmer_slot [OF a, of j] calmer_slot [OF b, of j] l by (auto simp: parked_on_def)
  then show "calmer i s u" using a b by (simp add: calmer_def)
qed

lemma calmer_wf: "calmer i s s' \<Longrightarrow> pipe_wf (pipes s' ! i)"
  by (simp add: calmer_def)

lemma calmer_finish:
  assumes "parked_on i w slot s" and "slot < length (task_pool s)" and "i < length (pipes s)"
    and "pipe_wf p" and "pp_readers p = pp_readers (pipes s ! i)" and "pp_writers p = pp_writers (pipes s ! i)"
    and "pp_active p = pp_active (pipes s ! i)"
    and "task_pool t = task_pool s" and "task_pool_count t = task_pool_count s" and "pipe_waits t = pipe_waits s"
    and "task_result t = task_result s" and "pipes t = (pipes s)[i := p]"
  shows "calmer i s (finish_wait slot v t)"
proof -
  have "pipe_waits (finish_wait slot v t) ! j = pipe_waits s ! j \<and> task_pool (finish_wait slot v t) ! j = task_pool s ! j
        \<and> task_result (finish_wait slot v t) j = task_result s j
      \<or> (\<exists>w. parked_on i w j s) \<and> t_state (task_pool (finish_wait slot v t) ! j) = TASK_RUNNING" for j
    using assms finish_wait_state [of slot t v] by (cases "j = slot") auto
  then show ?thesis unfolding calmer_def using assms by simp
qed

lemma wake_reader_calmer:
  assumes "parked_on i w slot s" and "slot < length (task_pool s)" and "i < length (pipes s)" and "pipe_wf (pipes s ! i)"
  shows "calmer i s (wake_reader i slot s)"
    and "pp_count (pipes (wake_reader i slot s) ! i) = pp_count (pipes s ! i) - pw_length (pipe_waits s ! slot)"
proof -
  let ?n = "min (pp_count (pipes s ! i)) (pw_length (pipe_waits s ! slot))"
  let ?p = "snd (ring_take ?n (pipes s ! i))"
  let ?c = "vm64_copy_to (t_page_dir (task_pool s ! slot)) (pw_request (pipe_waits s ! slot) + POSIX_IO_DATA_OFFSET)
    (fst (ring_take ?n (pipes s ! i))) (pipe_upd i (\<lambda>_. ?p) s)"
  let ?d = "posix_io_patch_result slot (pw_request (pipe_waits s ! slot)) ?n (snd ?c)"
  let ?t = "if fst ?c then snd ?d else snd ?c"
  have e: "wake_reader i slot s = finish_wait slot (if fst ?c \<and> fst ?d then int ?n else POSIX_VFS_EIO) ?t"
    by (simp add: wake_reader_def Let_def min_def case_prod_beta)
  have t: "task_pool ?t = task_pool s" "task_pool_count ?t = task_pool_count s" "pipe_waits ?t = pipe_waits s"
    "task_result ?t = task_result s" "pipes ?t = (pipes s)[i := ?p]"
    by simp_all
  have "pipe_wf ?p" using ring_take_spec(1) [OF assms(4)] by simp
  then show "calmer i s (wake_reader i slot s)"
    unfolding e by (intro calmer_finish [OF assms(1-3), where p = ?p] t) simp_all
  show "pp_count (pipes (wake_reader i slot s) ! i) = pp_count (pipes s ! i) - pw_length (pipe_waits s ! slot)"
    unfolding e finish_wait_frame t using assms(3) by simp
qed

lemma wake_writer_calmer:
  assumes "parked_on i w slot s" and "slot < length (task_pool s)" and "i < length (pipes s)" and "pipe_wf (pipes s ! i)"
    and "pw_length (pipe_waits s ! slot) \<le> ring_free (pipes s ! i)"
  shows "calmer i s (wake_writer i slot s)"
    and "pp_count (pipes s ! i) \<le> pp_count (pipes (wake_writer i slot s) ! i)"
proof -
  let ?c = "vm64_copy_from (t_page_dir (task_pool s ! slot)) (pw_request (pipe_waits s ! slot) + POSIX_IO_DATA_OFFSET)
    (pw_length (pipe_waits s ! slot)) s"
  have "calmer i s (wake_writer i slot s) \<and> pp_count (pipes s ! i) \<le> pp_count (pipes (wake_writer i slot s) ! i)"
  proof (cases ?c)
    case None
    have "calmer i s (finish_wait slot POSIX_VFS_EIO s)"
      by (rule calmer_finish [OF assms(1-4)]) simp_all
    with None show ?thesis by (simp add: wake_writer_def Let_def)
  next
    case (Some bs)
    then have "length bs = pw_length (pipe_waits s ! slot)" by (auto simp: vm64_copy_from_def split: if_splits)
    then have wf: "pipe_wf (ring_put bs (pipes s ! i))" using ring_put_spec(1) [OF assms(4)] assms(5) by simp
    let ?t = "snd (posix_io_patch_result slot (pw_request (pipe_waits s ! slot)) (pw_length (pipe_waits s ! slot))
      (pipe_upd i (ring_put bs) s))"
    have "calmer i s (finish_wait slot (int (pw_length (pipe_waits s ! slot))) ?t)"
      by (rule calmer_finish [OF assms(1-3) wf]) simp_all
    with Some assms(3) show ?thesis by (simp add: wake_writer_def Let_def)
  qed
  then show "calmer i s (wake_writer i slot s)" "pp_count (pipes s ! i) \<le> pp_count (pipes (wake_writer i slot s) ! i)"
    by auto
qed

lemma calmer_simps:
  "calmer i s s' \<Longrightarrow> length (task_pool s') = length (task_pool s)"
  "calmer i s s' \<Longrightarrow> length (pipes s') = length (pipes s)"
  "calmer i s s' \<Longrightarrow> task_pool_count s' = task_pool_count s"
  by (simp_all add: calmer_def)

text \<open>The loops: the readers' loop ends with an empty ring or with no reader left, the
  writers' loop with a writer that does not fit or with none left.\<close>

lemma wake_readers_from_spec:
  assumes "\<forall>slot \<in> set slots. slot < length (task_pool s)" and "i < length (pipes s)" and "pipe_wf (pipes s ! i)"
  shows "calmer i s (wake_readers_from i slots s)
    \<and> (pp_count (pipes (wake_readers_from i slots s) ! i) = 0
       \<or> (\<forall>slot \<in> set slots. \<not> parked_on i POSIX_PIPE_END_READ slot (wake_readers_from i slots s)))"
  using assms
proof (induction slots arbitrary: s)
  case Nil
  then show ?case by (simp add: calmer_refl)
next
  case (Cons slot slots)
  show ?case
  proof (cases "parked_on i POSIX_PIPE_END_READ slot s \<and> pp_count (pipes s ! i) = 0")
    case True
    with Cons.prems show ?thesis by (simp add: calmer_refl)
  next
    case False
    define t where "t = (if parked_on i POSIX_PIPE_END_READ slot s then wake_reader i slot s else s)"
    have c: "calmer i s t"
      using wake_reader_calmer(1) [of i POSIX_PIPE_END_READ slot s] Cons.prems by (auto simp: t_def calmer_refl)
    have np: "\<not> parked_on i POSIX_PIPE_END_READ slot t"
      using Cons.prems by (auto simp: t_def wake_reader_def Let_def case_prod_beta finish_wait_parked)
    have e: "wake_readers_from i (slot # slots) s = wake_readers_from i slots t" using False by (auto simp: t_def)
    have ih: "calmer i t (wake_readers_from i slots t) \<and> (pp_count (pipes (wake_readers_from i slots t) ! i) = 0
       \<or> (\<forall>slot \<in> set slots. \<not> parked_on i POSIX_PIPE_END_READ slot (wake_readers_from i slots t)))"
      using Cons.prems c by (intro Cons.IH) (auto simp: calmer_simps calmer_wf)
    then show ?thesis unfolding e
      using calmer_trans [OF c] calmer_parked [of i t "wake_readers_from i slots t" i POSIX_PIPE_END_READ slot] np by auto
  qed
qed

lemma wake_writers_from_spec:
  assumes "\<forall>slot \<in> set slots. slot < length (task_pool s)" and "i < length (pipes s)" and "pipe_wf (pipes s ! i)"
    and "\<forall>slot. parked_on i POSIX_PIPE_END_WRITE slot s \<longrightarrow> pw_length (pipe_waits s ! slot) \<le> POSIX_IO_MAX"
  shows "calmer i s (wake_writers_from i slots s)
    \<and> pp_count (pipes s ! i) \<le> pp_count (pipes (wake_writers_from i slots s) ! i)
    \<and> (pp_count (pipes (wake_writers_from i slots s) ! i) \<noteq> 0
       \<or> (\<forall>slot \<in> set slots. \<not> parked_on i POSIX_PIPE_END_WRITE slot (wake_writers_from i slots s)))"
  using assms
proof (induction slots arbitrary: s)
  case Nil
  then show ?case by (simp add: calmer_refl)
next
  case (Cons slot slots)
  show ?case
  proof (cases "parked_on i POSIX_PIPE_END_WRITE slot s \<and> pw_length (pipe_waits s ! slot) > ring_free (pipes s ! i)")
    case True
    then have "pp_count (pipes s ! i) \<noteq> 0" using Cons.prems(4) by (auto simp: ring_free_def pipe_consts)
    with True Cons.prems show ?thesis by (simp add: calmer_refl)
  next
    case False
    define t where "t = (if parked_on i POSIX_PIPE_END_WRITE slot s then wake_writer i slot s else s)"
    have c: "calmer i s t" and m: "pp_count (pipes s ! i) \<le> pp_count (pipes t ! i)"
      using wake_writer_calmer [of i POSIX_PIPE_END_WRITE slot s] Cons.prems False by (auto simp: t_def calmer_refl)
    have np: "\<not> parked_on i POSIX_PIPE_END_WRITE slot t"
      using Cons.prems by (auto simp: t_def wake_writer_def Let_def finish_wait_parked split: option.splits)
    have e: "wake_writers_from i (slot # slots) s = wake_writers_from i slots t" using False by (auto simp: t_def)
    have ih: "calmer i t (wake_writers_from i slots t)
      \<and> pp_count (pipes t ! i) \<le> pp_count (pipes (wake_writers_from i slots t) ! i)
      \<and> (pp_count (pipes (wake_writers_from i slots t) ! i) \<noteq> 0
       \<or> (\<forall>slot \<in> set slots. \<not> parked_on i POSIX_PIPE_END_WRITE slot (wake_writers_from i slots t)))"
      using Cons.prems c calmer_parked [OF c, of i POSIX_PIPE_END_WRITE]
      by (intro Cons.IH) (auto simp: calmer_simps calmer_wf)
    then show ?thesis unfolding e
      using calmer_trans [OF c] m calmer_parked [of i t "wake_writers_from i slots t" i POSIX_PIPE_END_WRITE slot] np
      by (auto intro: order_trans)
  qed
qed

lemma wake_all_spec:
  assumes "\<forall>slot \<in> set slots. slot < length (task_pool s)" and "i < length (pipes s)" and "pipe_wf (pipes s ! i)"
  shows "calmer i s (fold (wake_one i w v) slots s) \<and> pipes (fold (wake_one i w v) slots s) = pipes s
    \<and> (\<forall>slot \<in> set slots. \<not> parked_on i w slot (fold (wake_one i w v) slots s))"
  using assms
proof (induction slots arbitrary: s)
  case Nil
  then show ?case by (simp add: calmer_refl)
next
  case (Cons slot slots)
  have c: "calmer i s (wake_one i w v slot s)"
    using Cons.prems by (auto simp: wake_one_def calmer_refl intro!: calmer_finish)
  have p: "pipes (wake_one i w v slot s) = pipes s" "\<not> parked_on i w slot (wake_one i w v slot s)"
    using Cons.prems by (auto simp: wake_one_def finish_wait_parked)
  have "calmer i (wake_one i w v slot s) (fold (wake_one i w v) slots (wake_one i w v slot s)) \<and> pipes (fold (wake_one i w v) slots (wake_one i w v slot s)) = pipes (wake_one i w v slot s)
    \<and> (\<forall>k \<in> set slots. \<not> parked_on i w k (fold (wake_one i w v) slots (wake_one i w v slot s)))"
    by (rule Cons.IH) (use Cons.prems c p in \<open>auto simp: calmer_simps\<close>)
  with calmer_trans [OF c] p calmer_parked [of i "wake_one i w v slot s" "fold (wake_one i w v) slots (wake_one i w v slot s)" i w slot] show ?case by auto
qed

section \<open>No lost wake-up\<close>

text \<open>
  A parked reader waits on an empty ring some writer can still fill, a parked writer on a
  ring that holds bytes some reader can still take.
\<close>

definition stuck_free :: "nat \<Rightarrow> 'a pipes_st_scheme \<Rightarrow> bool" where
  "stuck_free i s \<longleftrightarrow> (\<forall>slot.
      (parked_on i POSIX_PIPE_END_READ slot s \<longrightarrow>
         pp_active (pipes s ! i) \<and> pp_count (pipes s ! i) = 0 \<and> 0 < pp_writers (pipes s ! i))
    \<and> (parked_on i POSIX_PIPE_END_WRITE slot s \<longrightarrow>
         pp_active (pipes s ! i) \<and> 0 < pp_count (pipes s ! i) \<and> 0 < pp_readers (pipes s ! i)
         \<and> pw_length (pipe_waits s ! slot) \<le> POSIX_IO_MAX))"

definition pipes_ok :: "'a pipes_st_scheme \<Rightarrow> bool" where
  "pipes_ok s \<longleftrightarrow> length (pipes s) = POSIX_PIPE_MAX \<and> length (pipe_waits s) = MAX_TASKS
     \<and> length (task_pool s) = MAX_TASKS \<and> task_pool_count s \<le> MAX_TASKS
     \<and> (\<forall>i < POSIX_PIPE_MAX. pipe_wf (pipes s ! i) \<and> stuck_free i s)
     \<and> (\<forall>slot < MAX_TASKS. t_state (task_pool s ! slot) = TASK_BLOCKED_PIPE \<longrightarrow> slot < task_pool_count s
          \<and> (\<exists>i < POSIX_PIPE_MAX. parked_on i POSIX_PIPE_END_READ slot s \<or> parked_on i POSIX_PIPE_END_WRITE slot s))"

text \<open>The part of the invariant that a step on pipe \<open>i\<close> keeps by leaving the rest alone.\<close>

definition pipes_but :: "nat \<Rightarrow> 'a pipes_st_scheme \<Rightarrow> bool" where
  "pipes_but i s \<longleftrightarrow> length (pipes s) = POSIX_PIPE_MAX \<and> length (pipe_waits s) = MAX_TASKS
     \<and> length (task_pool s) = MAX_TASKS \<and> task_pool_count s \<le> MAX_TASKS
     \<and> i < POSIX_PIPE_MAX \<and> pipe_wf (pipes s ! i)
     \<and> (\<forall>j < POSIX_PIPE_MAX. j \<noteq> i \<longrightarrow> pipe_wf (pipes s ! j) \<and> stuck_free j s)
     \<and> (\<forall>slot. parked_on i POSIX_PIPE_END_WRITE slot s \<longrightarrow> pw_length (pipe_waits s ! slot) \<le> POSIX_IO_MAX)
     \<and> (\<forall>slot < MAX_TASKS. t_state (task_pool s ! slot) = TASK_BLOCKED_PIPE \<longrightarrow> slot < task_pool_count s
          \<and> (\<exists>i < POSIX_PIPE_MAX. parked_on i POSIX_PIPE_END_READ slot s \<or> parked_on i POSIX_PIPE_END_WRITE slot s))"

lemma pipes_ok_but: "i < POSIX_PIPE_MAX \<Longrightarrow> pipes_ok s \<longleftrightarrow> pipes_but i s \<and> stuck_free i s"
  by (auto simp: pipes_ok_def pipes_but_def) (auto simp: stuck_free_def)

lemma pipes_but_calmer:
  assumes "pipes_but i s" and "calmer i s s'"
  shows "pipes_but i s'"
proof -
  have "stuck_free j s'" if "j < POSIX_PIPE_MAX" "j \<noteq> i" for j
  proof -
    have "stuck_free j s" using assms(1) that by (simp add: pipes_but_def)
    moreover have "pipes s' ! j = pipes s ! j" using assms(2) that by (simp add: calmer_def)
    ultimately show ?thesis
      using calmer_parked [OF assms(2), of j] unfolding stuck_free_def by metis
  qed
  moreover have "slot < task_pool_count s' \<and> (\<exists>i < POSIX_PIPE_MAX. parked_on i POSIX_PIPE_END_READ slot s' \<or> parked_on i POSIX_PIPE_END_WRITE slot s')"
    if "slot < MAX_TASKS" "t_state (task_pool s' ! slot) = TASK_BLOCKED_PIPE" for slot
    using calmer_slot [OF assms(2), of slot] that assms(1) calmer_simps(1,3) [OF assms(2)]
    by (auto simp: pipes_but_def parked_on_def)
  ultimately show ?thesis
    using assms calmer_parked [OF assms(2), of i] by (auto simp: pipes_but_def calmer_def)
qed

lemma parked_slot: "pipes_but i s \<Longrightarrow> parked_on j w slot s \<Longrightarrow> slot < task_pool_count s"
  by (simp add: pipes_but_def parked_on_def)

lemma pipes_but_upd:
  assumes "pipes_but i s" and "pipe_wf p"
  shows "pipes_but i (pipe_upd i (\<lambda>_. p) s)"
  using assms by (auto simp: pipes_but_def stuck_free_def)

lemma stuck_free_none:
  "(\<forall>slot. \<not> parked_on i POSIX_PIPE_END_READ slot s) \<Longrightarrow> (\<forall>slot. \<not> parked_on i POSIX_PIPE_END_WRITE slot s) \<Longrightarrow> stuck_free i s"
  by (simp add: stuck_free_def)

lemma stuck_free_exclusive:
  "stuck_free i s \<Longrightarrow> parked_on i POSIX_PIPE_END_READ k s \<Longrightarrow> \<not> parked_on i POSIX_PIPE_END_WRITE j s"
  unfolding stuck_free_def by (metis less_irrefl)

lemma wake_readers_spec:
  assumes "pipes_but i s"
  shows "calmer i s (wake_readers i s)"
    and "pp_count (pipes (wake_readers i s) ! i) = 0 \<or> (\<forall>slot. \<not> parked_on i POSIX_PIPE_END_READ slot (wake_readers i s))"
proof -
  have "calmer i s (wake_readers i s) \<and> (pp_count (pipes (wake_readers i s) ! i) = 0
       \<or> (\<forall>slot \<in> set [0..<task_pool_count s]. \<not> parked_on i POSIX_PIPE_END_READ slot (wake_readers i s)))"
    unfolding wake_readers_def by (rule wake_readers_from_spec) (use assms in \<open>auto simp: pipes_but_def\<close>)
  then show "calmer i s (wake_readers i s)"
    and "pp_count (pipes (wake_readers i s) ! i) = 0 \<or> (\<forall>slot. \<not> parked_on i POSIX_PIPE_END_READ slot (wake_readers i s))"
    using parked_slot [OF assms] calmer_parked [of i s "wake_readers i s"] by (fastforce+)
qed

lemma wake_writers_spec:
  assumes "pipes_but i s"
  shows "calmer i s (wake_writers i s)"
    and "pp_count (pipes (wake_writers i s) ! i) \<noteq> 0 \<or> (\<forall>slot. \<not> parked_on i POSIX_PIPE_END_WRITE slot (wake_writers i s))"
proof -
  have "calmer i s (wake_writers i s) \<and> pp_count (pipes s ! i) \<le> pp_count (pipes (wake_writers i s) ! i)
     \<and> (pp_count (pipes (wake_writers i s) ! i) \<noteq> 0
       \<or> (\<forall>slot \<in> set [0..<task_pool_count s]. \<not> parked_on i POSIX_PIPE_END_WRITE slot (wake_writers i s)))"
    unfolding wake_writers_def by (rule wake_writers_from_spec) (use assms in \<open>auto simp: pipes_but_def\<close>)
  then show "calmer i s (wake_writers i s)"
    and "pp_count (pipes (wake_writers i s) ! i) \<noteq> 0 \<or> (\<forall>slot. \<not> parked_on i POSIX_PIPE_END_WRITE slot (wake_writers i s))"
    using parked_slot [OF assms] calmer_parked [of i s "wake_writers i s"] by (fastforce+)
qed

lemma wake_all_none:
  assumes "pipes_but i s"
  shows "calmer i s (wake_all i w v s)" and "pipes (wake_all i w v s) = pipes s"
    and "\<not> parked_on i w slot (wake_all i w v s)"
proof -
  have a: "calmer i s (wake_all i w v s) \<and> pipes (wake_all i w v s) = pipes s
      \<and> (\<forall>slot \<in> set [0..<task_pool_count s]. \<not> parked_on i w slot (wake_all i w v s))"
    unfolding wake_all_def by (rule wake_all_spec) (use assms in \<open>auto simp: pipes_but_def\<close>)
  then show "calmer i s (wake_all i w v s)" and "pipes (wake_all i w v s) = pipes s" by auto
  from a show "\<not> parked_on i w slot (wake_all i w v s)"
    using parked_slot [OF assms, of i w slot] calmer_parked [of i s "wake_all i w v s" i w slot] by auto
qed

lemma user_access_part:
  assumes "vm64_user_access root a n w s" and "off + m \<le> n" and "0 < m"
  shows "vm64_user_access root (a + of_nat off) m w s"
proof -
  have r: "\<not> a < VM64_USER_BASE" "\<not> VM64_USER_LIMIT \<le> a" "n \<le> unat (VM64_USER_LIMIT - a)"
    and b: "\<And>k. k < n \<Longrightarrow> byte_access root w (a + of_nat k) s"
    using assms(1) by (auto simp: vm64_user_access_def list_all_iff)
  have lim: "unat VM64_USER_LIMIT = 0x120000000" by (simp add: VM64_USER_LIMIT_def)
  have a: "unat a < 0x120000000" using r(2) lim by (simp add: word_le_nat_alt)
  have d: "unat (VM64_USER_LIMIT - a) = 0x120000000 - unat a" using r(2) lim by (simp add: unat_sub word_le_nat_alt)
  have o: "unat (a + of_nat off) = unat a + off"
  proof -
    have "unat (of_nat (unat a + off) :: u64) = unat a + off"
      using a d r(3) assms(2,3) by (simp only: unat_of_nat) (rule mod_less, simp)
    then show ?thesis by simp
  qed
  have lt: "\<not> VM64_USER_LIMIT \<le> a + of_nat off" using o d r(3) assms(2,3) lim a by (simp add: word_le_nat_alt)
  have ge: "\<not> a + of_nat off < VM64_USER_BASE" using o r(1) by (simp add: word_less_nat_alt)
  have "unat (VM64_USER_LIMIT - (a + of_nat off)) = 0x120000000 - (unat a + off)"
    using lt o lim by (simp add: unat_sub word_le_nat_alt)
  moreover have "byte_access root w (a + of_nat off + of_nat k) s" if "k < m" for k
    using b [of "off + k"] that assms(2) by (simp add: add.assoc)
  ultimately show ?thesis using lt ge d r(3) assms(2,3) by (auto simp: vm64_user_access_def list_all_iff)
qed

definition IO_REQUEST_SIZE :: nat where "IO_REQUEST_SIZE = 12 + POSIX_IO_MAX"

lemma copy_succeeds:
  assumes "vm64_user_access root request IO_REQUEST_SIZE True s" and "user_pte s' = user_pte s"
    and "0 < length bs" and "length bs \<le> POSIX_IO_MAX"
  shows "fst (vm64_copy_to root (request + POSIX_IO_DATA_OFFSET) bs s')"
proof -
  have "vm64_user_access root (request + of_nat 12) (length bs) True s"
    using assms by (intro user_access_part) (auto simp: IO_REQUEST_SIZE_def)
  then show ?thesis by (simp add: vm64_copy_to_def user_access_frame [OF assms(2)] POSIX_IO_DATA_OFFSET_def)
qed

lemma patch_succeeds:
  assumes "vm64_user_access (t_page_dir (task_pool s' ! i)) request IO_REQUEST_SIZE True s" and "user_pte s' = user_pte s"
  shows "fst (posix_io_patch_result i request n s')"
proof -
  have "vm64_user_access (t_page_dir (task_pool s' ! i)) (request + of_nat 8) 4 True s"
    using assms(1) by (intro user_access_part) (auto simp: IO_REQUEST_SIZE_def)
  then show ?thesis
    by (simp add: posix_io_patch_result_def vm64_copy_to_def user_access_frame [OF assms(2)]
        POSIX_IO_TRANSFERRED_OFFSET_def le_bytes_def)
qed

text \<open>A step that only takes one task off its pipe, or changes a task that is on none.\<close>

lemma pipes_ok_unpark:
  assumes "pipes_ok s" and "pipes s' = pipes s" and "length (pipe_waits s') = length (pipe_waits s)"
    and "length (task_pool s') = length (task_pool s)" and "task_pool_count s \<le> task_pool_count s'"
    and "task_pool_count s' \<le> MAX_TASKS" and "t_state (task_pool s' ! slot) \<noteq> TASK_BLOCKED_PIPE"
    and "\<And>j. j \<noteq> slot \<Longrightarrow> pipe_waits s' ! j = pipe_waits s ! j \<and> task_pool s' ! j = task_pool s ! j"
  shows "pipes_ok s'"
proof -
  have p: "parked_on i w j s' \<longleftrightarrow> j \<noteq> slot \<and> parked_on i w j s" for i w j
    using assms(4,7,8) by (cases "j = slot") (auto simp: parked_on_def)
  have "stuck_free i s'" if "stuck_free i s" for i
    using that assms(2,8) by (auto simp: stuck_free_def p)
  moreover have "j < task_pool_count s' \<and> (\<exists>i < POSIX_PIPE_MAX. parked_on i POSIX_PIPE_END_READ j s' \<or> parked_on i POSIX_PIPE_END_WRITE j s')"
    if "j < MAX_TASKS" "t_state (task_pool s' ! j) = TASK_BLOCKED_PIPE" for j
    using that assms(1,5,7,8) p by (cases "j = slot") (fastforce simp: pipes_ok_def)+
  ultimately show ?thesis using assms by (simp add: pipes_ok_def)
qed

lemma pipe_park_ok:
  assumes "pipes_ok s" and "slot < task_pool_count s" and "t_state (task_pool s ! slot) = TASK_RUNNING"
    and "i < POSIX_PIPE_MAX" and "pp_active (pipes s ! i)" and "len \<le> POSIX_IO_MAX"
    and "w = POSIX_PIPE_END_READ \<and> pp_count (pipes s ! i) = 0 \<and> 0 < pp_writers (pipes s ! i)
       \<or> w = POSIX_PIPE_END_WRITE \<and> 0 < pp_count (pipes s ! i) \<and> 0 < pp_readers (pipes s ! i)"
  shows "pipes_ok (snd (pipe_park cpu slot i w request len s))"
proof -
  define s2 where "s2 = task_state_set (Some slot) TASK_BLOCKED_PIPE (s\<lparr>pipe_waits := (pipe_waits s)[slot :=
            \<lparr>pw_pipe = i + 1, pw_end = w, pw_request = request, pw_length = len\<rparr>]\<rparr>)"
  have l: "slot < length (task_pool s)" "slot < length (pipe_waits s)" using assms(1,2) by (auto simp: pipes_ok_def)
  have f: "pipes s2 = pipes s" "task_pool_count s2 = task_pool_count s" "length (pipe_waits s2) = length (pipe_waits s)"
    "length (task_pool s2) = length (task_pool s)"
    "\<And>j. j \<noteq> slot \<Longrightarrow> pipe_waits s2 ! j = pipe_waits s ! j \<and> task_pool s2 ! j = task_pool s ! j"
    "pipe_waits s2 ! slot = \<lparr>pw_pipe = i + 1, pw_end = w, pw_request = request, pw_length = len\<rparr>"
    using l by (simp_all add: s2_def task_state_set_def task_upd_def)
  have b: "t_state (task_pool s2 ! slot) = TASK_BLOCKED_PIPE" using l by (simp add: s2_def task_state_set_def task_upd_def)
  have p: "parked_on k v j s2 \<longleftrightarrow> (if j = slot then k = i \<and> v = w else parked_on k v j s)" for k v j
    using f(4,5,6) b l by (auto simp: parked_on_def)
  have "stuck_free k s2" if "stuck_free k s" for k
    unfolding stuck_free_def p using that assms(5,6,7) f by (auto simp: stuck_free_def pipe_consts)
  moreover have "j < task_pool_count s2 \<and> (\<exists>i < POSIX_PIPE_MAX. parked_on i POSIX_PIPE_END_READ j s2 \<or> parked_on i POSIX_PIPE_END_WRITE j s2)"
    if "j < MAX_TASKS" "t_state (task_pool s2 ! j) = TASK_BLOCKED_PIPE" for j
    using that assms f(2,5) p by (cases "j = slot") (auto simp: pipes_ok_def)
  ultimately have ok: "pipes_ok s2" using assms(1) f by (simp add: pipes_ok_def)
  have "pipes_ok (task_state_set (Some slot) TASK_RUNNING (clear_wait slot s2))"
    by (rule pipes_ok_unpark [OF ok, where slot = slot])
      (use assms(1,2) f l in \<open>auto simp: task_state_set_def pipes_ok_def\<close>)
  with ok show ?thesis unfolding pipe_park_def Let_def s2_def [symmetric] by (simp split: option.split)
qed

lemma pipe_read_ok:
  assumes "pipes_ok s" and "slot < task_pool_count s" and "t_state (task_pool s ! slot) = TASK_RUNNING"
    and "i < POSIX_PIPE_MAX" and "pp_active (pipes s ! i)" and "0 < len" and "len \<le> POSIX_IO_MAX"
    and "vm64_user_access (t_page_dir (task_pool s ! slot)) request IO_REQUEST_SIZE True s"
  shows "pipes_ok (snd (snd (pipe_read cpu slot i request len s)))"
proof -
  have but: "pipes_but i s" and free: "stuck_free i s" using assms(1) pipes_ok_but [OF assms(4)] by auto
  show ?thesis
  proof (cases "pp_count (pipes s ! i) = 0")
    case True
    show ?thesis
    proof (cases "pp_writers (pipes s ! i) = 0")
      case True
      have "pipes_ok (snd (posix_io_patch_result slot request 0 s))"
        using assms(1,3) by (intro pipes_ok_unpark [OF assms(1), where slot = slot]) (auto simp: pipes_ok_def)
      with True \<open>pp_count (pipes s ! i) = 0\<close> show ?thesis by (simp add: pipe_read_def)
    next
      case False
      have "pipes_ok (snd (pipe_park cpu slot i POSIX_PIPE_END_READ request len s))"
        by (rule pipe_park_ok [OF assms(1-5,7)]) (use False True in simp)
      with False True show ?thesis by (simp add: pipe_read_def case_prod_beta)
    qed
  next
    case False
    let ?n = "min (pp_count (pipes s ! i)) len"
    let ?s1 = "pipe_upd i (\<lambda>_. snd (ring_take ?n (pipes s ! i))) s"
    let ?c = "vm64_copy_to (t_page_dir (task_pool s ! slot)) (request + POSIX_IO_DATA_OFFSET) (fst (ring_take ?n (pipes s ! i))) ?s1"
    let ?d = "posix_io_patch_result slot request ?n (snd ?c)"
    have m: "(if pp_count (pipes s ! i) < len then pp_count (pipes s ! i) else len) = ?n" by simp
    have wf: "pipe_wf (pipes s ! i)" using but by (simp add: pipes_but_def)
    have "length (fst (ring_take ?n (pipes s ! i))) = ?n"
      using arg_cong [OF ring_take_spec(2) [OF wf, of ?n], of length] by simp
    then have "fst ?c" using False assms(6,7) by (intro copy_succeeds [OF assms(8)]) auto
    moreover have "fst ?d" by (rule patch_succeeds [of _ _ _ s]) (use assms(8) in simp_all)
    ultimately have e: "snd (snd (pipe_read cpu slot i request len s)) = wake_writers i (snd ?d)"
      using False by (simp add: pipe_read_def Let_def m case_prod_beta)
    have b1: "pipes_but i (snd ?d)"
      using pipes_but_upd [OF but ring_take_spec(1) [OF wf, of ?n]] by (auto simp: pipes_but_def stuck_free_def)
    note w = wake_writers_spec [OF b1]
    have "\<not> parked_on i POSIX_PIPE_END_READ k (snd ?d)" for k
      using free False by (auto simp: stuck_free_def)
    then have nr: "\<not> parked_on i POSIX_PIPE_END_READ k (wake_writers i (snd ?d))" for k
      using calmer_parked [OF w(1)] by blast
    have "pp_active (pipes (wake_writers i (snd ?d)) ! i)" "pp_readers (pipes (wake_writers i (snd ?d)) ! i) = pp_readers (pipes s ! i)"
      using w(1) assms(4,5) but by (auto simp: calmer_def pipes_but_def)
    moreover have "0 < pp_readers (pipes s ! i) \<and> pw_length (pipe_waits (wake_writers i (snd ?d)) ! k) \<le> POSIX_IO_MAX"
      if "parked_on i POSIX_PIPE_END_WRITE k (wake_writers i (snd ?d))" for k
      using calmer_parked [OF w(1) that] free by (auto simp: stuck_free_def)
    ultimately have "stuck_free i (wake_writers i (snd ?d))"
      using w(2) nr by (auto simp: stuck_free_def)
    with pipes_but_calmer [OF b1 w(1)] e show ?thesis by (simp add: pipes_ok_but [OF assms(4)])
  qed
qed

lemma pipe_write_ok:
  assumes "pipes_ok s" and "slot < task_pool_count s" and "t_state (task_pool s ! slot) = TASK_RUNNING"
    and "i < POSIX_PIPE_MAX" and "pp_active (pipes s ! i)" and "0 < len" and "len \<le> POSIX_IO_MAX"
  shows "pipes_ok (snd (snd (pipe_write cpu slot i request len s)))"
proof -
  have but: "pipes_but i s" and free: "stuck_free i s" using assms(1) pipes_ok_but [OF assms(4)] by auto
  let ?c = "vm64_copy_from (t_page_dir (task_pool s ! slot)) (request + POSIX_IO_DATA_OFFSET) len s"
  consider "pp_readers (pipes s ! i) = 0 \<or> len \<le> ring_free (pipes s ! i) \<and> ?c = None"
    | "0 < pp_readers (pipes s ! i)" "ring_free (pipes s ! i) < len"
    | bs where "0 < pp_readers (pipes s ! i)" "len \<le> ring_free (pipes s ! i)" "?c = Some bs"
    by (cases ?c) force+
  then show ?thesis
  proof cases
    case 1
    with assms(1) show ?thesis by (auto simp: pipe_write_def Let_def)
  next
    case 2
    then have "0 < pp_count (pipes s ! i)" using assms(7) by (auto simp: ring_free_def pipe_consts)
    with 2 have "pipes_ok (snd (pipe_park cpu slot i POSIX_PIPE_END_WRITE request len s))"
      by (intro pipe_park_ok [OF assms(1-5,7)]) simp
    with 2 show ?thesis by (simp add: pipe_write_def case_prod_beta)
  next
    case 3
    have wf: "pipe_wf (pipes s ! i)" using but by (simp add: pipes_but_def)
    have lb: "length bs = len" using 3(3) by (auto simp: vm64_copy_from_def split: if_splits)
    let ?t = "snd (posix_io_patch_result slot request len (pipe_upd i (ring_put bs) s))"
    have e: "snd (snd (pipe_write cpu slot i request len s)) = wake_readers i ?t"
      using 3 by (simp add: pipe_write_def)
    have b1: "pipes_but i ?t"
      using pipes_but_upd [OF but ring_put_spec(1) [OF wf, of bs]] 3(2) lb
      by (auto simp: pipes_but_def stuck_free_def)
    note r = wake_readers_spec [OF b1]
    have il: "i < length (pipes s)" using but by (simp add: pipes_but_def)
    have "stuck_free i (wake_readers i ?t)"
    proof (cases "\<exists>k. parked_on i POSIX_PIPE_END_READ k s")
      case True
      then have w: "0 < pp_writers (pipes s ! i)" "\<And>k. \<not> parked_on i POSIX_PIPE_END_WRITE k s"
        using free stuck_free_exclusive [OF free] by (auto simp: stuck_free_def)
      then have "\<not> parked_on i POSIX_PIPE_END_WRITE k (wake_readers i ?t)" for k
        using calmer_parked [OF r(1), of i POSIX_PIPE_END_WRITE k] by auto
      moreover have "pp_active (pipes (wake_readers i ?t) ! i)" "0 < pp_writers (pipes (wake_readers i ?t) ! i)"
        using r(1) assms(5) w(1) il by (auto simp: calmer_def)
      ultimately show ?thesis using r(2) by (auto simp: stuck_free_def)
    next
      case False
      have same: "wake_readers_from i xs u = u" if "\<And>k. \<not> parked_on i POSIX_PIPE_END_READ k u" for xs and u :: "'a pipes_st_scheme"
        using that by (induction xs) auto
      have "wake_readers i ?t = ?t" unfolding wake_readers_def using False by (intro same) auto
      then show ?thesis using free False il assms(5) 3 lb assms(6) by (auto simp: stuck_free_def)
    qed
    with pipes_but_calmer [OF b1 r(1)] e show ?thesis by (simp add: pipes_ok_but [OF assms(4)])
  qed
qed

lemma retire_pipe_ok:
  assumes "pipes_but i s" and "stuck_free i s"
    and "pp_readers (pipes s ! i) = 0 \<Longrightarrow> pp_writers (pipes s ! i) = 0 \<Longrightarrow>
       (\<forall>slot. \<not> parked_on i POSIX_PIPE_END_READ slot s \<and> \<not> parked_on i POSIX_PIPE_END_WRITE slot s)"
  shows "pipes_ok (retire_pipe i s)"
proof -
  have i: "i < POSIX_PIPE_MAX" using assms(1) by (simp add: pipes_but_def)
  let ?p = "(pipes s ! i)\<lparr>pp_active := False\<rparr>"
  have "pipe_wf ?p" using assms(1) by (simp add: pipes_but_def pipe_wf_def)
  from pipes_but_upd [OF assms(1) this] have "pipes_but i (pipe_upd i (\<lambda>p. p\<lparr>pp_active := False\<rparr>) s)"
    by (simp add: pipe_upd_def)
  then show ?thesis
    using assms i by (auto simp: retire_pipe_def pipes_ok_but [OF i] intro!: stuck_free_none)
qed

lemma stuck_free_ends:
  "stuck_free i s \<Longrightarrow> pp_readers (pipes s ! i) = 0 \<Longrightarrow> pp_writers (pipes s ! i) = 0 \<Longrightarrow>
     (\<forall>slot. \<not> parked_on i POSIX_PIPE_END_READ slot s \<and> \<not> parked_on i POSIX_PIPE_END_WRITE slot s)"
  by (auto simp: stuck_free_def)

lemma posix_pipe_release_ok:
  assumes "pipes_ok s"
  shows "pipes_ok (posix_pipe_release i w s)"
proof (cases "POSIX_PIPE_MAX \<le> i \<or> \<not> pp_active (pipes s ! i)")
  case True
  with assms show ?thesis by (simp add: posix_pipe_release_def)
next
  case False
  then have i: "i < POSIX_PIPE_MAX" and act: "pp_active (pipes s ! i)" by auto
  have but: "pipes_but i s" and free: "stuck_free i s" using assms pipes_ok_but [OF i] by auto
  have wf: "pipe_wf (pipes s ! i)" and il: "i < length (pipes s)" using but i by (auto simp: pipes_but_def)
  consider "w = POSIX_PIPE_END_READ" "0 < pp_readers (pipes s ! i)" | "w = POSIX_PIPE_END_WRITE" "0 < pp_writers (pipes s ! i)"
    | "posix_pipe_release i w s = s"
    by (cases "w = POSIX_PIPE_END_READ"; cases "w = POSIX_PIPE_END_WRITE"; cases "pp_readers (pipes s ! i) = 0";
        cases "pp_writers (pipes s ! i) = 0") (auto simp: posix_pipe_release_def)
  then show ?thesis
  proof cases
    case 1
    let ?f = "\<lambda>p. p\<lparr>pp_readers := pp_readers p - 1\<rparr>"
    let ?s = "pipe_upd i ?f s"
    have b: "pipes_but i ?s" using pipes_but_upd [OF but, of "?f (pipes s ! i)"] wf by (simp add: pipe_wf_def pipe_upd_def)
    note a = wake_all_none [OF b, where w = POSIX_PIPE_END_WRITE and v = POSIX_VFS_EPIPE]
    have e: "posix_pipe_release i w s = (if pp_readers (pipes s ! i) \<noteq> 1 then ?s else retire_pipe i (wake_writers_broken i ?s))"
      using False 1 il by (auto simp: posix_pipe_release_def Let_def)
    have sf: "stuck_free i (wake_writers_broken i ?s)"
      unfolding wake_writers_broken_def stuck_free_def a(2)
      using a(3) calmer_parked [OF a(1), of i POSIX_PIPE_END_READ] free act il
      by (auto simp: stuck_free_def)
    have "pipes_ok (retire_pipe i (wake_writers_broken i ?s))"
      using pipes_but_calmer [OF b a(1)] sf stuck_free_ends [OF sf]
      by (intro retire_pipe_ok) (simp_all add: wake_writers_broken_def)
    moreover have "pipes_ok ?s" if "pp_readers (pipes s ! i) \<noteq> 1"
      using that b free 1 il by (auto simp: pipes_ok_but [OF i] stuck_free_def)
    ultimately show ?thesis using e by auto
  next
    case 2
    let ?f = "\<lambda>p. p\<lparr>pp_writers := pp_writers p - 1\<rparr>"
    let ?s = "pipe_upd i ?f s"
    have b: "pipes_but i ?s" using pipes_but_upd [OF but, of "?f (pipes s ! i)"] wf by (simp add: pipe_wf_def pipe_upd_def)
    note r = wake_readers_spec [OF b]
    note b2 = pipes_but_calmer [OF b r(1)]
    let ?t = "wake_all i POSIX_PIPE_END_READ 0 (wake_readers i ?s)"
    note a = wake_all_none [OF b2, where w = POSIX_PIPE_END_READ and v = 0]
    have e: "posix_pipe_release i w s = (if pp_writers (pipes s ! i) \<noteq> 1 then ?s else retire_pipe i ?t)"
      using False 2 il by (auto simp: posix_pipe_release_def Let_def pipe_consts)
    have sf: "stuck_free i ?t"
    proof -
      have same: "wake_readers_from i xs u = u" if "\<And>k. \<not> parked_on i POSIX_PIPE_END_READ k u" for xs and u :: "'a pipes_st_scheme"
        using that by (induction xs) auto
      have "wake_readers i ?s = ?s" if "parked_on i POSIX_PIPE_END_WRITE k s" for k
        unfolding wake_readers_def using that stuck_free_exclusive [OF free] by (intro same) auto
      moreover have "parked_on i POSIX_PIPE_END_WRITE k s \<and> pipe_waits ?t ! k = pipe_waits s ! k"
        if "parked_on i POSIX_PIPE_END_WRITE k ?t" for k
        using calmer_parked [OF a(1) that] calmer_parked [OF r(1), of i POSIX_PIPE_END_WRITE k] by simp
      ultimately have "parked_on i POSIX_PIPE_END_WRITE k s \<and> pipe_waits ?t ! k = pipe_waits s ! k \<and> wake_readers i ?s = ?s"
        if "parked_on i POSIX_PIPE_END_WRITE k ?t" for k
        using that by blast
      then have "pp_active (pipes ?t ! i) \<and> 0 < pp_count (pipes ?t ! i) \<and> 0 < pp_readers (pipes ?t ! i)
          \<and> pw_length (pipe_waits ?t ! k) \<le> POSIX_IO_MAX" if "parked_on i POSIX_PIPE_END_WRITE k ?t" for k
        using that free act il unfolding a(2) by (fastforce simp: stuck_free_def)
      then show ?thesis using a(3) unfolding stuck_free_def by blast
    qed
    have "pipes_ok (retire_pipe i ?t)"
      using pipes_but_calmer [OF b2 a(1)] sf stuck_free_ends [OF sf] by (intro retire_pipe_ok)
    moreover have "pipes_ok ?s" if "pp_writers (pipes s ! i) \<noteq> 1"
      using that b free 2 il by (auto simp: pipes_ok_but [OF i] stuck_free_def)
    ultimately show ?thesis using e by auto
  next
    case 3
    with assms show ?thesis by simp
  qed
qed

lemma posix_pipe_create_ok:
  assumes "pipes_ok s"
  shows "pipes_ok (snd (posix_pipe_create s))"
proof (cases "first_index (\<lambda>pipe. \<not> pp_active pipe) (pipes s)")
  case None
  with assms show ?thesis by (simp add: posix_pipe_create_def)
next
  case (Some i)
  let ?f = "\<lambda>p. p\<lparr>pp_tail := 0, pp_count := 0, pp_readers := 0, pp_writers := 0, pp_active := True\<rparr>"
  have i: "i < POSIX_PIPE_MAX" "\<not> pp_active (pipes s ! i)" using first_indexD [OF Some] assms by (auto simp: pipes_ok_def)
  have but: "pipes_but i s" and free: "stuck_free i s" using assms pipes_ok_but [OF i(1)] by auto
  have "pipe_wf (?f (pipes s ! i))" using but by (auto simp: pipes_but_def pipe_wf_def POSIX_PIPE_BUF_def)
  from pipes_but_upd [OF but this] have "pipes_but i (pipe_upd i ?f s)" by (simp add: pipe_upd_def)
  moreover have "stuck_free i (pipe_upd i ?f s)" using free i(2) by (auto simp: stuck_free_def)
  ultimately show ?thesis using Some by (simp add: posix_pipe_create_def pipes_ok_but [OF i(1)])
qed

lemma posix_pipe_retain_ok:
  assumes "pipes_ok s"
  shows "pipes_ok (posix_pipe_retain i w s)"
proof (cases "POSIX_PIPE_MAX \<le> i \<or> \<not> pp_active (pipes s ! i)")
  case True
  with assms show ?thesis by (simp add: posix_pipe_retain_def)
next
  case False
  then have i: "i < POSIX_PIPE_MAX" by simp
  have but: "pipes_but i s" and free: "stuck_free i s" using assms pipes_ok_but [OF i] by auto
  have "pipes_ok (pipe_upd i f s)"
    if "pipe_wf (f (pipes s ! i))" "pp_active (f (pipes s ! i)) = pp_active (pipes s ! i)"
      "pp_count (f (pipes s ! i)) = pp_count (pipes s ! i)" "pp_readers (pipes s ! i) \<le> pp_readers (f (pipes s ! i))"
      "pp_writers (pipes s ! i) \<le> pp_writers (f (pipes s ! i))" for f
  proof -
    have "pipes_but i (pipe_upd i f s)" using pipes_but_upd [OF but that(1)] by (simp add: pipe_upd_def)
    moreover have "stuck_free i (pipe_upd i f s)"
      using free that but by (fastforce simp: stuck_free_def pipes_but_def)
    ultimately show ?thesis by (simp add: pipes_ok_but [OF i])
  qed
  moreover have "pipe_wf (pipes s ! i)" using but by (simp add: pipes_but_def)
  ultimately show ?thesis using assms by (auto simp: posix_pipe_retain_def pipe_wf_def)
qed

section \<open>Runs\<close>

text \<open>
  What can happen to the pipes: the pool operations, a read or write by a running task whose
  request the dispatcher has checked (all of it readable, and writable for a read), a signal
  that breaks a park, and tasks that exit and are created meanwhile.
\<close>

datatype pipe_op = PCreate | PRetain nat nat | PRelease nat nat | PIo int nat nat nat u64 nat
  | PInterrupt nat | PExit nat int | PSpawn

fun pipe_step :: "pipe_op \<Rightarrow> 'a pipes_st_scheme \<Rightarrow> 'a pipes_st_scheme" where
  "pipe_step PCreate s = snd (posix_pipe_create s)"
| "pipe_step (PRetain i w) s = posix_pipe_retain i w s"
| "pipe_step (PRelease i w) s = posix_pipe_release i w s"
| "pipe_step (PIo cpu slot i w request len) s =
     (if slot < task_pool_count s \<and> t_state (task_pool s ! slot) = TASK_RUNNING
        \<and> vm64_user_access (t_page_dir (task_pool s ! slot)) request IO_REQUEST_SIZE (w = POSIX_PIPE_END_READ) s
      then snd (snd (pipe_io_locked cpu (int slot) slot i w request len s)) else s)"
| "pipe_step (PInterrupt slot) s =
     (if task_pool_count s \<le> slot then s
      else case posix_pipe_signal slot s of (answer, s1) \<Rightarrow>
        case task_state_wake (Some slot) TASK_BLOCKED_PIPE s1 of (woken, s2) \<Rightarrow>
          if woken then task64_set_result slot answer s2 else s2)"
| "pipe_step (PExit slot code) s = (if slot < task_pool_count s then task_mark_zombie_commit slot code s else s)"
| "pipe_step PSpawn s = snd (task_alloc_slot s)"

lemma pipe_io_ok:
  assumes "pipes_ok s"
  shows "pipes_ok (pipe_step (PIo cpu slot i w request len) s)"
proof (cases "slot < task_pool_count s \<and> t_state (task_pool s ! slot) = TASK_RUNNING
    \<and> vm64_user_access (t_page_dir (task_pool s ! slot)) request IO_REQUEST_SIZE (w = POSIX_PIPE_END_READ) s
    \<and> i < POSIX_PIPE_MAX \<and> pp_active (pipes s ! i) \<and> 0 < len \<and> len \<le> POSIX_IO_MAX")
  case True
  then show ?thesis
    using assms pipe_read_ok [OF assms, of slot i len request cpu] pipe_write_ok [OF assms, of slot i len cpu request]
    by (auto simp: pipe_io_locked_def)
next
  case False
  with assms show ?thesis by (auto simp: pipe_io_locked_def)
qed

lemma pipe_interrupt_ok:
  assumes "pipes_ok s"
  shows "pipes_ok (pipe_step (PInterrupt slot) s)"
proof (cases "slot < task_pool_count s \<and> t_state (task_pool s ! slot) = TASK_BLOCKED_PIPE")
  case True
  then have l: "slot < length (task_pool s)" "slot < MAX_TASKS" using assms by (auto simp: pipes_ok_def)
  have "pipes_ok (task64_set_result slot POSIX_SIGNAL_EINTR (task_upd slot (t_state_update (\<lambda>_. TASK_RUNNING)) (clear_wait slot s)))"
    by (rule pipes_ok_unpark [OF assms, where slot = slot]) (use assms l in \<open>auto simp: pipes_ok_def\<close>)
  with True l show ?thesis by (simp add: posix_pipe_signal_def task_state_wake_def task_state_wake_locked_def)
next
  case False
  with assms show ?thesis by (auto simp: posix_pipe_signal_def task_state_wake_def task_state_wake_locked_def)
qed

lemma pipe_spawn_ok:
  assumes "pipes_ok s"
  shows "pipes_ok (snd (task_alloc_slot s))"
proof (cases "fst (alloc_candidate s)")
  case None
  then have "snd (task_alloc_slot s) = s"
    by (auto simp: task_alloc_slot_def alloc_candidate_def split: option.splits if_splits)
  with assms show ?thesis by simp
next
  case (Some k)
  define t where "t = snd (alloc_candidate s)"
  have f: "pipes t = pipes s" "pipe_waits t = pipe_waits s" "task_pool t = task_pool s"
    "task_pool_count s \<le> task_pool_count t" "task_pool_count t \<le> MAX_TASKS"
    using assms by (auto simp: t_def alloc_candidate_def pipes_ok_def split: option.splits)
  have k: "k < length (task_pool s)"
    using Some assms first_indexD(1) [of "\<lambda>t. t_state t = TASK_FREE" "tl (task_pool s)"]
    by (auto simp: alloc_candidate_def pipes_ok_def split: option.splits if_splits)
  let ?f = "\<lambda>t. t\<lparr>t_state := TASK_RUNNING, t_on_cpu := TASK_CPU_NONE,
             t_id := (if t_gen t \<noteq> 0 then sint (PID_MAKE (t_gen t) (of_nat k)) else int k)\<rparr>"
  have "pipes_ok (task_upd k ?f t)"
    by (rule pipes_ok_unpark [OF assms, where slot = k]) (use f k in auto)
  moreover have "snd (task_alloc_slot s) = task_upd k ?f t"
    using Some by (cases "alloc_candidate s") (simp add: task_alloc_slot_def t_def)
  ultimately show ?thesis by simp
qed

lemma pipe_exit_ok:
  assumes "pipes_ok s"
  shows "pipes_ok (pipe_step (PExit slot code) s)"
proof (cases "slot < task_pool_count s")
  case True
  then have l: "slot < length (task_pool s)" using assms by (simp add: pipes_ok_def)
  have "pipes_ok (task_mark_zombie_commit slot code s)"
    by (rule pipes_ok_unpark [OF assms, where slot = slot])
      (use assms l in \<open>auto simp: task_mark_zombie_commit_def pipes_ok_def\<close>)
  with True show ?thesis by simp
next
  case False
  with assms show ?thesis by simp
qed

lemma pipe_step_ok: "pipes_ok s \<Longrightarrow> pipes_ok (pipe_step op s)"
  using pipe_io_ok pipe_interrupt_ok pipe_exit_ok posix_pipe_create_ok posix_pipe_retain_ok posix_pipe_release_ok
    pipe_spawn_ok by (cases op) (simp_all del: pipe_step.simps(4,5,6))

lemma pipe_run_ok: "pipes_ok s \<Longrightarrow> pipes_ok (fold pipe_step ops s)"
  by (rule fold_invariant) (simp_all add: pipe_step_ok)

text \<open>Before the first pipe: the pool is empty and no task is parked in a pipe call.\<close>

definition pipes_fresh :: "'a pipes_st_scheme \<Rightarrow> bool" where
  "pipes_fresh s \<longleftrightarrow> pipes s = replicate POSIX_PIPE_MAX zero_pipe \<and> length (pipe_waits s) = MAX_TASKS
     \<and> length (task_pool s) = MAX_TASKS \<and> task_pool_count s \<le> MAX_TASKS
     \<and> (\<forall>task \<in> set (task_pool s). t_state task \<noteq> TASK_BLOCKED_PIPE)"

lemma pipes_fresh_ok:
  assumes "pipes_fresh s"
  shows "pipes_ok s"
proof -
  have "pipe_wf zero_pipe" by (simp add: pipe_wf_def zero_pipe_def) (simp add: POSIX_PIPE_BUF_def)
  moreover have "t_state (task_pool s ! slot) \<noteq> TASK_BLOCKED_PIPE" if "slot < MAX_TASKS" for slot
    using assms that by (simp add: pipes_fresh_def)
  ultimately show ?thesis using assms by (auto simp: pipes_fresh_def pipes_ok_def stuck_free_def parked_on_def)
qed

section \<open>Progress\<close>








section \<open>Bytes through user memory\<close>

lemma fold_upd_out: "x \<notin> f ` {..<n} \<Longrightarrow> fold (\<lambda>k m. m(f k := b k)) [0..<n] m x = m x"
  by (induction n) (auto simp: lessThan_Suc)

text \<open>The address space of a task maps the request to distinct physical bytes.\<close>

definition request_distinct :: "u64 \<Rightarrow> u64 \<Rightarrow> 'a runtime_st_scheme \<Rightarrow> bool" where
  "request_distinct root request s \<longleftrightarrow> inj_on (\<lambda>k. physical root (request + of_nat k) s) {..<IO_REQUEST_SIZE}"

lemma read_after_copy:
  assumes "request_distinct root request s" and "off + length bs \<le> IO_REQUEST_SIZE"
    and "fst (vm64_copy_to root (request + of_nat off) bs s)"
  shows "k < length bs \<Longrightarrow>
      frames (snd (vm64_copy_to root (request + of_nat off) bs s)) (physical root (request + of_nat (off + k)) s) = bs ! k"
    and "k < off \<or> off + length bs \<le> k \<and> k < IO_REQUEST_SIZE \<Longrightarrow>
      frames (snd (vm64_copy_to root (request + of_nat off) bs s)) (physical root (request + of_nat k) s)
      = frames s (physical root (request + of_nat k) s)"
proof -
  let ?f = "\<lambda>k. physical root (request + of_nat (off + k)) s"
  have e: "frames (snd (vm64_copy_to root (request + of_nat off) bs s))
      = fold (\<lambda>k m. m(?f k := bs ! k)) [0..<length bs] (frames s)"
    using assms(3) by (auto simp: vm64_copy_to_def add.assoc split: if_splits)
  have inj: "x = y" if "physical root (request + of_nat x) s = physical root (request + of_nat y) s"
      "x < IO_REQUEST_SIZE" "y < IO_REQUEST_SIZE" for x y
    using assms(1) that by (auto simp: request_distinct_def inj_on_def)
  have "inj_on ?f {..<length bs}"
  proof (rule inj_onI)
    fix x y
    assume "x \<in> {..<length bs}" "y \<in> {..<length bs}" "?f x = ?f y"
    with inj [of "off + x" "off + y"] assms(2) show "x = y" by auto
  qed
  from fold_upd_in [OF this, of _ "(!) bs" "frames s"] show "k < length bs \<Longrightarrow>
      frames (snd (vm64_copy_to root (request + of_nat off) bs s)) (physical root (request + of_nat (off + k)) s) = bs ! k"
    unfolding e by blast
  assume k: "k < off \<or> off + length bs \<le> k \<and> k < IO_REQUEST_SIZE"
  have "physical root (request + of_nat k) s \<notin> ?f ` {..<length bs}"
  proof
    assume "physical root (request + of_nat k) s \<in> ?f ` {..<length bs}"
    then obtain j where "j < length bs" "physical root (request + of_nat k) s = ?f j" by auto
    with inj [of k "off + j"] k assms(2) show False by auto
  qed
  then show "frames (snd (vm64_copy_to root (request + of_nat off) bs s)) (physical root (request + of_nat k) s)
      = frames s (physical root (request + of_nat k) s)"
    unfolding e by (rule fold_upd_out)
qed

lemma wake_none:
  "(\<And>k. \<not> parked_on i POSIX_PIPE_END_READ k s) \<Longrightarrow> wake_readers i s = s"
  "(\<And>k. \<not> parked_on i POSIX_PIPE_END_WRITE k s) \<Longrightarrow> wake_writers i s = s"
proof -
  have "wake_readers_from i xs s = s" if "\<And>k. \<not> parked_on i POSIX_PIPE_END_READ k s" for xs
    using that by (induction xs) auto
  then show "(\<And>k. \<not> parked_on i POSIX_PIPE_END_READ k s) \<Longrightarrow> wake_readers i s = s" by (simp add: wake_readers_def)
  have "wake_writers_from i xs s = s" if "\<And>k. \<not> parked_on i POSIX_PIPE_END_WRITE k s" for xs
    using that by (induction xs) auto
  then show "(\<And>k. \<not> parked_on i POSIX_PIPE_END_WRITE k s) \<Longrightarrow> wake_writers i s = s" by (simp add: wake_writers_def)
qed

lemma pipe_write_calm:
  assumes "0 < pp_readers (pipes s ! i)" and "len \<le> ring_free (pipes s ! i)"
    and "vm64_copy_from (t_page_dir (task_pool s ! slot)) (request + POSIX_IO_DATA_OFFSET) len s = Some bs"
    and "\<And>k. \<not> parked_on i POSIX_PIPE_END_READ k s"
  shows "pipe_write cpu slot i request len s = (Answer (int len), True,
     snd (posix_io_patch_result slot request len (pipe_upd i (ring_put bs) s)))"
  using assms by (simp add: pipe_write_def Let_def wake_none(1))

lemma pipe_read_calm:
  fixes s :: "'a pipes_st_scheme"
  assumes "pipe_wf (pipes s ! i)" and "pipe_bytes (pipes s ! i) = bs" and "0 < length bs" and "length bs \<le> len" and "len \<le> POSIX_IO_MAX"
    and "vm64_user_access (t_page_dir (task_pool s ! slot)) request IO_REQUEST_SIZE True s"
    and "request_distinct (t_page_dir (task_pool s ! slot)) request s"
    and "\<And>k. \<not> parked_on i POSIX_PIPE_END_WRITE k s"
    and "pipe_read cpu slot i request len s = (answer, notify, t)"
  shows "answer = Answer (int (length bs))"
    and "vm64_copy_from (t_page_dir (task_pool t ! slot)) (request + POSIX_IO_DATA_OFFSET) (length bs) t = Some bs"
proof -
  let ?root = "t_page_dir (task_pool s ! slot)"
  let ?n = "length bs"
  have n: "pp_count (pipes s ! i) = ?n" using assms(2) by auto
  have take: "fst (ring_take ?n (pipes s ! i)) = bs"
    using ring_take_spec(2) [OF assms(1), of ?n] assms(2) n by (metis append_Nil2 append_eq_append_conv diff_self_eq_0
        length_0_conv length_append length_pipe_bytes order_refl ring_frame(5))
  let ?s1 = "pipe_upd i (\<lambda>_. snd (ring_take ?n (pipes s ! i))) s"
  let ?c = "vm64_copy_to ?root (request + of_nat 12) bs ?s1"
  let ?d = "vm64_copy_to ?root (request + of_nat 8) (le_bytes 4 (of_nat ?n)) (snd ?c)"
  have acc: "vm64_user_access ?root request IO_REQUEST_SIZE True ?s1" "vm64_user_access ?root request IO_REQUEST_SIZE True (snd ?c)"
    using assms(6) by (auto simp: vm64_user_access_def byte_access_def)
  have c: "fst ?c" using copy_succeeds [OF acc(1) refl, of bs] assms(3-5) by (simp add: POSIX_IO_DATA_OFFSET_def)
  have d: "fst ?d" using patch_succeeds [of "snd ?c" slot request "snd ?c" ?n] acc(2)
    by (simp add: posix_io_patch_result_def POSIX_IO_TRANSFERRED_OFFSET_def)
  have "pipe_read cpu slot i request len s = (Answer (int ?n), True, wake_writers i (snd ?d))"
    using c d n assms(3,4) take
    by (auto simp: pipe_read_def Let_def case_prod_beta posix_io_patch_result_def POSIX_IO_DATA_OFFSET_def
        POSIX_IO_TRANSFERRED_OFFSET_def le_less)
  moreover have "wake_writers i (snd ?d) = snd ?d" using assms(8) by (intro wake_none(2)) simp
  ultimately have t: "answer = Answer (int ?n)" "t = snd ?d" using assms(9) by auto
  show "answer = Answer (int (length bs))" by (rule t(1))
  have rd: "request_distinct ?root request ?s1" "request_distinct ?root request (snd ?c)"
    using assms(7) by (simp_all add: request_distinct_def physical_def)
  have phys: "physical ?root a (snd ?d) = physical ?root a s" "physical ?root a (snd ?c) = physical ?root a s"
    "physical ?root a ?s1 = physical ?root a s" for a by (simp_all add: physical_def)
  have byte: "frames (snd ?d) (physical ?root (request + of_nat (12 + k)) s) = bs ! k" if "k < ?n" for k
  proof -
    have le4: "length (le_bytes 4 (of_nat ?n)) = 4" by (simp add: le_bytes_def)
    have sz: "12 + ?n \<le> IO_REQUEST_SIZE" using assms(4,5) by (simp add: IO_REQUEST_SIZE_def)
    from read_after_copy(2) [OF rd(2) _ d, of "12 + k", unfolded phys] le4 that sz
    have "frames (snd ?d) (physical ?root (request + of_nat (12 + k)) s)
        = frames (snd ?c) (physical ?root (request + of_nat (12 + k)) s)"
      by simp
    also have "\<dots> = bs ! k" using read_after_copy(1) [OF rd(1) sz c that, unfolded phys] .
    finally show ?thesis .
  qed
  have u: "vm64_user_access ?root (request + of_nat 12) ?n False (snd ?d)"
  proof -
    have "vm64_user_access ?root (request + of_nat 12) ?n True s"
      using assms(3-6) by (intro user_access_part) (auto simp: IO_REQUEST_SIZE_def)
    then show ?thesis by (auto simp: vm64_user_access_def byte_access_def list_all_iff split: option.splits)
  qed
  have "map (\<lambda>k. frames (snd ?d) (physical ?root (request + of_nat 12 + of_nat k) (snd ?d))) [0..<?n] = bs"
  proof (rule nth_equalityI)
    fix k
    assume "k < length (map (\<lambda>k. frames (snd ?d) (physical ?root (request + of_nat 12 + of_nat k) (snd ?d))) [0..<?n])"
    then have k: "k < ?n" by simp
    have "request + of_nat 12 + of_nat k = request + of_nat (12 + k)" by simp
    with byte [OF k] k show "map (\<lambda>k. frames (snd ?d) (physical ?root (request + of_nat 12 + of_nat k) (snd ?d))) [0..<?n] ! k = bs ! k"
      unfolding phys by (simp only: nth_map_upt diff_zero add_0)
  qed simp
  with u have "vm64_copy_from ?root (request + of_nat 12) ?n (snd ?d) = Some bs" by (simp only: vm64_copy_from_def not_True_eq_False if_False)
  then show "vm64_copy_from (t_page_dir (task_pool t ! slot)) (request + POSIX_IO_DATA_OFFSET) (length bs) t = Some bs"
    unfolding t(2) by (simp add: POSIX_IO_DATA_OFFSET_def)
qed



section \<open>Properties\<close>

text \<open>
  C7. No lost wake-up: from an empty pool of pipes, after any sequence of pipe operations, interrupted parks,
  exits and new tasks, every task parked in a pipe call waits on a live pipe for something the
  other side still has to do. A parked reader's ring is empty and has a write end open; a
  parked writer's ring holds bytes and has a read end open. In particular no pipe has readers
  and writers parked at once.
\<close>

theorem pipe_no_lost_wakeup:
  assumes "pipes_fresh s0" and "s = fold pipe_step ops s0"
    and "slot < task_pool_count s" and "t_state (task_pool s ! slot) = TASK_BLOCKED_PIPE"
  shows "\<exists>i < POSIX_PIPE_MAX. pw_pipe (pipe_waits s ! slot) = i + 1 \<and> pp_active (pipes s ! i)
    \<and> (if pw_end (pipe_waits s ! slot) = POSIX_PIPE_END_READ
       then pp_count (pipes s ! i) = 0 \<and> 0 < pp_writers (pipes s ! i)
       else pw_end (pipe_waits s ! slot) = POSIX_PIPE_END_WRITE \<and> 0 < pp_count (pipes s ! i) \<and> 0 < pp_readers (pipes s ! i))"
proof -
  have ok: "pipes_ok s" unfolding assms(2) by (rule pipe_run_ok [OF pipes_fresh_ok [OF assms(1)]])
  then have "slot < MAX_TASKS" using assms(3) by (simp add: pipes_ok_def)
  with ok assms(4) obtain i where i: "i < POSIX_PIPE_MAX"
    "parked_on i POSIX_PIPE_END_READ slot s \<or> parked_on i POSIX_PIPE_END_WRITE slot s"
    by (auto simp: pipes_ok_def)
  moreover have "stuck_free i s" using ok i(1) by (simp add: pipes_ok_def)
  ultimately show ?thesis by (auto simp: stuck_free_def parked_on_def pipe_consts)
qed


text \<open>
  C38. What is written is what is read: in every reachable state, a write to an empty pipe with
  a reader but nobody parked, followed by a read by any task with room for it, both answer the
  length of the write, and the reader's buffer then holds the bytes the writer's buffer held.
\<close>

theorem pipe_end_to_end:
  assumes "pipes_fresh s0" and "s = fold pipe_step ops s0" and "i < POSIX_PIPE_MAX" and "pp_active (pipes s ! i)"
    and "pp_count (pipes s ! i) = 0" and "0 < pp_readers (pipes s ! i)" and "\<forall>k w. \<not> parked_on i w k s"
    and "0 < len" and "len \<le> capacity" and "capacity \<le> POSIX_IO_MAX"
    and "vm64_copy_from (t_page_dir (task_pool s ! writer)) (from + POSIX_IO_DATA_OFFSET) len s = Some bytes"
    and "vm64_user_access (t_page_dir (task_pool s ! reader)) into IO_REQUEST_SIZE True s"
    and "request_distinct (t_page_dir (task_pool s ! reader)) into s"
    and "pipe_io_locked cpu (int writer) writer i POSIX_PIPE_END_WRITE from len s = (wrote, notify1, s1)"
    and "pipe_io_locked cpu (int reader) reader i POSIX_PIPE_END_READ into capacity s1 = (got, notify2, s2)"
  shows "wrote = Answer (int len) \<and> got = Answer (int len)
    \<and> vm64_copy_from (t_page_dir (task_pool s2 ! reader)) (into + POSIX_IO_DATA_OFFSET) len s2 = Some bytes"
proof -
  have ok: "pipes_ok s" unfolding assms(2) by (rule pipe_run_ok [OF pipes_fresh_ok [OF assms(1)]])
  then have wf: "pipe_wf (pipes s ! i)" and il: "i < length (pipes s)" using assms(3) by (auto simp: pipes_ok_def)
  have fr: "len \<le> ring_free (pipes s ! i)" using assms(5,9,10) by (simp add: ring_free_def pipe_consts)
  have lb: "length bytes = len" using assms(11) by (auto simp: vm64_copy_from_def split: if_splits)
  have "pipe_write cpu writer i from len s = (wrote, notify1, s1)"
    using assms(3,4,8-10,14) by (simp add: pipe_io_locked_def pipe_consts)
  then have w: "wrote = Answer (int len)"
    and s1: "s1 = snd (posix_io_patch_result writer from len (pipe_upd i (ring_put bytes) s))"
    using pipe_write_calm [OF assms(6) fr assms(11), of cpu] assms(7) by auto
  have p1: "pipes s1 ! i = ring_put bytes (pipes s ! i)" using il s1 by simp
  have rd: "pipe_read cpu reader i into capacity s1 = (got, notify2, s2)"
    using assms(3,4,8-10,15) p1 by (simp add: pipe_io_locked_def)
  have "pipe_wf (pipes s1 ! i)" "pipe_bytes (pipes s1 ! i) = bytes"
    using ring_put_spec [OF wf, of bytes] fr lb p1 assms(5) by (auto simp: pipe_bytes_def)
  moreover have "vm64_user_access (t_page_dir (task_pool s1 ! reader)) into IO_REQUEST_SIZE True s1"
    "request_distinct (t_page_dir (task_pool s1 ! reader)) into s1"
    using assms(12,13) s1 by (auto simp: vm64_user_access_def byte_access_def request_distinct_def physical_def)
  moreover have "\<not> parked_on i POSIX_PIPE_END_WRITE k s1" for k using assms(7) s1 by simp
  ultimately show ?thesis
    using pipe_read_calm [of s1 i bytes capacity reader into cpu got notify2 s2] rd assms(8-10) lb w by auto
qed

section \<open>Witnesses\<close>

text \<open>Four running tasks over an identity-mapped user memory.\<close>

definition demo0 :: pipes_st where
  "demo0 = \<lparr>task_pool = replicate MAX_TASKS zero_task, task_pool_count = 4, task_result = (\<lambda>_. None),
     user_pte = (\<lambda>_ page. Some (push_bit 12 page, True)), frames = ucast, timer_ticks = 0,
     pipes = replicate POSIX_PIPE_MAX zero_pipe,
     pipe_waits = replicate MAX_TASKS \<lparr>pw_pipe = 0, pw_end = 0, pw_request = 0, pw_length = 0\<rparr>\<rparr>"

definition demo_open :: "pipe_op list" where
  "demo_open = [PCreate, PRetain 0 POSIX_PIPE_END_READ, PRetain 0 POSIX_PIPE_END_WRITE]"

definition demo1 :: pipes_st where
  "demo1 = fold pipe_step demo_open demo0"

lemma demo0_fresh: "pipes_fresh demo0"
  by (simp add: pipes_fresh_def demo0_def zero_task_def MAX_TASKS_def)

lemma zero_pipe_simps [simp]:
  "pp_active zero_pipe = False" "pp_count zero_pipe = 0" "pp_readers zero_pipe = 0" "pp_writers zero_pipe = 0"
  by (simp_all add: zero_pipe_def)

lemma demo1_state:
  "task_pool demo1 = task_pool demo0" "task_pool_count demo1 = 4" "pipe_waits demo1 = pipe_waits demo0"
  "user_pte demo1 = user_pte demo0"
  "pipes demo1 ! 0 = zero_pipe\<lparr>pp_tail := 0, pp_count := 0, pp_readers := 1, pp_writers := 1, pp_active := True\<rparr>"
proof -
  have f: "first_index (\<lambda>pipe. \<not> pp_active pipe) (pipes demo0) = Some 0"
    by (simp add: demo0_def POSIX_PIPE_MAX_def numeral_eq_Suc)
  have l: "0 < length (pipes demo0)" "pipes demo0 ! 0 = zero_pipe" "0 < POSIX_PIPE_MAX"
    by (simp_all add: demo0_def POSIX_PIPE_MAX_def)
  show "task_pool demo1 = task_pool demo0" "task_pool_count demo1 = 4" "pipe_waits demo1 = pipe_waits demo0"
    "user_pte demo1 = user_pte demo0"
    "pipes demo1 ! 0 = zero_pipe\<lparr>pp_tail := 0, pp_count := 0, pp_readers := 1, pp_writers := 1, pp_active := True\<rparr>"
    using f l by (simp_all add: demo1_def demo_open_def posix_pipe_create_def posix_pipe_retain_def
        POSIX_PIPE_END_READ_def POSIX_PIPE_END_WRITE_def) (simp_all add: demo0_def)
qed

lemma demo_access:
  assumes "user_pte s = user_pte demo0" and "request \<in> {0x100000000, 0x100001000}" and "n \<le> IO_REQUEST_SIZE" and "0 < n"
  shows "vm64_user_access root request n w s" and "physical root a s = a"
    and "request_distinct root request s"
proof -
  show p: "physical root a s = a" for a
  proof -
    have "(a AND 0xFFF) = take_bit 12 a" by (simp add: take_bit_eq_mask mask_eq_exp_minus_1)
    then show ?thesis by (simp add: physical_def assms(1) demo0_def bits_ident)
  qed
  show "vm64_user_access root request n w s"
    using assms by (auto simp: vm64_user_access_def byte_access_def list_all_iff demo0_def VM64_USER_BASE_def
        VM64_USER_LIMIT_def IO_REQUEST_SIZE_def POSIX_IO_MAX_def)
  show "request_distinct root request s"
    unfolding request_distinct_def p
  proof (rule inj_onI)
    fix x y
    assume "x \<in> {..<IO_REQUEST_SIZE}" "y \<in> {..<IO_REQUEST_SIZE}" "request + of_nat x = request + of_nat y"
    then have "(of_nat x :: u64) = of_nat y" "x < 2 ^ 64" "y < 2 ^ 64" by (auto simp: IO_REQUEST_SIZE_def POSIX_IO_MAX_def)
    then have "unat (of_nat x :: u64) = unat (of_nat y :: u64)" "x mod 2 ^ 64 = x" "y mod 2 ^ 64 = y" by simp_all
    then show "x = y" by (simp only: unat_of_nat len_of_numeral_defs) simp
  qed
qed

definition demo2 :: pipes_st where
  "demo2 = fold pipe_step (demo_open @ [PIo 0 2 0 POSIX_PIPE_END_READ 0x100000000 5]) demo0"

lemma demo_pick: "task_pick_next 2 0 s \<noteq> None"
  if "task_pool_count s = 4" "t_state (task_pool s ! 3) = TASK_RUNNING" "t_on_cpu (task_pool s ! 3) = 0"
proof -
  have "3 \<in> set (pick_order 2 (task_pool_count s))" using pick_order_range [of 4 2] that(1) by simp
  then have "pick_scan (pick_eligible 0) (task_pool s) (pick_order 2 (task_pool_count s)) None \<noteq> None"
    using that(2,3) unfolding pick_scan_None by (auto simp: pick_eligible_def)
  then show ?thesis by (simp add: task_pick_next_def task_pick_locked_def Let_def)
qed

lemma demo_tasks: "t_state (task_pool demo0 ! k) = TASK_RUNNING" "t_on_cpu (task_pool demo0 ! k) = 0" if "k < 32"
  using that by (simp_all add: demo0_def MAX_TASKS_def zero_task_def)

lemma demo2_state:
  "task_pool_count demo2 = 4" "t_state (task_pool demo2 ! 2) = TASK_BLOCKED_PIPE" "user_pte demo2 = user_pte demo0"
  "pw_pipe (pipe_waits demo2 ! 2) = Suc 0" "pw_end (pipe_waits demo2 ! 2) = POSIX_PIPE_END_READ"
  "length (task_pool demo2) = MAX_TASKS" "pipes demo2 = pipes demo1"
proof -
  have e: "demo2 = pipe_step (PIo 0 2 0 POSIX_PIPE_END_READ 0x100000000 5) demo1"
    by (simp add: demo2_def demo1_def)
  let ?s1 = "demo1\<lparr>pipe_waits := (pipe_waits demo1)[2 :=
     \<lparr>pw_pipe = 0 + 1, pw_end = POSIX_PIPE_END_READ, pw_request = 0x100000000, pw_length = 5\<rparr>]\<rparr>"
  let ?s2 = "task_upd 2 (t_state_update (\<lambda>_. TASK_BLOCKED_PIPE)) ?s1"
  have len: "length (task_pool demo1) = MAX_TASKS" "length (pipe_waits demo1) = MAX_TASKS"
    by (simp_all add: demo1_state) (simp_all add: demo0_def)
  have "task_pick_next 2 0 ?s2 \<noteq> None"
    by (rule demo_pick) (use demo_tasks [of 3] in \<open>simp_all add: demo1_state\<close>)
  then have "snd (pipe_park 0 2 0 POSIX_PIPE_END_READ 0x100000000 5 demo1) = ?s2"
    by (auto simp: pipe_park_def Let_def task_state_set_def)
  moreover have "vm64_user_access (t_page_dir (task_pool demo1 ! 2)) 0x100000000 IO_REQUEST_SIZE True demo1"
    by (rule demo_access) (simp_all add: demo1_state IO_REQUEST_SIZE_def)
  ultimately have d: "demo2 = ?s2"
    unfolding e using demo_tasks [of 2]
    by (simp add: demo1_state pipe_io_locked_def pipe_read_def case_prod_beta pipe_consts)
  show "task_pool_count demo2 = 4" "t_state (task_pool demo2 ! 2) = TASK_BLOCKED_PIPE" "user_pte demo2 = user_pte demo0"
    "pw_pipe (pipe_waits demo2 ! 2) = Suc 0" "pw_end (pipe_waits demo2 ! 2) = POSIX_PIPE_END_READ"
    "length (task_pool demo2) = MAX_TASKS" "pipes demo2 = pipes demo1"
    unfolding d using len by (simp_all add: demo1_state MAX_TASKS_def)
qed

theorem pipe_no_lost_wakeup_witness:
  "t_state (task_pool demo2 ! 2) = TASK_BLOCKED_PIPE \<and> pp_count (pipes demo2 ! 0) = 0 \<and> 0 < pp_writers (pipes demo2 ! 0)"
  using pipe_no_lost_wakeup [OF demo0_fresh demo2_def, of 2] by (auto simp: demo2_state)


theorem pipe_end_to_end_witness:
  "case pipe_io_locked 0 3 3 0 POSIX_PIPE_END_WRITE 0x100000000 3 demo1 of (wrote, _, s1) \<Rightarrow>
   case pipe_io_locked 0 2 2 0 POSIX_PIPE_END_READ 0x100001000 5 s1 of (got, _, s2) \<Rightarrow>
     got = Answer 3 \<and> vm64_copy_from (t_page_dir (task_pool s2 ! 2)) (0x100001000 + POSIX_IO_DATA_OFFSET) 3 s2
       = vm64_copy_from (t_page_dir (task_pool demo1 ! 3)) (0x100000000 + POSIX_IO_DATA_OFFSET) 3 demo1"
proof -
  obtain wrote n1 s1 where w: "pipe_io_locked 0 (int 3) 3 0 POSIX_PIPE_END_WRITE 0x100000000 3 demo1 = (wrote, n1, s1)"
    by (metis prod_cases3)
  obtain got n2 s2 where r: "pipe_io_locked 0 (int 2) 2 0 POSIX_PIPE_END_READ 0x100001000 5 s1 = (got, n2, s2)"
    by (metis prod_cases3)
  have "vm64_user_access (t_page_dir (task_pool demo1 ! 3)) (0x100000000 + of_nat 12) 3 False demo1"
    by (rule user_access_part [where n = IO_REQUEST_SIZE], rule demo_access) (simp_all add: demo1_state IO_REQUEST_SIZE_def POSIX_IO_MAX_def)
  then obtain bs where bs: "vm64_copy_from (t_page_dir (task_pool demo1 ! 3)) (0x100000000 + POSIX_IO_DATA_OFFSET) 3 demo1 = Some bs"
    by (simp add: vm64_copy_from_def POSIX_IO_DATA_OFFSET_def)
  have "length (task_pool demo0) = 32" by (simp add: demo0_def MAX_TASKS_def)
  then have np: "\<forall>k w. \<not> parked_on 0 w k demo1"
    using demo_tasks by (auto simp: parked_on_def demo1_state)
  have d: "vm64_user_access root 0x100001000 IO_REQUEST_SIZE True demo1" "request_distinct root 0x100001000 demo1" for root
    using demo_access(1,3) [of demo1 "0x100001000" IO_REQUEST_SIZE root] by (simp_all add: demo1_state IO_REQUEST_SIZE_def)
  from pipe_end_to_end [OF demo0_fresh demo1_def _ _ _ _ np _ _ _ bs d w r] bs w r show ?thesis
    by (simp add: demo1_state pipe_consts)
qed

end
