(* ===== verification/Signals.thy ===== *)
theory Signals
  imports Pipes
begin

text \<open>
  POSIX signals, \<^verbatim>\<open>src/process/posix_signal.c\<close>: the per-slot state, the disposition rules of one
  signal to one target, stopping and continuing, breaking a park, the two user calls, and the
  delivery of a handler frame with its restoration. The parks a signal breaks keep their wait
  records in the pipe, socket, poll and terminal modules; the socket reference a broken park
  gives up is recorded in \<open>dropped\<close> for the object layer.
\<close>

section \<open>State\<close>

definition POSIX_SIG_COUNT :: nat where "POSIX_SIG_COUNT = 22"
definition POSIX_SIG_ILL :: nat where "POSIX_SIG_ILL = 4"
definition POSIX_SIG_FPE :: nat where "POSIX_SIG_FPE = 8"
definition POSIX_SIG_KILL :: nat where "POSIX_SIG_KILL = 9"
definition POSIX_SIG_SEGV :: nat where "POSIX_SIG_SEGV = 11"
definition POSIX_SIG_CHLD :: nat where "POSIX_SIG_CHLD = 17"
definition POSIX_SIG_CONT :: nat where "POSIX_SIG_CONT = 18"
definition POSIX_SIG_STOP :: nat where "POSIX_SIG_STOP = 19"
definition POSIX_SIG_TSTP :: nat where "POSIX_SIG_TSTP = 20"
definition POSIX_SIG_TTIN :: nat where "POSIX_SIG_TTIN = 21"
definition POSIX_SIG_TTOU :: nat where "POSIX_SIG_TTOU = 22"

lemmas signo_defs = POSIX_SIG_COUNT_def POSIX_SIG_ILL_def POSIX_SIG_FPE_def POSIX_SIG_KILL_def POSIX_SIG_SEGV_def
  POSIX_SIG_CHLD_def POSIX_SIG_CONT_def POSIX_SIG_STOP_def POSIX_SIG_TSTP_def POSIX_SIG_TTIN_def POSIX_SIG_TTOU_def

definition POSIX_SIG_DFL :: u64 where "POSIX_SIG_DFL = 0"
definition POSIX_SIG_IGN :: u64 where "POSIX_SIG_IGN = 1"
definition POSIX_SA_APPLY :: u32 where "POSIX_SA_APPLY = 1"
definition POSIX_SA_RESTORER :: u32 where "POSIX_SA_RESTORER = 0x04000000"
definition POSIX_SIG_BLOCK :: u32 where "POSIX_SIG_BLOCK = 0"
definition POSIX_SIG_UNBLOCK :: u32 where "POSIX_SIG_UNBLOCK = 1"
definition POSIX_SIG_SETMASK :: u32 where "POSIX_SIG_SETMASK = 2"

definition POSIX_SIGNAL_EPERM :: int where "POSIX_SIGNAL_EPERM = -1"
definition POSIX_SIGNAL_ESRCH :: int where "POSIX_SIGNAL_ESRCH = -3"
definition POSIX_SIGNAL_EINVAL :: int where "POSIX_SIGNAL_EINVAL = -22"
definition POSIX_SIGNAL_EDEADLK :: int where "POSIX_SIGNAL_EDEADLK = -35"

text \<open>The bit of a signal is a 32-bit value: its complement, widened, clears the upper half.\<close>

definition POSIX_SIGNAL_BIT :: "nat \<Rightarrow> u32" where
  "POSIX_SIGNAL_BIT signo = push_bit (signo - 1) 1"

record posix_signal_state =
  sg_pending :: u64
  sg_blocked :: u64
  sg_handler :: "u64 list"
  sg_restorer :: "u64 list"
  sg_handler_mask :: "u64 list"

text \<open>
  The wait records of the modules a signal breaks. The message and staging bytes of a socket
  wait and the descriptor list of a poll belong to their modules and are not touched here.
\<close>

record socket_wait =
  sw_socket :: "nat option"
  sw_request :: u64
  sw_descriptor :: nat
  sw_kind :: nat
  sw_flavor :: nat
  sw_length :: nat
  sw_offset :: nat

record poll_wait =
  ow_request :: u64
  ow_count :: nat

record tty_wait =
  tw_index :: nat
  tw_request :: u64
  tw_length :: nat

record signals_st = pipes_st +
  sig_states :: "posix_signal_state list"
  socket_waits :: "socket_wait list"
  poll_waits :: "poll_wait list"
  tty_waits :: "tty_wait list"
  dropped :: "nat list"

definition zero_signals :: posix_signal_state where
  "zero_signals = \<lparr>sg_pending = 0, sg_blocked = 0, sg_handler = replicate POSIX_SIG_COUNT 0,
     sg_restorer = replicate POSIX_SIG_COUNT 0, sg_handler_mask = replicate POSIX_SIG_COUNT 0\<rparr>"

definition sig_for :: "nat \<Rightarrow> 'a signals_st_scheme \<Rightarrow> posix_signal_state option" where
  "sig_for slot s = (if MAX_TASKS \<le> slot then None else Some (sig_states s ! slot))"

definition sig_upd ::
  "nat \<Rightarrow> (posix_signal_state \<Rightarrow> posix_signal_state) \<Rightarrow> 'a signals_st_scheme \<Rightarrow> 'a signals_st_scheme" where
  "sig_upd slot f s = s\<lparr>sig_states := (sig_states s)[slot := f (sig_states s ! slot)]\<rparr>"

definition sig_known :: "nat \<Rightarrow> bool" where
  "sig_known signo \<longleftrightarrow> signo \<in> set [1, 2, 3, 4, 6, 8, 9, 10, 11, 12, 13, 14, 15, 17, 18, 19, 20, 21, 22]"

definition sig_default_stop :: "nat \<Rightarrow> bool" where
  "sig_default_stop signo \<longleftrightarrow> signo = POSIX_SIG_STOP \<or> signo = POSIX_SIG_TSTP \<or> signo = POSIX_SIG_TTIN \<or> signo = POSIX_SIG_TTOU"

definition sig_default_term :: "nat \<Rightarrow> bool" where
  "sig_default_term signo \<longleftrightarrow> signo \<noteq> POSIX_SIG_CHLD \<and> signo \<noteq> POSIX_SIG_CONT"

section \<open>Life cycle of the state\<close>

definition posix_signal_reset :: "nat \<Rightarrow> 'a signals_st_scheme \<Rightarrow> 'a signals_st_scheme" where
  "posix_signal_reset slot s = (case sig_for slot s of None \<Rightarrow> s | Some _ \<Rightarrow> sig_upd slot (\<lambda>_. zero_signals) s)"

definition posix_signal_fork :: "nat \<Rightarrow> nat \<Rightarrow> 'a signals_st_scheme \<Rightarrow> 'a signals_st_scheme" where
  "posix_signal_fork parent child s =
     (case (sig_for parent s, sig_for child s) of
        (Some from, Some _) \<Rightarrow> sig_upd child (\<lambda>_. from\<lparr>sg_pending := 0\<rparr>) s
      | _ \<Rightarrow> s)"

definition posix_signal_exec :: "nat \<Rightarrow> 'a signals_st_scheme \<Rightarrow> 'a signals_st_scheme" where
  "posix_signal_exec slot s =
     (case sig_for slot s of
        None \<Rightarrow> s
      | Some _ \<Rightarrow> sig_upd slot (\<lambda>st. st\<lparr>sg_handler :=
          map (\<lambda>h. if h > POSIX_SIG_IGN then POSIX_SIG_DFL else h) (sg_handler st)\<rparr>) s)"

definition posix_signal_fault_signo :: "nat \<Rightarrow> nat" where
  "posix_signal_fault_signo vector =
     (if vector = 0 then POSIX_SIG_FPE else if vector = 6 then POSIX_SIG_ILL
      else if vector = 13 \<or> vector = 14 then POSIX_SIG_SEGV else 0)"

section \<open>Breaking a park\<close>

definition posix_socket_signal :: "nat \<Rightarrow> 'a signals_st_scheme \<Rightarrow> int \<times> 'a signals_st_scheme" where
  "posix_socket_signal slot s =
     (if MAX_TASKS \<le> slot \<or> t_state (task_pool s ! slot) \<noteq> TASK_BLOCKED_SOCKET then (0, s)
      else (case sw_socket (socket_waits s ! slot) of
          None \<Rightarrow> (0, s)
        | Some socket \<Rightarrow>
            (POSIX_SIGNAL_EINTR, s\<lparr>socket_waits := (socket_waits s)[slot := (socket_waits s ! slot)
               \<lparr>sw_socket := None, sw_kind := 0, sw_request := 0\<rparr>], dropped := dropped s @ [socket]\<rparr>)))"

definition posix_poll_signal :: "nat \<Rightarrow> 'a signals_st_scheme \<Rightarrow> int \<times> 'a signals_st_scheme" where
  "posix_poll_signal slot s =
     (if MAX_TASKS \<le> slot \<or> t_state (task_pool s ! slot) \<noteq> TASK_BLOCKED_POLL then (0, s)
      else (POSIX_SIGNAL_EINTR, task_upd slot (t_poll_deadline_update (\<lambda>_. 0))
             (s\<lparr>poll_waits := (poll_waits s)[slot := (poll_waits s ! slot)\<lparr>ow_request := 0, ow_count := 0\<rparr>]\<rparr>)))"

definition posix_tty_signal :: "nat \<Rightarrow> 'a signals_st_scheme \<Rightarrow> int \<times> 'a signals_st_scheme" where
  "posix_tty_signal slot s =
     (if MAX_TASKS \<le> slot \<or> t_state (task_pool s ! slot) \<noteq> TASK_BLOCKED_TTY then (0, s)
      else (POSIX_SIGNAL_EINTR, s\<lparr>tty_waits := (tty_waits s)[slot := \<lparr>tw_index = 0, tw_request = 0, tw_length = 0\<rparr>]\<rparr>))"

text \<open>The common tail of the four parks: wake from the park, then publish the answer.\<close>

definition wake_answer :: "nat \<Rightarrow> task_state \<Rightarrow> int \<times> 'a signals_st_scheme \<Rightarrow> 'a signals_st_scheme" where
  "wake_answer slot from r =
     (case r of (answer, s) \<Rightarrow>
        (case task_state_wake (Some slot) from s of
           (True, s1) \<Rightarrow> task64_set_result slot answer s1 | (False, s1) \<Rightarrow> s1))"

text \<open>The time a broken sleep still owed, as the nanosleep request wants it.\<close>

definition sleep_remaining :: "u32 \<Rightarrow> u32 \<Rightarrow> u8 list" where
  "sleep_remaining deadline now =
     (let left = (if sint (deadline - now) \<le> 0 then 0 else deadline - now);
          nsec = ucast left * (1000000000 div 100 :: u64)
      in le_bytes 8 (nsec div 1000000000) @ le_bytes 8 (nsec mod 1000000000))"

definition wake_with_eintr :: "nat \<Rightarrow> 'a signals_st_scheme \<Rightarrow> 'a signals_st_scheme" where
  "wake_with_eintr slot s =
     (case task_sleep_wake_claim slot s of
        (Some (deadline, request), s1) \<Rightarrow>
          (let s2 = task64_set_result slot POSIX_SIGNAL_EINTR s1
           in if request = 0 then s2
              else snd (vm64_copy_to (t_page_dir (task_pool s2 ! slot)) (request + 16)
                     (sleep_remaining deadline (timer_ticks s2)) s2))
      | (None, _) \<Rightarrow>
          (let st = t_state (task_pool s ! slot)
           in if st = TASK_BLOCKED_PIPE then wake_answer slot TASK_BLOCKED_PIPE (posix_pipe_signal slot s)
              else if st = TASK_BLOCKED_SOCKET then wake_answer slot TASK_BLOCKED_SOCKET (posix_socket_signal slot s)
              else if st = TASK_BLOCKED_POLL then wake_answer slot TASK_BLOCKED_POLL (posix_poll_signal slot s)
              else if st = TASK_BLOCKED_TTY then wake_answer slot TASK_BLOCKED_TTY (posix_tty_signal slot s)
              else (case task_wait_cancel (Some slot) (-1) s of
                  (True, s1) \<Rightarrow> task64_set_result slot POSIX_SIGNAL_EINTR s1 | (False, s1) \<Rightarrow> s1)))"

section \<open>Stop and continue\<close>

definition posix_signal_stop :: "nat \<Rightarrow> nat \<Rightarrow> 'a signals_st_scheme \<Rightarrow> 'a signals_st_scheme" where
  "posix_signal_stop slot signo s =
     (if t_state (task_pool s ! slot) = TASK_STOPPED then s
      else (let s1 = (if t_state (task_pool s ! slot) \<noteq> TASK_RUNNING then wake_with_eintr slot s else s);
                s2 = task_state_set (Some slot) TASK_STOPPED s1;
                s3 = task_upd slot (t_stop_report_update (\<lambda>_. of_nat signo)) s2
            in task64_report_child slot s3))"

definition stop_bits :: u32 where
  "stop_bits = POSIX_SIGNAL_BIT POSIX_SIG_STOP OR POSIX_SIGNAL_BIT POSIX_SIG_TSTP
     OR POSIX_SIGNAL_BIT POSIX_SIG_TTIN OR POSIX_SIGNAL_BIT POSIX_SIG_TTOU"

definition posix_signal_continue_task :: "nat \<Rightarrow> 'a signals_st_scheme \<Rightarrow> 'a signals_st_scheme" where
  "posix_signal_continue_task slot s =
     (let s1 = (case sig_for slot s of
            None \<Rightarrow> s
          | Some _ \<Rightarrow> sig_upd slot (\<lambda>st. st\<lparr>sg_pending := sg_pending st AND ucast (NOT stop_bits)\<rparr>) s)
      in if t_state (task_pool s1 ! slot) \<noteq> TASK_STOPPED then s1
         else (let s2 = task_state_set (Some slot) TASK_RUNNING s1;
                   s3 = task_upd slot (\<lambda>t. t\<lparr>t_stop_report := 0, t_continued_report := 1\<rparr>) s2;
                   t = task_pool s3 ! slot;
                   s4 = (if t_stop_answer_set t \<noteq> 0
                     then task_upd slot (\<lambda>t. t\<lparr>t_stop_answer := 0, t_stop_answer_set := 0\<rparr>)
                            (task64_set_result slot (t_stop_answer t) s3)
                     else s3)
               in task64_report_child slot s4))"

section \<open>One signal to one target\<close>

text \<open>The default action of a signal that is neither ignored nor blocked.\<close>

definition signal_default :: "int \<Rightarrow> nat \<Rightarrow> nat \<Rightarrow> nat \<Rightarrow> 'a signals_st_scheme \<Rightarrow> int \<times> 'a signals_st_scheme" where
  "signal_default cpu caller target signo s =
     (if signo = POSIX_SIG_CONT then (0, posix_signal_continue_task target s)
      else if sig_default_stop signo then
        (if target = caller \<and> task_pick_next (int caller) cpu s = None then (POSIX_SIGNAL_EDEADLK, s)
         else (let s1 = posix_signal_stop target signo s;
                   s2 = (if target = caller \<and> t_stop_answer_set (task_pool s1 ! target) = 0
                     then task_upd target (\<lambda>t. t\<lparr>t_stop_answer := 0, t_stop_answer_set := 1\<rparr>) s1 else s1)
               in (if target = caller then 2 else 0, s2)))
      else if \<not> sig_default_term signo then (0, s)
      else (1, s))"

definition posix_signal_one ::
  "int \<Rightarrow> nat option \<Rightarrow> nat option \<Rightarrow> nat \<Rightarrow> 'a signals_st_scheme \<Rightarrow> int \<times> 'a signals_st_scheme" where
  "posix_signal_one cpu from to signo s =
     (case (from, to) of
        (Some caller, Some target) \<Rightarrow>
          (if signo = 0 then (0, s)
           else if \<not> sig_known signo then (POSIX_SIGNAL_EINVAL, s)
           else if t_uid (task_pool s ! caller) \<noteq> t_uid (task_pool s ! target) \<and> t_uid (task_pool s ! caller) \<noteq> 0
             then (POSIX_SIGNAL_EPERM, s)
           else if signo = POSIX_SIG_KILL then (1, s)
           else (case sig_for target s of
               None \<Rightarrow> (POSIX_SIGNAL_ESRCH, s)
             | Some st \<Rightarrow>
                 (let bits = ucast (POSIX_SIGNAL_BIT signo)
                  in if sg_handler st ! (signo - 1) = POSIX_SIG_IGN then
                       (0, if signo = POSIX_SIG_CONT then posix_signal_continue_task target s else s)
                     else if sg_blocked st AND bits \<noteq> 0 then
                       (0, sig_upd target (\<lambda>st. st\<lparr>sg_pending := sg_pending st OR bits\<rparr>) s)
                     else if sg_handler st ! (signo - 1) = POSIX_SIG_DFL then
                       signal_default cpu caller target signo s
                     else (let s1 = sig_upd target (\<lambda>st. st\<lparr>sg_pending := sg_pending st OR bits\<rparr>) s;
                               s2 = (if signo = POSIX_SIG_CONT then posix_signal_continue_task target s1 else s1)
                           in (0, wake_with_eintr target s2)))))
      | _ \<Rightarrow> (POSIX_SIGNAL_ESRCH, s))"

definition posix_signal_target :: "int \<Rightarrow> 'a signals_st_scheme \<Rightarrow> nat option" where
  "posix_signal_target pid s =
     (let slot = unat (PID_SLOT (word_of_int pid))
      in if slot = 0 \<or> task_pool_count s \<le> slot then None
         else if t_id (task_pool s ! slot) \<noteq> pid \<or> t_state (task_pool s ! slot) = TASK_FREE
             \<or> t_state (task_pool s ! slot) = TASK_ZOMBIE then None
         else Some slot)"

definition posix_signal_kill :: "int \<Rightarrow> nat option \<Rightarrow> int \<Rightarrow> nat \<Rightarrow> 'a signals_st_scheme \<Rightarrow> int \<times> 'a signals_st_scheme" where
  "posix_signal_kill cpu caller pid signo s =
     (if pid \<le> 0 then (POSIX_SIGNAL_EINVAL, s)
      else (case posix_signal_target pid s of
          None \<Rightarrow> (POSIX_SIGNAL_ESRCH, s)
        | Some target \<Rightarrow> posix_signal_one cpu caller (Some target) signo s))"

definition posix_signal_known :: "nat \<Rightarrow> bool" where
  "posix_signal_known signo \<longleftrightarrow> signo \<noteq> 0 \<and> signo \<le> POSIX_SIG_COUNT \<and> sig_known signo"

definition posix_signal_child_exiting :: "nat \<Rightarrow> 'a signals_st_scheme \<Rightarrow> bool \<times> 'a signals_st_scheme" where
  "posix_signal_child_exiting child s =
     (let pid = t_parent_id (task_pool s ! child); slot = unat (PID_SLOT (word_of_int pid))
      in if pid \<le> 0 then (False, s)
         else if slot = 0 \<or> MAX_TASKS \<le> slot then (False, s)
         else if t_id (task_pool s ! slot) \<noteq> pid \<or> t_state (task_pool s ! slot) = TASK_FREE
             \<or> t_state (task_pool s ! slot) = TASK_ZOMBIE then (False, s)
         else (case sig_for slot s of
             None \<Rightarrow> (False, s)
           | Some st \<Rightarrow>
               (if sg_handler st ! (POSIX_SIG_CHLD - 1) = POSIX_SIG_IGN then (True, s)
                else if sg_handler st ! (POSIX_SIG_CHLD - 1) = POSIX_SIG_DFL then (False, s)
                else (let bits = ucast (POSIX_SIGNAL_BIT POSIX_SIG_CHLD);
                          s1 = sig_upd slot (\<lambda>st. st\<lparr>sg_pending := sg_pending st OR bits\<rparr>) s
                      in (False, if sg_blocked st AND bits = 0 then wake_with_eintr slot s1 else s1)))))"

section \<open>The calls\<close>

record posix_sigaction_request =
  sa_flags :: u32
  sa_handler :: u64
  sa_restorer :: u64
  sa_mask :: u64
  sa_previous_handler :: u64
  sa_previous_restorer :: u64
  sa_previous_mask :: u64
  sa_previous_flags :: u32

definition posix_signal_action ::
  "nat \<Rightarrow> nat \<Rightarrow> posix_sigaction_request \<Rightarrow> 'a signals_st_scheme
    \<Rightarrow> int \<times> posix_sigaction_request \<times> 'a signals_st_scheme" where
  "posix_signal_action slot signo request s =
     (case sig_for slot s of
        None \<Rightarrow> (POSIX_SIGNAL_EINVAL, request, s)
      | Some st \<Rightarrow>
          if signo = 0 \<or> \<not> sig_known signo then (POSIX_SIGNAL_EINVAL, request, s)
          else if signo = POSIX_SIG_KILL \<or> signo = POSIX_SIG_STOP then (POSIX_SIGNAL_EINVAL, request, s)
          else (let index = signo - 1; previous = sg_handler st ! index;
                    s1 = (if sa_flags request AND POSIX_SA_APPLY \<noteq> 0
                      then sig_upd slot (\<lambda>st. st
                        \<lparr>sg_handler := (sg_handler st)[index := sa_handler request],
                         sg_restorer := (sg_restorer st)[index :=
                           if sa_handler request > POSIX_SIG_IGN then sa_restorer request else 0],
                         sg_handler_mask := (sg_handler_mask st)[index := sa_mask request]\<rparr>) s
                      else s)
                in (0, request\<lparr>sa_previous_handler := previous, sa_previous_restorer := sg_restorer st ! index,
                       sa_previous_mask := sg_handler_mask st ! index,
                       sa_previous_flags := if previous > POSIX_SIG_IGN then POSIX_SA_RESTORER else 0\<rparr>, s1)))"

record posix_sigprocmask_request =
  pm_mask :: u64
  pm_previous :: u64

definition procmask_value :: "u32 \<Rightarrow> u64 \<Rightarrow> u64 \<Rightarrow> u64 option" where
  "procmask_value how blocked m =
     (if how = POSIX_SIG_BLOCK then Some (blocked OR m)
      else if how = POSIX_SIG_UNBLOCK then Some (blocked AND NOT m)
      else if how = POSIX_SIG_SETMASK then Some m
      else None)"

definition posix_signal_procmask ::
  "nat \<Rightarrow> u32 \<Rightarrow> posix_sigprocmask_request \<Rightarrow> 'a signals_st_scheme
    \<Rightarrow> int \<times> posix_sigprocmask_request \<times> 'a signals_st_scheme" where
  "posix_signal_procmask slot how request s =
     (case sig_for slot s of
        None \<Rightarrow> (POSIX_SIGNAL_ESRCH, request, s)
      | Some st \<Rightarrow>
          (case procmask_value how (sg_blocked st) (pm_mask request) of
             None \<Rightarrow> (POSIX_SIGNAL_EINVAL, request, s)
           | Some v \<Rightarrow> (0, request\<lparr>pm_previous := sg_blocked st\<rparr>,
               sig_upd slot (\<lambda>st. st\<lparr>sg_blocked := v AND ucast (NOT (POSIX_SIGNAL_BIT POSIX_SIG_KILL))\<rparr>) s)))"

definition posix_signal_pending :: "nat \<Rightarrow> 'a signals_st_scheme \<Rightarrow> u64" where
  "posix_signal_pending slot s =
     (case sig_for slot s of None \<Rightarrow> 0 | Some st \<Rightarrow> sg_pending st AND sg_blocked st)"

text \<open>The scan for the lowest bit; its caller has seen a bit set, and only then does it run.\<close>

function scan_signo :: "u64 \<Rightarrow> nat \<Rightarrow> nat" where
  "scan_signo d signo = (if d = 0 \<or> d AND 1 \<noteq> 0 then signo else scan_signo (drop_bit 1 d) (signo + 1))"
  by pat_completeness auto

lemma drop_bit_smaller: "d \<noteq> 0 \<Longrightarrow> unat (drop_bit (Suc 0) d :: u64) < unat d"
  unfolding unat_drop_bit_eq by (simp add: drop_bit_eq_div unat_gt_0)

termination scan_signo
  by (relation "measure (\<lambda>(d, _). unat d)") (auto intro: drop_bit_smaller)

declare scan_signo.simps [simp del]

definition deliverable :: "posix_signal_state \<Rightarrow> u64" where
  "deliverable st = sg_pending st AND NOT (sg_blocked st)"

definition posix_signal_pick :: "nat \<Rightarrow> 'a signals_st_scheme \<Rightarrow> nat" where
  "posix_signal_pick slot s =
     (case sig_for slot s of
        None \<Rightarrow> 0
      | Some st \<Rightarrow> if deliverable st = 0 then 0 else scan_signo (deliverable st) 1)"

section \<open>Delivery\<close>

record posix_signal_regs =
  rg_rax :: u64
  rg_rcx :: u64
  rg_rdx :: u64
  rg_rsi :: u64
  rg_rdi :: u64
  rg_r8 :: u64
  rg_r9 :: u64
  rg_r10 :: u64
  rg_r11 :: u64
  rg_rip :: u64
  rg_rsp :: u64
  rg_rflags :: u64

text \<open>The frame on the user stack: fifteen words, the restorer on top as the return address.\<close>

definition frame_words :: "u64 \<Rightarrow> nat \<Rightarrow> u64 \<Rightarrow> posix_signal_regs \<Rightarrow> u64 list" where
  "frame_words restorer signo saved_mask r =
     [restorer, of_nat signo, saved_mask, rg_rax r, rg_rcx r, rg_rdx r, rg_rsi r, rg_rdi r,
      rg_r8 r, rg_r9 r, rg_r10 r, rg_r11 r, rg_rip r, rg_rsp r, rg_rflags r]"

definition FRAME_SIZE :: nat where "FRAME_SIZE = 120"

definition words_bytes :: "u64 list \<Rightarrow> u8 list" where
  "words_bytes ws = concat (map (le_bytes 8) ws)"

definition bytes_word :: "u8 list \<Rightarrow> nat \<Rightarrow> u64" where
  "bytes_word bs k = le_value (take 8 (drop (8 * k) bs))"

definition frame_top :: "u64 \<Rightarrow> u64" where
  "frame_top rsp = ((rsp - of_nat FRAME_SIZE) AND NOT 0xF) - 8"

definition clear_pending :: "nat \<Rightarrow> nat \<Rightarrow> nat \<Rightarrow> 'a signals_st_scheme \<Rightarrow> 'a signals_st_scheme" where
  "clear_pending slot forced signo s =
     (if forced = 0 then sig_upd slot (\<lambda>st. st\<lparr>sg_pending := sg_pending st AND NOT (ucast (POSIX_SIGNAL_BIT signo))\<rparr>) s
      else s)"

definition deliver_signo :: "nat \<Rightarrow> nat \<Rightarrow> posix_signal_regs \<Rightarrow> nat \<Rightarrow> posix_signal_state \<Rightarrow> 'a signals_st_scheme
    \<Rightarrow> int \<times> posix_signal_regs \<times> 'a signals_st_scheme" where
  "deliver_signo slot signo regs forced st s =
     (let handler = sg_handler st ! (signo - 1)
      in if handler \<le> POSIX_SIG_IGN then
           (if handler = POSIX_SIG_IGN \<or> \<not> sig_default_term signo then 0 else - int signo,
            regs, clear_pending slot forced signo s)
         else (let top = frame_top (rg_rsp regs);
                   bytes = words_bytes (frame_words (sg_restorer st ! (signo - 1)) signo (sg_blocked st) regs)
               in case vm64_copy_to (t_page_dir (task_pool s ! slot)) top bytes s of
                    (False, s1) \<Rightarrow> (- int POSIX_SIG_SEGV, regs, s1)
                  | (True, s1) \<Rightarrow>
                      (1, regs\<lparr>rg_rip := handler, rg_rsp := top, rg_rdi := of_nat signo\<rparr>,
                       sig_upd slot (\<lambda>st. st\<lparr>sg_blocked := sg_blocked st OR
                           (sg_handler_mask st ! (signo - 1) OR ucast (POSIX_SIGNAL_BIT signo))\<rparr>)
                         (clear_pending slot forced signo s1))))"

definition posix_signal_deliver ::
  "nat \<Rightarrow> posix_signal_regs \<Rightarrow> nat \<Rightarrow> 'a signals_st_scheme \<Rightarrow> int \<times> posix_signal_regs \<times> 'a signals_st_scheme" where
  "posix_signal_deliver slot regs forced s =
     (case sig_for slot s of
        None \<Rightarrow> (0, regs, s)
      | Some st \<Rightarrow>
          if forced \<noteq> 0 then deliver_signo slot forced regs forced st s
          else if deliverable st = 0 then (0, regs, s)
          else deliver_signo slot (posix_signal_pick slot s) regs forced st s)"

definition VM64_PAGE_PRESENT :: u64 where "VM64_PAGE_PRESENT = 1"
definition VM64_PAGE_WRITE :: u64 where "VM64_PAGE_WRITE = 2"
definition VM64_PAGE_USER :: u64 where "VM64_PAGE_USER = 4"
definition VM64_PAGE_COW :: u64 where "VM64_PAGE_COW = 0x400"
definition VM64_PAGE_NX :: u64 where "VM64_PAGE_NX = 0x8000000000000000"

text \<open>
  The check of a frame before it resumes. \<open>flags\<close> is what \<^verbatim>\<open>vm64_user_flags\<close> answers for an
  address of the space at the time of the call.
\<close>

definition resume_ok :: "(u64 \<Rightarrow> u64) \<Rightarrow> u64 \<Rightarrow> u64 \<Rightarrow> bool" where
  "resume_ok flags rip rsp \<longleftrightarrow>
     (let rip_flags = (if drop_bit 47 rip = 0 then flags rip else 0);
          stack_flags = (if drop_bit 47 rsp = 0 \<and> VM64_USER_BASE < rsp then flags (rsp - 1) else 0);
          user = VM64_PAGE_PRESENT OR VM64_PAGE_USER
      in rip_flags AND (user OR VM64_PAGE_NX) = user \<and> stack_flags AND user = user
         \<and> (stack_flags AND VM64_PAGE_WRITE \<noteq> 0 \<or> stack_flags AND VM64_PAGE_COW \<noteq> 0))"

definition posix_signal_restore ::
  "nat \<Rightarrow> (u64 \<Rightarrow> u64) \<Rightarrow> u64 \<Rightarrow> posix_signal_regs \<Rightarrow> 'a signals_st_scheme
    \<Rightarrow> int \<times> posix_signal_regs \<times> 'a signals_st_scheme" where
  "posix_signal_restore slot flags address regs s =
     (case sig_for slot s of
        None \<Rightarrow> (POSIX_SIGNAL_EINVAL, regs, s)
      | Some _ \<Rightarrow>
          if drop_bit 47 address \<noteq> 0 then (POSIX_SIGNAL_EINVAL, regs, s)
          else (case vm64_copy_from (t_page_dir (task_pool s ! slot)) address FRAME_SIZE s of
              None \<Rightarrow> (POSIX_SIGNAL_EINVAL, regs, s)
            | Some bs \<Rightarrow>
                (let w = bytes_word bs
                 in if \<not> resume_ok flags (w 12) (w 13) then (POSIX_SIGNAL_EINVAL, regs, s)
                    else (0, \<lparr>rg_rax = w 3, rg_rcx = w 4, rg_rdx = w 5, rg_rsi = w 6, rg_rdi = w 7, rg_r8 = w 8,
                              rg_r9 = w 9, rg_r10 = w 10, rg_r11 = w 11, rg_rip = w 12, rg_rsp = w 13, rg_rflags = w 14\<rparr>,
                          sig_upd slot (\<lambda>st. st\<lparr>sg_blocked := w 2\<rparr>) s))))"

section \<open>The signal tables stay well formed\<close>

lemma sig_states_frame [simp]:
  fixes s :: "'a signals_st_scheme"
  shows "sig_states (task_upd i f s) = sig_states s" "sig_states (task64_set_result i v s) = sig_states s"
    "sig_states (snd (vm64_copy_to r a bs s)) = sig_states s" "sig_states (clear_wait i s) = sig_states s"
    "sig_states (task_state_set t st s) = sig_states s"
  by (simp_all add: task_upd_def task64_set_result_def vm64_copy_to_def clear_wait_def task_state_set_def split: option.split)

lemma sig_states_copy: "vm64_copy_to r a bs s = (b, s1) \<Longrightarrow> sig_states s1 = sig_states s"
  using sig_states_frame(3) [of r a bs s] by simp

lemma sig_states_report [simp]:
  fixes s :: "'a signals_st_scheme"
  shows "sig_states (task64_report_child c s) = sig_states s"
  by (auto simp: task64_report_child_def task_wait_wake_def Let_def split: option.split prod.split bool.split if_splits)

lemma sig_states_answer [simp]: "sig_states (wake_answer slot from (v, s)) = sig_states s"
  by (simp add: wake_answer_def task_state_wake_def task_state_wake_locked_def)

lemma sig_states_wake [simp]: "sig_states (wake_with_eintr slot s) = sig_states s"
  by (auto simp: wake_with_eintr_def task_sleep_wake_claim_def posix_pipe_signal_def posix_socket_signal_def
      posix_poll_signal_def posix_tty_signal_def task_wait_cancel_def Let_def split: option.split)

lemma sig_states_stop [simp]: "sig_states (posix_signal_stop slot signo s) = sig_states s"
  by (simp add: posix_signal_stop_def Let_def)

definition pending_ok :: "u64 \<Rightarrow> bool" where
  "pending_ok p \<longleftrightarrow> (\<forall>k<64. bit p k \<longrightarrow> sig_known (Suc k) \<and> Suc k \<noteq> POSIX_SIG_KILL)"

definition sig_wf :: "posix_signal_state \<Rightarrow> bool" where
  "sig_wf st \<longleftrightarrow> pending_ok (sg_pending st) \<and> length (sg_handler st) = POSIX_SIG_COUNT
     \<and> length (sg_restorer st) = POSIX_SIG_COUNT \<and> length (sg_handler_mask st) = POSIX_SIG_COUNT"

definition sigs_ok :: "'a signals_st_scheme \<Rightarrow> bool" where
  "sigs_ok s \<longleftrightarrow> length (sig_states s) = MAX_TASKS \<and> list_all sig_wf (sig_states s)"

lemma sig_known_range: "sig_known n \<Longrightarrow> 0 < n \<and> n \<le> POSIX_SIG_COUNT"
  by (auto simp: sig_known_def POSIX_SIG_COUNT_def)

lemma pending_ok_sub: "pending_ok p \<Longrightarrow> pending_ok (p AND q)"
  by (auto simp: pending_ok_def bit_and_iff)

lemma pending_ok_zero [simp]: "pending_ok 0"
  by (simp add: pending_ok_def)

lemma bit_of_signal: "0 < n \<Longrightarrow> bit (ucast (POSIX_SIGNAL_BIT n) :: u64) k \<longleftrightarrow> Suc k = n \<and> k < 32"
  by (auto simp: POSIX_SIGNAL_BIT_def bit_unsigned_iff bit_exp_iff dest: bit_imp_le_length [where 'a = 32, simplified])

lemma pending_ok_post:
  assumes "pending_ok p" and "sig_known n" and "n \<noteq> POSIX_SIG_KILL"
  shows "pending_ok (p OR ucast (POSIX_SIGNAL_BIT n))"
  using assms sig_known_range [OF assms(2)] by (auto simp: pending_ok_def bit_or_iff bit_of_signal)

lemma sigs_ok_nth: "sigs_ok s \<Longrightarrow> slot < MAX_TASKS \<Longrightarrow> sig_wf (sig_states s ! slot)"
  by (simp add: sigs_ok_def list_all_length)

lemma sigs_ok_upd:
  assumes "sigs_ok s" and "slot < MAX_TASKS" and "\<And>st. sig_wf st \<Longrightarrow> sig_wf (f st)"
  shows "sigs_ok (sig_upd slot f s)"
  using assms sigs_ok_nth [OF assms(1)] by (auto simp: sigs_ok_def sig_upd_def list_all_length nth_list_update)

lemma sigs_ok_cong: "sig_states s' = sig_states s \<Longrightarrow> sigs_ok s' = sigs_ok s"
  by (simp add: sigs_ok_def)

lemma sig_for_Some [simp]: "sig_for slot s = Some st \<longleftrightarrow> slot < MAX_TASKS \<and> st = sig_states s ! slot"
  by (auto simp: sig_for_def)

lemma sig_for_None [simp]: "sig_for slot s = None \<longleftrightarrow> MAX_TASKS \<le> slot"
  by (simp add: sig_for_def)

lemma sig_upd_states: "sig_states (sig_upd slot f s) = (sig_states s)[slot := f (sig_states s ! slot)]"
  by (simp add: sig_upd_def)

lemma continue_ok: "sigs_ok s \<Longrightarrow> sigs_ok (posix_signal_continue_task slot s)"
  unfolding posix_signal_continue_task_def Let_def
  by (auto simp: sigs_ok_cong [OF sig_states_report] sigs_ok_cong [OF sig_states_frame(1)]
      sigs_ok_cong [OF sig_states_frame(2)] sigs_ok_cong [OF sig_states_frame(5)]
      intro!: sigs_ok_upd split: option.split) (auto simp: sig_wf_def intro: pending_ok_sub)

lemma post_ok:
  assumes "sigs_ok s" and "slot < MAX_TASKS" and "sig_known n" and "n \<noteq> POSIX_SIG_KILL"
  shows "sigs_ok (sig_upd slot (\<lambda>st. st\<lparr>sg_pending := sg_pending st OR ucast (POSIX_SIGNAL_BIT n)\<rparr>) s)"
  using assms by (intro sigs_ok_upd) (auto simp: sig_wf_def intro: pending_ok_post)

lemma default_ok: "sigs_ok s \<Longrightarrow> sigs_ok (snd (signal_default cpu caller target n s))"
  by (simp add: signal_default_def Let_def continue_ok sigs_ok_cong [OF sig_states_stop]
      sigs_ok_cong [OF sig_states_frame(1)])

lemma one_ok: "sigs_ok s \<Longrightarrow> sigs_ok (snd (posix_signal_one cpu from to n s))"
  by (auto simp: posix_signal_one_def Let_def continue_ok default_ok post_ok sigs_ok_cong [OF sig_states_wake]
      split: option.split)

text \<open>Everything that touches the tables.\<close>

datatype sig_op =
    SReset nat
  | SFork nat nat
  | SExec nat
  | SKill int nat int nat
  | SOne int nat nat nat
  | SAction nat nat posix_sigaction_request
  | SMask nat u32 posix_sigprocmask_request
  | SDeliver nat posix_signal_regs
  | SFault nat posix_signal_regs nat
  | SReturn nat "u64 \<Rightarrow> u64" u64 posix_signal_regs
  | SChild nat

fun sig_step :: "sig_op \<Rightarrow> 'a signals_st_scheme \<Rightarrow> 'a signals_st_scheme" where
  "sig_step (SReset slot) s = posix_signal_reset slot s"
| "sig_step (SFork parent child) s = posix_signal_fork parent child s"
| "sig_step (SExec slot) s = posix_signal_exec slot s"
| "sig_step (SKill cpu caller pid n) s = snd (posix_signal_kill cpu (Some caller) pid n s)"
| "sig_step (SOne cpu caller target n) s = snd (posix_signal_one cpu (Some caller) (Some target) n s)"
| "sig_step (SAction slot n r) s = snd (snd (posix_signal_action slot n r s))"
| "sig_step (SMask slot how r) s = snd (snd (posix_signal_procmask slot how r s))"
| "sig_step (SDeliver slot regs) s = snd (snd (posix_signal_deliver slot regs 0 s))"
| "sig_step (SFault slot regs vector) s = snd (snd (posix_signal_deliver slot regs (posix_signal_fault_signo vector) s))"
| "sig_step (SReturn slot flags a regs) s = snd (snd (posix_signal_restore slot flags a regs s))"
| "sig_step (SChild child) s = snd (posix_signal_child_exiting child s)"

lemma clear_pending_ok: "sigs_ok s \<Longrightarrow> slot < MAX_TASKS \<Longrightarrow> sigs_ok (clear_pending slot forced n s)"
  by (auto simp: clear_pending_def sig_wf_def intro!: sigs_ok_upd intro: pending_ok_sub)

lemma deliver_signo_ok: "sigs_ok s \<Longrightarrow> slot < MAX_TASKS \<Longrightarrow> sigs_ok (snd (snd (deliver_signo slot n regs forced st s)))"
  by (auto simp: deliver_signo_def Let_def clear_pending_ok sigs_ok_cong [OF sig_states_copy] sig_wf_def
      intro!: sigs_ok_upd clear_pending_ok split: prod.split bool.split)

lemma sig_step_ok: "sigs_ok s \<Longrightarrow> sigs_ok (sig_step op s)"
proof (cases op)
  case (SReset slot)
  then show "sigs_ok s \<Longrightarrow> ?thesis"
    by (auto simp: posix_signal_reset_def sig_wf_def zero_signals_def intro!: sigs_ok_upd split: option.split)
next
  case (SFork parent child)
  then show "sigs_ok s \<Longrightarrow> ?thesis"
    by (auto simp: posix_signal_fork_def dest: sigs_ok_nth intro!: sigs_ok_upd split: option.split) (auto simp: sig_wf_def dest: sigs_ok_nth)
next
  case (SExec slot)
  then show "sigs_ok s \<Longrightarrow> ?thesis"
    by (auto simp: posix_signal_exec_def sig_wf_def intro!: sigs_ok_upd split: option.split)
next
  case (SAction slot n r)
  then show "sigs_ok s \<Longrightarrow> ?thesis"
    by (auto simp: posix_signal_action_def Let_def sig_wf_def intro!: sigs_ok_upd split: option.split)
next
  case (SMask slot how r)
  then show "sigs_ok s \<Longrightarrow> ?thesis"
    by (auto simp: posix_signal_procmask_def sig_wf_def intro!: sigs_ok_upd split: option.split)
next
  case (SReturn slot flags a regs)
  then show "sigs_ok s \<Longrightarrow> ?thesis"
    by (auto simp: posix_signal_restore_def Let_def sig_wf_def intro!: sigs_ok_upd split: option.split)
next
  case (SChild child)
  then show "sigs_ok s \<Longrightarrow> ?thesis"
    by (auto simp: posix_signal_child_exiting_def Let_def sigs_ok_cong [OF sig_states_wake] post_ok sig_known_def signo_defs
        split: option.split)
qed (auto simp: posix_signal_kill_def posix_signal_deliver_def one_ok deliver_signo_ok split: option.split)

lemma sig_run_ok: "sigs_ok s \<Longrightarrow> sigs_ok (fold sig_step ops s)"
  by (induction ops arbitrary: s) (auto simp: sig_step_ok)

lemma scan_signo_spec:
  "d \<noteq> 0 \<Longrightarrow> \<exists>k<64. scan_signo d n = n + k \<and> bit d k \<and> (\<forall>j<k. \<not> bit d j)"
proof (induction d n rule: scan_signo.induct)
  case (1 d n)
  show ?case
  proof (cases "bit d 0")
    case True
    then show ?thesis by (subst scan_signo.simps) (auto simp: and_one_eq bit_0 intro!: exI [of _ 0])
  next
    case False
    then have e: "d AND 1 = 0" by (simp add: and_one_eq bit_0 even_iff_mod_2_eq_zero)
    have nz: "drop_bit 1 d \<noteq> 0"
    proof
      assume "drop_bit 1 d = 0"
      then have "\<not> bit d (Suc k)" for k using bit_drop_bit_eq [of 1 d] by (auto simp: fun_eq_iff)
      with False have "\<not> bit d k" for k by (cases k) auto
      with 1(2) show False by (auto intro: bit_eqI)
    qed
    from 1(1) [OF _ nz] 1(2) e obtain k where k: "k < 64" "scan_signo (drop_bit 1 d) (n + 1) = n + 1 + k"
      "bit (drop_bit 1 d) k" "\<forall>j<k. \<not> bit (drop_bit 1 d) j" by auto
    have b: "bit d (Suc k)" using k(3) by (simp add: bit_drop_bit_eq)
    moreover have "\<not> bit d j" if "j < Suc k" for j
      using that False k(4) by (cases j) (auto simp: bit_drop_bit_eq)
    moreover have "Suc k < 64" using bit_imp_le_length [OF b] by simp
    ultimately show ?thesis using k(2) e 1(2) by (subst scan_signo.simps) (auto intro!: exI [of _ "Suc k"])
  qed
qed

section \<open>Reading a frame back\<close>

lemma length_words_bytes [simp]: "length (words_bytes ws) = 8 * length ws"
  by (induction ws) (simp_all add: words_bytes_def)

lemma bytes_word_words: "k < length ws \<Longrightarrow> bytes_word (words_bytes ws) k = ws ! k"
proof (induction ws arbitrary: k)
  case (Cons w ws)
  show ?case
  proof (cases k)
    case 0
    then show ?thesis by (simp add: bytes_word_def words_bytes_def le_value_bytes take_bit_word_eq_self)
  next
    case (Suc j)
    with Cons show ?thesis by (simp add: bytes_word_def words_bytes_def)
  qed
qed simp

lemma access_canonical: "vm64_user_access root a n w s \<Longrightarrow> drop_bit 47 a = 0"
proof -
  assume "vm64_user_access root a n w s"
  then have "unat a < 0x120000000" by (auto simp: vm64_user_access_def VM64_USER_LIMIT_def word_le_nat_alt)
  then have "unat (drop_bit 47 a) = 0" unfolding unat_drop_bit_eq by (simp add: drop_bit_eq_div)
  then show ?thesis by (simp add: unat_eq_0)
qed

lemma sig_upd_frame [simp]:
  "task_pool (sig_upd slot f s) = task_pool s" "frames (sig_upd slot f s) = frames s"
  "user_pte (sig_upd slot f s) = user_pte s" "task_result (sig_upd slot f s) = task_result s"
  "dropped (sig_upd slot f s) = dropped s" "task_pool_count (sig_upd slot f s) = task_pool_count s"
  "socket_waits (sig_upd slot f s) = socket_waits s" "timer_ticks (sig_upd slot f s) = timer_ticks s"
  by (simp_all add: sig_upd_def)

lemma clear_pending_frame [simp]:
  "task_pool (clear_pending slot forced n s) = task_pool s" "frames (clear_pending slot forced n s) = frames s"
  "user_pte (clear_pending slot forced n s) = user_pte s"
  by (simp_all add: clear_pending_def)

lemma deliver_cases:
  assumes "posix_signal_deliver slot regs forced s = (1, regs1, s1)"
  obtains n st s0 where "slot < MAX_TASKS" "st = sig_states s ! slot"
    "vm64_copy_to (t_page_dir (task_pool s ! slot)) (frame_top (rg_rsp regs))
       (words_bytes (frame_words (sg_restorer st ! (n - 1)) n (sg_blocked st) regs)) s = (True, s0)"
    "rg_rsp regs1 = frame_top (rg_rsp regs)" "frames s1 = frames s0" "user_pte s1 = user_pte s"
    "task_pool s1 = task_pool s" "length (sig_states s1) = length (sig_states s)"
proof -
  obtain n where n: "slot < MAX_TASKS" "deliver_signo slot n regs forced (sig_states s ! slot) s = (1, regs1, s1)"
    using assms by (auto simp: posix_signal_deliver_def split: option.splits if_splits)
  let ?c = "vm64_copy_to (t_page_dir (task_pool s ! slot)) (frame_top (rg_rsp regs))
       (words_bytes (frame_words (sg_restorer (sig_states s ! slot) ! (n - 1)) n (sg_blocked (sig_states s ! slot)) regs)) s"
  have "fst ?c" "s1 = sig_upd slot (\<lambda>st. st\<lparr>sg_blocked := sg_blocked st OR
      (sg_handler_mask st ! (n - 1) OR ucast (POSIX_SIGNAL_BIT n))\<rparr>) (clear_pending slot forced n (snd ?c))"
    "rg_rsp regs1 = frame_top (rg_rsp regs)"
    using n(2) by (auto simp: deliver_signo_def Let_def split: prod.splits bool.splits if_splits)
  then show thesis using n(1) by (intro that [of "sig_states s ! slot" n "snd ?c"])
      (auto simp: prod_eq_iff sig_upd_states clear_pending_def)
qed

section \<open>What a signal breaks\<close>

definition interruptible :: "nat \<Rightarrow> 'a signals_st_scheme \<Rightarrow> bool" where
  "interruptible slot s \<longleftrightarrow>
     (case t_state (task_pool s ! slot) of
        TASK_BLOCKED_SLEEP \<Rightarrow> True
      | TASK_BLOCKED_PIPE \<Rightarrow> True
      | TASK_BLOCKED_POLL \<Rightarrow> True
      | TASK_BLOCKED_TTY \<Rightarrow> True
      | TASK_BLOCKED_SOCKET \<Rightarrow> sw_socket (socket_waits s ! slot) \<noteq> None
      | TASK_BLOCKED_WAIT \<Rightarrow> t_wait_pid (task_pool s ! slot) = -1
      | _ \<Rightarrow> False)"

lemma wake_interrupts:
  assumes "interruptible slot s" and "slot < MAX_TASKS" and "length (task_pool s) = MAX_TASKS"
  shows "t_state (task_pool (wake_with_eintr slot s) ! slot) = TASK_RUNNING"
    and "task_result (wake_with_eintr slot s) slot = Some POSIX_SIGNAL_EINTR"
    and "j \<noteq> slot \<Longrightarrow> task_pool (wake_with_eintr slot s) ! j = task_pool s ! j"
    and "j \<noteq> slot \<Longrightarrow> task_result (wake_with_eintr slot s) j = task_result s j"
  using assms
  by (auto simp: interruptible_def wake_with_eintr_def wake_answer_def task_sleep_wake_claim_def task_state_wake_def
      task_state_wake_locked_def posix_pipe_signal_def posix_socket_signal_def posix_poll_signal_def posix_tty_signal_def
      task_wait_cancel_def wait_matches_def Let_def split: task_state.splits option.splits)

text \<open>Waiting for one child by its pid is not among them, nor is a park on an event.\<close>

lemma pid_wait_not_interrupted:
  assumes "t_state (task_pool s ! slot) = TASK_BLOCKED_WAIT" and "t_wait_pid (task_pool s ! slot) \<noteq> -1"
  shows "wake_with_eintr slot s = s"
  using assms by (simp add: wake_with_eintr_def task_sleep_wake_claim_def task_wait_cancel_def wait_matches_def)

lemma event_park_not_interrupted: "t_state (task_pool s ! slot) = TASK_BLOCKED_EVENT \<Longrightarrow> wake_with_eintr slot s = s"
  by (simp add: wake_with_eintr_def task_sleep_wake_claim_def task_wait_cancel_def wait_matches_def)

text \<open>A stop and a continue then let the parked call return without an answer.\<close>

lemma orphan_not_reported:
  fixes s :: "'a runtime_st_scheme"
  shows "t_parent_id (task_pool s ! c) = 0 \<Longrightarrow> task64_report_child c s = s"
  by (simp add: task64_report_child_def report_parent_def Let_def PID_SLOT_def)

lemma stopped_wait_forgotten:
  fixes s :: "'a signals_st_scheme"
  assumes "t_state (task_pool s ! slot) = TASK_BLOCKED_WAIT" and "t_wait_pid (task_pool s ! slot) \<noteq> -1"
    and "t_parent_id (task_pool s ! slot) = 0" and "t_stop_answer_set (task_pool s ! slot) = 0"
    and "slot < MAX_TASKS" and "length (task_pool s) = MAX_TASKS"
    and "s' = posix_signal_continue_task slot (posix_signal_stop slot POSIX_SIG_STOP s)"
  shows "t_state (task_pool s' ! slot) = TASK_RUNNING \<and> task_result s' = task_result s"
  unfolding assms(7) using assms(1-6)
  by (simp add: posix_signal_continue_task_def posix_signal_stop_def pid_wait_not_interrupted sig_for_def
      task_state_set_def Let_def orphan_not_reported)

text \<open>
  A stop signal that was blocked when it came terminates the task once the mask opens: the
  delivery point asks only whether the default is not to ignore.
\<close>

lemma unblocked_stop_terminates:
  assumes "slot < MAX_TASKS" and "deliverable (sig_states s ! slot) = ucast (POSIX_SIGNAL_BIT POSIX_SIG_STOP)"
    and "sg_handler (sig_states s ! slot) ! (POSIX_SIG_STOP - 1) = POSIX_SIG_DFL"
  shows "fst (posix_signal_deliver slot regs 0 s) = - int POSIX_SIG_STOP"
proof -
  have "scan_signo (ucast (POSIX_SIGNAL_BIT POSIX_SIG_STOP)) 1 = POSIX_SIG_STOP"
    by (simp add: POSIX_SIGNAL_BIT_def POSIX_SIG_STOP_def scan_signo.simps)
  moreover have "ucast (POSIX_SIGNAL_BIT POSIX_SIG_STOP) \<noteq> (0 :: u64)"
    by (simp add: POSIX_SIGNAL_BIT_def POSIX_SIG_STOP_def)
  ultimately show ?thesis using assms
    by (simp add: posix_signal_deliver_def posix_signal_pick_def sig_for_def deliver_signo_def Let_def
        POSIX_SIG_DFL_def POSIX_SIG_IGN_def sig_default_term_def POSIX_SIG_STOP_def POSIX_SIG_CHLD_def POSIX_SIG_CONT_def)
qed

text \<open>The flags word of the frame reaches the registers as the user stack holds it.\<close>

lemma restore_flags_unfiltered:
  assumes "posix_signal_restore slot flags address regs s = (0, regs1, s1)"
  shows "\<exists>bs. vm64_copy_from (t_page_dir (task_pool s ! slot)) address FRAME_SIZE s = Some bs
    \<and> rg_rflags regs1 = bytes_word bs 14"
  using assms by (auto simp: posix_signal_restore_def Let_def POSIX_SIGNAL_EINVAL_def split: option.splits if_splits)

section \<open>Properties\<close>

text \<open>
  Signal numbers stay in the bounded set. Whatever sequence of signals, forks, execs,
  dispositions, masks, deliveries, faults and returns the tables have seen, the number the
  delivery point picks is zero exactly when nothing is deliverable; otherwise it is a known
  signal other than KILL, so it indexes inside the tables, its bit is pending and not blocked,
  and no lower signal is.
\<close>

theorem signal_pick_known:
  assumes "sig_states s = replicate MAX_TASKS zero_signals" and "slot < MAX_TASKS"
    and "s' = fold sig_step ops s" and "st = sig_states s' ! slot" and "n = posix_signal_pick slot s'"
  shows "(n = 0 \<longleftrightarrow> deliverable st = 0) \<and> (n \<noteq> 0 \<longrightarrow> sig_known n \<and> n \<le> POSIX_SIG_COUNT \<and> n \<noteq> POSIX_SIG_KILL
      \<and> bit (sg_pending st) (n - 1) \<and> \<not> bit (sg_blocked st) (n - 1)
      \<and> (\<forall>m. 0 < m \<and> m < n \<longrightarrow> \<not> bit (deliverable st) (m - 1)))"
proof -
  have "sigs_ok s" using assms(1) by (simp add: sigs_ok_def list_all_length sig_wf_def zero_signals_def)
  then have wf: "sig_wf st" unfolding assms(3,4) by (intro sigs_ok_nth sig_run_ok assms(2))
  have n: "n = (if deliverable st = 0 then 0 else scan_signo (deliverable st) 1)"
    using assms(2,4,5) by (simp add: posix_signal_pick_def sig_for_def)
  show ?thesis
  proof (cases "deliverable st = 0")
    case False
    from scan_signo_spec [OF False, of 1] obtain k where k: "k < 64" "n = Suc k" "bit (deliverable st) k"
      "\<forall>j<k. \<not> bit (deliverable st) j" using n False by auto
    then have "bit (sg_pending st) k" "\<not> bit (sg_blocked st) k" by (auto simp: deliverable_def bit_and_iff bit_not_iff)
    moreover from this k(1) wf have "sig_known (Suc k) \<and> Suc k \<noteq> POSIX_SIG_KILL" by (simp add: sig_wf_def pending_ok_def)
    ultimately show ?thesis using k(2,4) sig_known_range [of "Suc k"] False by auto
  qed (use n in simp)
qed

text \<open>
  C11. A handler returns to exactly what it interrupted. When a delivery has built its frame
  on a user stack whose pages map it to distinct physical bytes, the return from the handler
  (whose stack pointer is back at the frame) gives back every register, the flags and the
  blocked mask as they were, provided the interrupted instruction and stack are still user
  code and a user stack.
\<close>

theorem signal_frame_roundtrip:
  assumes "posix_signal_deliver slot regs forced s = (1, regs1, s1)"
    and "length (sig_states s) = MAX_TASKS"
    and "inj_on (\<lambda>k. physical (t_page_dir (task_pool s ! slot)) (rg_rsp regs1 + of_nat k) s) {..<FRAME_SIZE}"
    and "resume_ok flags (rg_rip regs) (rg_rsp regs)"
  shows "\<exists>s2. posix_signal_restore slot flags (rg_rsp regs1) junk s1 = (0, regs, s2)
    \<and> sg_blocked (sig_states s2 ! slot) = sg_blocked (sig_states s ! slot)"
proof -
  from deliver_cases [OF assms(1)] obtain n st s0 where d: "slot < MAX_TASKS" "st = sig_states s ! slot"
    "vm64_copy_to (t_page_dir (task_pool s ! slot)) (frame_top (rg_rsp regs))
       (words_bytes (frame_words (sg_restorer st ! (n - 1)) n (sg_blocked st) regs)) s = (True, s0)"
    "rg_rsp regs1 = frame_top (rg_rsp regs)" "frames s1 = frames s0" "user_pte s1 = user_pte s"
    "task_pool s1 = task_pool s" "length (sig_states s1) = length (sig_states s)" by metis
  let ?ws = "frame_words (sg_restorer st ! (n - 1)) n (sg_blocked st) regs"
  have l: "length (words_bytes ?ws) = FRAME_SIZE" by (simp add: frame_words_def FRAME_SIZE_def)
  have "vm64_copy_from (t_page_dir (task_pool s ! slot)) (rg_rsp regs1) FRAME_SIZE s1 = Some (words_bytes ?ws)"
    using copy_from_after_copy [OF d(3) _ d(5,6)] assms(3) unfolding l d(4) by simp
  moreover have "drop_bit 47 (rg_rsp regs1) = 0"
    using access_canonical d(3) unfolding d(4) by (auto simp: vm64_copy_to_def split: if_splits)
  moreover have "bytes_word (words_bytes ?ws) k = ?ws ! k" if "k < 15" for k
    using that by (intro bytes_word_words) (simp add: frame_words_def)
  ultimately show ?thesis using d(1,2,7,8) assms(2,4)
    by (simp add: posix_signal_restore_def sig_for_def frame_words_def sig_upd_states Let_def)
qed

text \<open>
  C39. A caught signal breaks a park. Posting a signal the target handles and does not block,
  to a task asleep, in a pipe, poll, terminal or socket wait, or waiting for any child, leaves
  the signal pending, makes the task runnable with EINTR as the answer of its call, and
  touches no other task.
\<close>

theorem signal_breaks_park:
  assumes "interruptible target s" and "target < MAX_TASKS" and "length (task_pool s) = MAX_TASKS"
    and "length (sig_states s) = MAX_TASKS" and "sig_known n" and "n \<noteq> POSIX_SIG_KILL"
    and "t_uid (task_pool s ! caller) = t_uid (task_pool s ! target) \<or> t_uid (task_pool s ! caller) = 0"
    and "sg_handler (sig_states s ! target) ! (n - 1) > POSIX_SIG_IGN"
    and "\<not> bit (sg_blocked (sig_states s ! target)) (n - 1)"
    and "posix_signal_one cpu (Some caller) (Some target) n s = (answer, s')"
  shows "answer = 0 \<and> bit (sg_pending (sig_states s' ! target)) (n - 1)
    \<and> t_state (task_pool s' ! target) = TASK_RUNNING \<and> task_result s' target = Some POSIX_SIGNAL_EINTR
    \<and> (\<forall>j. j \<noteq> target \<longrightarrow> task_pool s' ! j = task_pool s ! j \<and> task_result s' j = task_result s j)"
proof -
  have r: "0 < n" "n \<le> 22" using sig_known_range [OF assms(5)] by (auto simp: POSIX_SIG_COUNT_def)
  have nb: "sg_blocked (sig_states s ! target) AND ucast (POSIX_SIGNAL_BIT n) = 0"
    using assms(9) by (intro bit_eqI) (auto simp: bit_and_iff bit_of_signal [OF r(1)])
  have h: "sg_handler (sig_states s ! target) ! (n - 1) \<noteq> POSIX_SIG_IGN"
    "sg_handler (sig_states s ! target) ! (n - 1) \<noteq> POSIX_SIG_DFL"
    using assms(8) by (auto simp: POSIX_SIG_IGN_def POSIX_SIG_DFL_def)
  define s1 where "s1 = sig_upd target (\<lambda>st. st\<lparr>sg_pending := sg_pending st OR ucast (POSIX_SIGNAL_BIT n)\<rparr>) s"
  define s2 where "s2 = (if n = POSIX_SIG_CONT then posix_signal_continue_task target s1 else s1)"
  have ns: "t_state (task_pool s ! target) \<noteq> TASK_STOPPED" using assms(1) by (auto simp: interruptible_def)
  have s': "answer = 0" "s' = wake_with_eintr target s2"
    using assms(2,5-7,10) h nb r(1) by (auto simp: posix_signal_one_def sig_for_def s1_def s2_def Let_def)
  have p: "task_pool s2 = task_pool s" "task_result s2 = task_result s" "socket_waits s2 = socket_waits s"
    using assms(2) ns by (auto simp: s1_def s2_def posix_signal_continue_task_def sig_for_def Let_def)
  have "bit (sg_pending (sig_states s1 ! target)) (n - 1)"
    using assms(2,4) r by (auto simp: s1_def sig_upd_states bit_or_iff bit_of_signal)
  then have b: "bit (sg_pending (sig_states s2 ! target)) (n - 1)"
    using assms(2,4) ns
    by (auto simp: s2_def posix_signal_continue_task_def sig_for_def Let_def sig_upd_states bit_and_iff s1_def)
      (simp add: POSIX_SIG_CONT_def stop_bits_def POSIX_SIGNAL_BIT_def POSIX_SIG_STOP_def POSIX_SIG_TSTP_def
        POSIX_SIG_TTIN_def POSIX_SIG_TTOU_def)
  have "interruptible target s2" using assms(1) unfolding interruptible_def p .
  from wake_interrupts [OF this assms(2)] p assms(3) b show ?thesis unfolding s' by simp
qed

section \<open>Witnesses\<close>

text \<open>Task 3 of four, asleep, catches signal 15 at an address of its own.\<close>

definition sig_demo :: signals_st where
  "sig_demo = \<lparr>task_pool = (replicate MAX_TASKS zero_task)[3 := zero_task\<lparr>t_state := TASK_BLOCKED_SLEEP\<rparr>],
     task_pool_count = 4, task_result = (\<lambda>_. None),
     user_pte = (\<lambda>_ page. Some (push_bit 12 page, True)), frames = ucast, timer_ticks = 0, pipes = [], pipe_waits = [],
     sig_states = replicate MAX_TASKS zero_signals, socket_waits = [], poll_waits = [], tty_waits = [], dropped = []\<rparr>"

definition catch_term :: posix_sigaction_request where
  "catch_term = \<lparr>sa_flags = 1, sa_handler = 0x100001000, sa_restorer = 0x100002000, sa_mask = 0,
     sa_previous_handler = 0, sa_previous_restorer = 0, sa_previous_mask = 0, sa_previous_flags = 0\<rparr>"

definition sig_demo1 :: signals_st where
  "sig_demo1 = sig_step (SAction 3 15 catch_term) sig_demo"

definition sig_demo2 :: signals_st where
  "sig_demo2 = sig_step (SOne 0 2 3 15) sig_demo1"

definition demo_regs :: posix_signal_regs where
  "demo_regs = \<lparr>rg_rax = 1, rg_rcx = 2, rg_rdx = 3, rg_rsi = 4, rg_rdi = 5, rg_r8 = 6, rg_r9 = 7, rg_r10 = 8, rg_r11 = 9,
     rg_rip = 0x100003000, rg_rsp = 0x100008000, rg_rflags = 0x202\<rparr>"

lemma sig_demo1_state:
  "task_pool sig_demo1 = task_pool sig_demo" "user_pte sig_demo1 = user_pte sig_demo"
  "sig_states sig_demo1 = (sig_states sig_demo)[3 := zero_signals
     \<lparr>sg_handler := (sg_handler zero_signals)[14 := 0x100001000],
      sg_restorer := (sg_restorer zero_signals)[14 := 0x100002000],
      sg_handler_mask := (sg_handler_mask zero_signals)[14 := 0]\<rparr>]"
  by (simp_all add: sig_demo1_def posix_signal_action_def sig_for_def MAX_TASKS_def sig_known_def POSIX_SIG_KILL_def
      POSIX_SIG_STOP_def catch_term_def POSIX_SA_APPLY_def POSIX_SIG_IGN_def sig_demo_def sig_upd_def Let_def)

lemma sig_demo2_state:
  "sg_pending (sig_states sig_demo2 ! 3) = 0x4000" "sg_blocked (sig_states sig_demo2 ! 3) = 0"
  "sg_handler (sig_states sig_demo2 ! 3) ! 14 = 0x100001000" "length (sig_states sig_demo2) = MAX_TASKS"
  "user_pte sig_demo2 = user_pte sig_demo"
  by (simp_all add: sig_demo2_def posix_signal_one_def sig_for_def sig_demo1_state sig_known_def
      wake_with_eintr_def task_sleep_wake_claim_def sig_upd_states Let_def signo_defs POSIX_SIGNAL_BIT_def
      POSIX_SIG_IGN_def POSIX_SIG_DFL_def zero_signals_def MAX_TASKS_def sig_demo_def zero_task_def)

lemma sig_demo2_deliverable: "deliverable (sig_states sig_demo2 ! 3) = 0x4000"
  by (simp add: deliverable_def sig_demo2_state)

lemma sig_demo2_pick: "posix_signal_pick 3 sig_demo2 = 15"
  by (simp add: posix_signal_pick_def sig_for_def MAX_TASKS_def sig_demo2_deliverable scan_signo.simps)

lemma sig_demo_physical: "user_pte s = user_pte sig_demo \<Longrightarrow> physical root a s = a"
proof -
  assume "user_pte s = user_pte sig_demo"
  moreover have "(a AND 0xFFF) = take_bit 12 a" by (simp add: take_bit_eq_mask mask_eq_exp_minus_1)
  ultimately show ?thesis by (simp add: physical_def sig_demo_def bits_ident)
qed

theorem signal_pick_known_witness:
  "posix_signal_pick 3 (fold sig_step [SAction 3 15 catch_term, SOne 0 2 3 15] sig_demo) = 15 \<and> sig_known 15
    \<and> bit (sg_pending (sig_states sig_demo2 ! 3)) 14"
proof -
  have e: "fold sig_step [SAction 3 15 catch_term, SOne 0 2 3 15] sig_demo = sig_demo2"
    by (simp only: fold.simps sig_demo2_def sig_demo1_def comp_def id_def)
  have r: "sig_states sig_demo = replicate MAX_TASKS zero_signals" "(3::nat) < MAX_TASKS"
    by (simp_all add: sig_demo_def MAX_TASKS_def)
  have i: "15 = posix_signal_pick 3 (fold sig_step [SAction 3 15 catch_term, SOne 0 2 3 15] sig_demo)"
    unfolding e by (simp add: sig_demo2_pick)
  from signal_pick_known [OF r refl refl i] show ?thesis unfolding e by (simp add: sig_demo2_pick)
qed

lemma sig_demo2_delivers:
  "fst (posix_signal_deliver 3 demo_regs 0 sig_demo2) = 1"
  "rg_rsp (fst (snd (posix_signal_deliver 3 demo_regs 0 sig_demo2))) = frame_top 0x100008000"
proof -
  have top: "frame_top 0x100008000 = 0x100007F78" by (simp add: frame_top_def FRAME_SIZE_def)
  have acc: "vm64_user_access root 0x100007F78 120 True sig_demo2" for root
    by (auto simp: vm64_user_access_def byte_access_def list_all_iff sig_demo2_state sig_demo_def VM64_USER_BASE_def
        VM64_USER_LIMIT_def)
  show "fst (posix_signal_deliver 3 demo_regs 0 sig_demo2) = 1"
    "rg_rsp (fst (snd (posix_signal_deliver 3 demo_regs 0 sig_demo2))) = frame_top 0x100008000"
    using acc by (simp_all add: posix_signal_deliver_def sig_for_def MAX_TASKS_def sig_demo2_deliverable sig_demo2_pick
        deliver_signo_def Let_def sig_demo2_state POSIX_SIG_IGN_def demo_regs_def top vm64_copy_to_def frame_words_def
        word_le_nat_alt)
qed

theorem signal_frame_roundtrip_witness:
  "\<exists>s2. posix_signal_restore 3 (\<lambda>_. 7) (frame_top 0x100008000) demo_regs
      (snd (snd (posix_signal_deliver 3 demo_regs 0 sig_demo2))) = (0, demo_regs, s2)
    \<and> sg_blocked (sig_states s2 ! 3) = 0"
proof -
  obtain regs1 s1 where d: "posix_signal_deliver 3 demo_regs 0 sig_demo2 = (1, regs1, s1)"
    and rsp: "rg_rsp regs1 = frame_top 0x100008000"
    using sig_demo2_delivers by (metis prod.collapse)
  have "inj_on (\<lambda>k. frame_top 0x100008000 + of_nat k :: u64) {..<FRAME_SIZE}"
  proof (rule inj_onI)
    fix x y
    assume "x \<in> {..<FRAME_SIZE}" "y \<in> {..<FRAME_SIZE}" "frame_top 0x100008000 + of_nat x = frame_top 0x100008000 + of_nat y"
    then have "unat (of_nat x :: u64) = unat (of_nat y :: u64)" "x mod 2 ^ 64 = x" "y mod 2 ^ 64 = y"
      by (simp_all add: FRAME_SIZE_def)
    then show "x = y" by (simp only: unat_of_nat len_of_numeral_defs) simp
  qed
  then have i: "inj_on (\<lambda>k. physical (t_page_dir (task_pool sig_demo2 ! 3)) (rg_rsp regs1 + of_nat k) sig_demo2) {..<FRAME_SIZE}"
    by (simp add: sig_demo_physical sig_demo2_state rsp)
  have "resume_ok (\<lambda>_. 7) (rg_rip demo_regs) (rg_rsp demo_regs)"
    by (simp add: resume_ok_def demo_regs_def VM64_USER_BASE_def VM64_PAGE_PRESENT_def VM64_PAGE_USER_def VM64_PAGE_NX_def
        VM64_PAGE_WRITE_def Let_def drop_bit_eq_div)
  from signal_frame_roundtrip [OF d sig_demo2_state(4) i this, of demo_regs] show ?thesis
    by (simp add: d rsp sig_demo2_state)
qed

theorem signal_breaks_park_witness:
  "task_result sig_demo2 3 = Some POSIX_SIGNAL_EINTR \<and> t_state (task_pool sig_demo2 ! 3) = TASK_RUNNING"
proof -
  have "interruptible 3 sig_demo1" "(3::nat) < MAX_TASKS" "length (task_pool sig_demo1) = MAX_TASKS"
    "length (sig_states sig_demo1) = MAX_TASKS" "sig_known 15" "15 \<noteq> POSIX_SIG_KILL"
    "t_uid (task_pool sig_demo1 ! 2) = t_uid (task_pool sig_demo1 ! 3) \<or> t_uid (task_pool sig_demo1 ! 2) = 0"
    "sg_handler (sig_states sig_demo1 ! 3) ! (15 - 1) > POSIX_SIG_IGN"
    "\<not> bit (sg_blocked (sig_states sig_demo1 ! 3)) (15 - 1)"
    by (simp_all add: interruptible_def sig_demo1_state sig_known_def POSIX_SIG_KILL_def POSIX_SIG_IGN_def
        zero_signals_def POSIX_SIG_COUNT_def sig_demo_def MAX_TASKS_def zero_task_def)
  from signal_breaks_park [OF this prod.collapse [symmetric], of 0]
  show ?thesis by (simp only: sig_demo2_def sig_step.simps)
qed

end
