(* ===== verification/Pmm.thy ===== *)
theory Pmm
  imports Prelude
begin

text \<open>
  The physical page allocator, \<^verbatim>\<open>src/core/pmm.c\<close>: the bitmap of used pages, the page reference
  counts and the free count, from the E820 map to the last free. Every routine is one section
  under the allocator lock; a panic is \<open>None\<close>. The byte arrays of the bitmaps are functions of
  the byte index, physical memory a function of the address.
\<close>

section \<open>State\<close>

definition PAGE_SIZE :: nat where "PAGE_SIZE = 4096"
definition BITMAP_SIZE :: nat where "BITMAP_SIZE = 0x20000"
definition BITMAP_BITS :: nat where "BITMAP_BITS = BITMAP_SIZE * 8"
definition E820_USABLE :: u32 where "E820_USABLE = 1"

record e820_entry =
  e8_addr :: u64
  e8_len :: u64
  e8_type :: u32
  e8_acpi :: u32

record pmm_st =
  bitmap :: "nat \<Rightarrow> u8"
  ram_bitmap :: "nat \<Rightarrow> u8"
  page_refs :: "nat \<Rightarrow> u16"
  free_pages :: u32
  max_page :: u32
  alloc_page_limit :: u32
  memory :: "u64 \<Rightarrow> u8"

definition page_mask :: "nat \<Rightarrow> u8" where
  "page_mask page = push_bit (page mod 8) 1"

definition used :: "nat \<Rightarrow> pmm_st \<Rightarrow> bool" where
  "used page s \<longleftrightarrow> bitmap s (page div 8) AND page_mask page \<noteq> 0"

definition is_ram :: "nat \<Rightarrow> pmm_st \<Rightarrow> bool" where
  "is_ram page s \<longleftrightarrow> ram_bitmap s (page div 8) AND page_mask page \<noteq> 0"

definition set_used :: "nat \<Rightarrow> pmm_st \<Rightarrow> pmm_st" where
  "set_used page s = s\<lparr>bitmap := (bitmap s)(page div 8 := bitmap s (page div 8) OR page_mask page)\<rparr>"

definition set_free :: "nat \<Rightarrow> pmm_st \<Rightarrow> pmm_st" where
  "set_free page s = s\<lparr>bitmap := (bitmap s)(page div 8 := bitmap s (page div 8) AND NOT (page_mask page))\<rparr>"

definition set_ram :: "nat \<Rightarrow> pmm_st \<Rightarrow> pmm_st" where
  "set_ram page s = s\<lparr>ram_bitmap := (ram_bitmap s)(page div 8 := ram_bitmap s (page div 8) OR page_mask page)\<rparr>"

section \<open>Setting up\<close>

text \<open>A page taken out of the pool for good, when it is still in it.\<close>

definition reserve_page :: "nat \<Rightarrow> pmm_st \<Rightarrow> pmm_st" where
  "reserve_page page s = (if used page s then s else set_used page (s\<lparr>free_pages := free_pages s - 1\<rparr>))"

definition page_floor :: "u64 \<Rightarrow> u64" where
  "page_floor a = a AND NOT 0xFFF"

definition managed_end :: u64 where
  "managed_end = of_nat BITMAP_BITS * 4096"

definition pmm_reserve :: "u64 \<Rightarrow> u64 \<Rightarrow> pmm_st \<Rightarrow> pmm_st" where
  "pmm_reserve addr len s =
     (if len = 0 then s
      else let first = page_floor addr; e = addr + len;
               e1 = (if e > - 1 - 4095 then - 1 else page_floor (e + 4095));
               e2 = (if e1 > managed_end then managed_end else e1)
           in if managed_end \<le> first then s
              else fold reserve_page [unat first div PAGE_SIZE ..< unat e2 div PAGE_SIZE] s)"

definition usable_page :: "nat \<Rightarrow> pmm_st \<Rightarrow> pmm_st" where
  "usable_page page s =
     (if page < BITMAP_BITS then
        (let s1 = set_ram page s;
             s2 = (if used page s1 then set_free page (s1\<lparr>free_pages := free_pages s1 + 1\<rparr>) else s1)
         in if max_page s2 < of_nat page then s2\<lparr>max_page := of_nat page\<rparr> else s2)
      else s)"

definition usable_entry :: "e820_entry \<Rightarrow> pmm_st \<Rightarrow> pmm_st" where
  "usable_entry entry s =
     (if e8_type entry \<noteq> E820_USABLE then s
      else let region_end = (if e8_addr entry + e8_len entry < e8_addr entry then - 1 else e8_addr entry + e8_len entry);
               start = page_floor (e8_addr entry + 4095);
               start1 = (if start < e8_addr entry then - 1 else start)
           in fold usable_page [unat start1 div PAGE_SIZE ..< unat (page_floor region_end) div PAGE_SIZE] s)"

definition reserve_entry :: "e820_entry \<Rightarrow> pmm_st \<Rightarrow> pmm_st" where
  "reserve_entry entry s =
     (if e8_type entry = E820_USABLE \<or> managed_end \<le> e8_addr entry then s
      else pmm_reserve (e8_addr entry)
             (if e8_len entry > managed_end - e8_addr entry then managed_end - e8_addr entry else e8_len entry) s)"

text \<open>\<open>entries\<close> are the records the map holds, \<^verbatim>\<open>mmap_length / entry_size\<close> of them.\<close>

definition pmm_init :: "u64 \<Rightarrow> u32 \<Rightarrow> e820_entry list \<Rightarrow> u64 \<Rightarrow> pmm_st \<Rightarrow> pmm_st option" where
  "pmm_init mmap_length entry_size entries kernel_end s =
     (if entry_size < 20 \<or> mmap_length = 0 \<or> mmap_length mod ucast entry_size \<noteq> 0 then None
      else let s0 = s\<lparr>free_pages := 0, max_page := 0, alloc_page_limit := of_nat BITMAP_BITS,
                      bitmap := (\<lambda>_. 0xFF), ram_bitmap := (\<lambda>_. 0), page_refs := (\<lambda>_. 0)\<rparr>;
               s1 = fold usable_entry entries s0;
               s2 = fold reserve_entry entries s1
           in Some (pmm_reserve 0x100000 (kernel_end - 0x100000) (pmm_reserve 0 0x100000 s2)))"

definition pmm_set_alloc_limit :: "u64 \<Rightarrow> pmm_st \<Rightarrow> pmm_st" where
  "pmm_set_alloc_limit e s =
     (let pages = e div 4096;
          limit = (if pages > of_nat BITMAP_BITS then of_nat BITMAP_BITS else pages)
      in fold reserve_page [unat limit ..< BITMAP_BITS] (s\<lparr>alloc_page_limit := ucast limit\<rparr>))"

section \<open>Allocating\<close>

definition zero_page :: "u64 \<Rightarrow> (u64 \<Rightarrow> u8) \<Rightarrow> u64 \<Rightarrow> u8" where
  "zero_page phys mem = (\<lambda>a. if phys \<le> a \<and> a - phys < 4096 then 0 else mem a)"

definition pmm_take_page :: "nat \<Rightarrow> pmm_st \<Rightarrow> u64 \<times> pmm_st" where
  "pmm_take_page page s =
     (let s1 = set_used page s; phys = of_nat page * 4096
      in (phys, s1\<lparr>page_refs := (page_refs s1)(page := 1), free_pages := free_pages s1 - 1,
                   memory := zero_page phys (memory s1)\<rparr>))"

text \<open>The scan over a range of pages, taking the first free one; 0 when there is none.\<close>

definition take_first :: "nat list \<Rightarrow> pmm_st \<Rightarrow> (u64 \<times> pmm_st) option" where
  "take_first pages s = map_option (\<lambda>page. pmm_take_page page s) (List.find (\<lambda>page. \<not> used page s) pages)"

definition or_none :: "pmm_st \<Rightarrow> (u64 \<times> pmm_st) option \<Rightarrow> u64 \<times> pmm_st" where
  "or_none s r = (case r of None \<Rightarrow> (0, s) | Some x \<Rightarrow> x)"

definition pmm_alloc_page_range :: "u64 \<Rightarrow> u64 \<Rightarrow> pmm_st \<Rightarrow> u64 \<times> pmm_st" where
  "pmm_alloc_page_range start e s =
     (if e \<le> start then (0, s)
      else if start > - 1 - 4095 then (0, s)
      else let first = (start + 4095) div 4096;
               l0 = e div 4096;
               l1 = (if l0 > ucast (alloc_page_limit s) then ucast (alloc_page_limit s) else l0);
               l2 = (if l1 > ucast (max_page s) + 1 then ucast (max_page s) + 1 else l1)
           in if of_nat BITMAP_BITS \<le> first then (0, s)
              else or_none s (take_first [unat (if first < 1 then 1 else first) ..< unat l2] s))"

definition HIGH_START :: nat where "HIGH_START = 0x1000000 div PAGE_SIZE"

definition page_limit :: "pmm_st \<Rightarrow> u32" where
  "page_limit s = (if max_page s + 1 > alloc_page_limit s then alloc_page_limit s else max_page s + 1)"

definition pmm_alloc_page :: "pmm_st \<Rightarrow> u64 \<times> pmm_st" where
  "pmm_alloc_page s =
     (case take_first [HIGH_START ..< unat (page_limit s)] s of
        Some x \<Rightarrow> x
      | None \<Rightarrow> or_none s (take_first [1 ..< min HIGH_START (unat (page_limit s))] s))"

definition pmm_alloc_page_low :: "pmm_st \<Rightarrow> u64 \<times> pmm_st" where
  "pmm_alloc_page_low s =
     (let l0 = of_nat HIGH_START;
          l1 = (if l0 > alloc_page_limit s then alloc_page_limit s else l0);
          l2 = (if l1 > max_page s + 1 then max_page s + 1 else l1)
      in or_none s (take_first [1 ..< unat l2] s))"

text \<open>The scan for a run of free pages: its first page, when the run is long enough.\<close>

fun run_scan :: "(nat \<Rightarrow> bool) \<Rightarrow> nat \<Rightarrow> nat list \<Rightarrow> nat \<Rightarrow> nat \<Rightarrow> nat option" where
  "run_scan taken pages [] run run_start = None"
| "run_scan taken pages (page # rest) run run_start =
     (if taken page then run_scan taken pages rest 0 run_start
      else let start = (if run = 0 then page else run_start)
           in if run + 1 = pages then Some start else run_scan taken pages rest (run + 1) start)"

definition claim_page :: "nat \<Rightarrow> pmm_st \<Rightarrow> pmm_st" where
  "claim_page page s = (set_used page s)\<lparr>page_refs := (page_refs s)(page := 1)\<rparr>"

definition contiguous_limit :: "u64 \<Rightarrow> pmm_st \<Rightarrow> u32" where
  "contiguous_limit max_addr s =
     (let address_limit = max_addr + 1;
          l0 = (if address_limit \<noteq> 0 then ucast (address_limit div 4096) else alloc_page_limit s);
          l1 = (if l0 > alloc_page_limit s then alloc_page_limit s else l0)
      in if l1 > max_page s + 1 then max_page s + 1 else l1)"

definition pmm_alloc_contiguous :: "u32 \<Rightarrow> u64 \<Rightarrow> pmm_st \<Rightarrow> u64 \<times> pmm_st" where
  "pmm_alloc_contiguous pages max_addr s =
     (if pages = 0 \<or> pages > free_pages s then (0, s)
      else if pages > contiguous_limit max_addr s then (0, s)
      else (case run_scan (\<lambda>page. used page s) (unat pages) [1 ..< unat (contiguous_limit max_addr s)] 0 0 of
          None \<Rightarrow> (0, s)
        | Some start \<Rightarrow>
            (let s1 = fold claim_page [start ..< start + unat pages] s
             in (ucast (of_nat start * 4096 :: u32), s1\<lparr>free_pages := free_pages s1 - pages\<rparr>))))"

section \<open>References\<close>

definition pmm_free_page :: "u64 \<Rightarrow> pmm_st \<Rightarrow> pmm_st option" where
  "pmm_free_page addr s =
     (let page = unat (addr div 4096)
      in if addr AND 0xFFF \<noteq> 0 then None
         else if page = 0 \<or> BITMAP_BITS \<le> page then None
         else if page_refs s page = 0 then None
         else let s1 = s\<lparr>page_refs := (page_refs s)(page := page_refs s page - 1)\<rparr>
              in Some (if page_refs s1 page = 0 then set_free page (s1\<lparr>free_pages := free_pages s1 + 1\<rparr>) else s1))"

definition pmm_retain_page :: "u64 \<Rightarrow> pmm_st \<Rightarrow> int \<times> pmm_st" where
  "pmm_retain_page addr s =
     (let page = unat (addr div 4096)
      in if addr AND 0xFFF \<noteq> 0 then (-1, s)
         else if BITMAP_BITS \<le> page then (-1, s)
         else if page_refs s page = 0 \<or> page_refs s page = 0xFFFF then (-1, s)
         else (0, s\<lparr>page_refs := (page_refs s)(page := page_refs s page + 1)\<rparr>))"

definition pmm_page_refs :: "u64 \<Rightarrow> pmm_st \<Rightarrow> u32" where
  "pmm_page_refs addr s =
     (let page = unat (addr div 4096) in if BITMAP_BITS \<le> page then 0 else ucast (page_refs s page))"

definition pmm_free_pages :: "pmm_st \<Rightarrow> u32" where
  "pmm_free_pages s = free_pages s"

definition pmm_range_is_ram :: "u64 \<Rightarrow> u64 \<Rightarrow> pmm_st \<Rightarrow> bool" where
  "pmm_range_is_ram addr len s \<longleftrightarrow> len \<noteq> 0 \<and>
     (let start = page_floor addr;
          e0 = (if len > - 1 - addr then - 1 else addr + len);
          e1 = (if e0 > 0x100000000 then 0x100000000 else e0);
          e2 = (if e1 < 0x100000000 then page_floor (e1 + 4095) else e1)
      in list_ex (\<lambda>page. page < BITMAP_BITS \<and> is_ram page s) [unat start div PAGE_SIZE ..< unat e2 div PAGE_SIZE])"

section \<open>The bitmap\<close>

lemma bits_value [simp]: "BITMAP_BITS = 0x100000"
  by (simp add: BITMAP_BITS_def BITMAP_SIZE_def)

lemma used_iff: "used page s \<longleftrightarrow> bit (bitmap s (page div 8)) (page mod 8)"
  by (simp add: used_def page_mask_def and_exp_eq_0_iff_not_bit)

lemma is_ram_iff: "is_ram page s \<longleftrightarrow> bit (ram_bitmap s (page div 8)) (page mod 8)"
  by (simp add: is_ram_def page_mask_def and_exp_eq_0_iff_not_bit)

lemma bit_page_mask: "bit (page_mask page) k \<longleftrightarrow> k = page mod 8"
proof -
  have "page mod 8 < 8" by simp
  then show ?thesis by (auto simp: page_mask_def bit_exp_iff)
qed

lemma same_page: "q div 8 = p div 8 \<Longrightarrow> q mod 8 = p mod 8 \<Longrightarrow> q = (p :: nat)"
  by (metis div_mult_mod_eq)

lemma bitmap_update:
  "used q (set_used p s) \<longleftrightarrow> q = p \<or> used q s" "used q (set_free p s) \<longleftrightarrow> q \<noteq> p \<and> used q s"
  "is_ram q (set_ram p s) \<longleftrightarrow> q = p \<or> is_ram q s"
  by (auto simp: used_iff is_ram_iff set_used_def set_free_def set_ram_def bit_or_iff bit_and_iff bit_not_iff bit_page_mask
      dest: same_page)

lemma set_used_frame [simp]:
  "page_refs (set_used p s) = page_refs s" "free_pages (set_used p s) = free_pages s" "max_page (set_used p s) = max_page s"
  "alloc_page_limit (set_used p s) = alloc_page_limit s" "memory (set_used p s) = memory s" "is_ram q (set_used p s) = is_ram q s"
  by (simp_all add: set_used_def is_ram_def)

lemma set_free_frame [simp]:
  "page_refs (set_free p s) = page_refs s" "free_pages (set_free p s) = free_pages s" "max_page (set_free p s) = max_page s"
  "alloc_page_limit (set_free p s) = alloc_page_limit s" "memory (set_free p s) = memory s" "is_ram q (set_free p s) = is_ram q s"
  by (simp_all add: set_free_def is_ram_def)

lemma set_ram_frame [simp]:
  "page_refs (set_ram p s) = page_refs s" "free_pages (set_ram p s) = free_pages s" "max_page (set_ram p s) = max_page s"
  "alloc_page_limit (set_ram p s) = alloc_page_limit s" "used q (set_ram p s) = used q s"
  by (simp_all add: set_ram_def used_def)

lemma used_fields [simp]:
  "used q (s\<lparr>free_pages := f\<rparr>) = used q s" "used q (s\<lparr>page_refs := r\<rparr>) = used q s" "used q (s\<lparr>max_page := m\<rparr>) = used q s"
  "used q (s\<lparr>memory := mem\<rparr>) = used q s" "used q (s\<lparr>alloc_page_limit := l\<rparr>) = used q s"
  "is_ram q (s\<lparr>free_pages := f\<rparr>) = is_ram q s" "is_ram q (s\<lparr>page_refs := r\<rparr>) = is_ram q s"
  "is_ram q (s\<lparr>max_page := m\<rparr>) = is_ram q s" "is_ram q (s\<lparr>memory := mem\<rparr>) = is_ram q s"
  "is_ram q (s\<lparr>alloc_page_limit := l\<rparr>) = is_ram q s"
  by (simp_all add: used_def is_ram_def)

definition free_set :: "pmm_st \<Rightarrow> nat set" where
  "free_set s = {page. page < BITMAP_BITS \<and> \<not> used page s}"

definition pmm_ok :: "pmm_st \<Rightarrow> bool" where
  "pmm_ok s \<longleftrightarrow> unat (free_pages s) = card (free_set s) \<and> (\<forall>page \<in> free_set s. page_refs s page = 0)
     \<and> (\<forall>page \<in> free_set s. page \<le> unat (max_page s) \<and> is_ram page s)
     \<and> unat (max_page s) < BITMAP_BITS \<and> unat (alloc_page_limit s) \<le> BITMAP_BITS"

lemma free_set_finite [simp]: "finite (free_set s)"
  by (simp add: free_set_def)

lemma free_set_update [simp]:
  "free_set (s\<lparr>page_refs := r\<rparr>) = free_set s" "free_set (s\<lparr>free_pages := f\<rparr>) = free_set s"
  "free_set (set_used p s) = free_set s - {p}"
  "p < BITMAP_BITS \<Longrightarrow> free_set (set_free p s) = insert p (free_set s)"
  by (auto simp: free_set_def bitmap_update)

lemma free_set_small: "card (free_set s) \<le> BITMAP_BITS"
proof -
  have "free_set s \<subseteq> {..<BITMAP_BITS}" by (auto simp: free_set_def)
  from card_mono [OF _ this] show ?thesis by simp
qed

lemma count_down: "unat (f :: u32) = card A \<Longrightarrow> p \<in> A \<Longrightarrow> finite A \<Longrightarrow> unat (f - 1) = card (A - {p})"
proof -
  assume a: "unat f = card A" "p \<in> A" "finite A"
  then have "0 < unat f" by (auto simp: card_gt_0_iff)
  then have "unat (f - 1) = unat f - 1" by (metis unat_minus_one less_numeral_extra(3) unat_0)
  with a show ?thesis by simp
qed

lemma count_up:
  assumes "unat (f :: u32) = card A" and "p \<notin> A" and "finite A" and "card A \<le> BITMAP_BITS"
  shows "unat (f + 1) = card (insert p A)"
proof -
  have "unat (f + 1) = unat f + 1" using assms(1,4) by (simp add: unat_word_ariths)
  with assms show ?thesis by simp
qed

lemma reserve_page_ok:
  assumes "pmm_ok s" and "p < BITMAP_BITS"
  shows "pmm_ok (reserve_page p s) \<and> free_set (reserve_page p s) = free_set s - {p}
    \<and> page_refs (reserve_page p s) = page_refs s \<and> memory (reserve_page p s) = memory s"
proof (cases "used p s")
  case True
  then show ?thesis using assms by (auto simp: reserve_page_def free_set_def)
next
  case False
  then have f: "free_set (reserve_page p s) = free_set s - {p}" "p \<in> free_set s"
    using assms(2) by (auto simp: reserve_page_def free_set_def bitmap_update)
  then show ?thesis using assms(1) count_down [of "free_pages s" "free_set s" p] False
    by (auto simp: pmm_ok_def reserve_page_def)
qed

lemma usable_page_ok:
  assumes "pmm_ok s" and "page_refs s = (\<lambda>_. 0)"
  shows "pmm_ok (usable_page p s) \<and> page_refs (usable_page p s) = (\<lambda>_. 0)"
proof (cases "p < BITMAP_BITS")
  case True
  have u: "unat (of_nat p :: u32) = p" using True by (simp only: unat_of_nat) (rule mod_less, simp)
  have m: "unat (max_page (usable_page p s)) = max (unat (max_page s)) p"
    using True by (auto simp: usable_page_def Let_def word_less_nat_alt u)
  have f: "free_set (usable_page p s) = insert p (free_set s)"
    using True by (auto simp: usable_page_def Let_def free_set_def bitmap_update)
  have r: "is_ram q (usable_page p s) \<longleftrightarrow> q = p \<or> is_ram q s" for q
    using True by (auto simp: usable_page_def Let_def bitmap_update)
  have rest: "page_refs (usable_page p s) = page_refs s" "alloc_page_limit (usable_page p s) = alloc_page_limit s"
    using True by (auto simp: usable_page_def Let_def)
  have "unat (free_pages (usable_page p s)) = card (insert p (free_set s))"
  proof (cases "used p s")
    case u: True
    then have "p \<notin> free_set s" by (simp add: free_set_def)
    from count_up [OF _ this _ free_set_small] assms(1) have "unat (free_pages s + 1) = card (insert p (free_set s))"
      by (simp add: pmm_ok_def)
    then show ?thesis using u True by (auto simp: usable_page_def Let_def)
  next
    case False
    then have "p \<in> free_set s" using True by (simp add: free_set_def)
    then show ?thesis using False True assms(1) by (auto simp: usable_page_def Let_def pmm_ok_def insert_absorb)
  qed
  with assms True show ?thesis unfolding pmm_ok_def f m r rest by (auto simp: pmm_ok_def)
qed (use assms in \<open>simp add: usable_page_def\<close>)

lemma reserve_pages_ok:
  assumes "pmm_ok s" and "set ps \<subseteq> {..<BITMAP_BITS}"
  shows "pmm_ok (fold reserve_page ps s) \<and> free_set (fold reserve_page ps s) = free_set s - set ps
    \<and> page_refs (fold reserve_page ps s) = page_refs s"
  using assms by (induction ps arbitrary: s) (auto dest: reserve_page_ok)

lemma managed_end_value: "managed_end = 0x100000000"
  by (simp add: managed_end_def)

lemma pmm_reserve_ok:
  assumes "pmm_ok s"
  shows "pmm_ok (pmm_reserve addr len s) \<and> free_set (pmm_reserve addr len s) \<subseteq> free_set s
    \<and> page_refs (pmm_reserve addr len s) = page_refs s"
proof -
  have "unat e div PAGE_SIZE \<le> BITMAP_BITS" if "e \<le> managed_end" for e
    using that by (simp add: managed_end_value word_le_nat_alt PAGE_SIZE_def)
  then have "pmm_ok (fold reserve_page [a ..< unat e div PAGE_SIZE] s)
      \<and> free_set (fold reserve_page [a ..< unat e div PAGE_SIZE] s) = free_set s - {a ..< unat e div PAGE_SIZE}
      \<and> page_refs (fold reserve_page [a ..< unat e div PAGE_SIZE] s) = page_refs s"
    if "e \<le> managed_end" for a e
    using that reserve_pages_ok [OF assms, of "[a ..< unat e div PAGE_SIZE]"] by force
  with assms show ?thesis by (auto simp: pmm_reserve_def Let_def)
qed

lemma usable_entry_ok:
  assumes "pmm_ok s" and "page_refs s = (\<lambda>_. 0)"
  shows "pmm_ok (usable_entry entry s) \<and> page_refs (usable_entry entry s) = (\<lambda>_. 0)"
proof -
  have "pmm_ok (fold usable_page ps s) \<and> page_refs (fold usable_page ps s) = (\<lambda>_. 0)" for ps
    using assms by (induction ps arbitrary: s) (auto dest: usable_page_ok)
  with assms show ?thesis by (simp add: usable_entry_def Let_def)
qed

lemma reserve_entry_ok:
  "pmm_ok s \<Longrightarrow> pmm_ok (reserve_entry entry s) \<and> page_refs (reserve_entry entry s) = page_refs s"
  by (simp add: reserve_entry_def pmm_reserve_ok)

lemma pmm_init_ok:
  assumes "pmm_init len esize entries kernel_end s = Some s'"
  shows "pmm_ok s' \<and> page_refs s' = (\<lambda>_. 0)"
proof -
  define s0 where "s0 = s\<lparr>free_pages := 0, max_page := 0, alloc_page_limit := of_nat BITMAP_BITS,
    bitmap := (\<lambda>_. 0xFF), ram_bitmap := (\<lambda>_. 0), page_refs := (\<lambda>_. 0)\<rparr>"
  have b: "bit (0xFF :: u8) (page mod 8)" for page :: nat
  proof -
    have e: "(0xFF :: u8) = - 1" by simp
    show ?thesis unfolding e by simp
  qed
  have "used page s0" for page using b [of page] by (simp add: used_iff s0_def)
  then have "free_set s0 = {}" by (simp add: free_set_def)
  then have 0: "pmm_ok s0" "page_refs s0 = (\<lambda>_. 0)" by (simp_all add: pmm_ok_def s0_def)
  have 1: "pmm_ok (fold usable_entry es t) \<and> page_refs (fold usable_entry es t) = (\<lambda>_. 0)"
    if "pmm_ok t" "page_refs t = (\<lambda>_. 0)" for es t
    using that by (induction es arbitrary: t) (auto dest: usable_entry_ok)
  have 2: "pmm_ok (fold reserve_entry es t) \<and> page_refs (fold reserve_entry es t) = page_refs t" if "pmm_ok t" for es t
    using that by (induction es arbitrary: t) (simp_all add: reserve_entry_ok)
  have "s' = pmm_reserve 0x100000 (kernel_end - 0x100000) (pmm_reserve 0 0x100000 (fold reserve_entry entries (fold usable_entry entries s0)))"
    using assms by (auto simp: pmm_init_def Let_def s0_def split: if_splits)
  with 1 [OF 0] 2 show ?thesis by (simp add: pmm_reserve_ok)
qed

lemma set_alloc_limit_ok:
  assumes "pmm_ok s"
  shows "pmm_ok (pmm_set_alloc_limit e s) \<and> page_refs (pmm_set_alloc_limit e s) = page_refs s"
proof -
  let ?l = "if e div 4096 > of_nat BITMAP_BITS then of_nat BITMAP_BITS else e div 4096"
  have l: "unat ?l \<le> BITMAP_BITS" by (auto simp: word_less_nat_alt)
  have "unat (ucast ?l :: u32) = unat ?l" using l by (simp add: unsigned_ucast_eq take_bit_nat_eq_self)
  then have "pmm_ok (s\<lparr>alloc_page_limit := ucast ?l\<rparr>)" using assms l by (simp add: pmm_ok_def free_set_def)
  then have "pmm_ok (fold reserve_page [unat ?l ..< BITMAP_BITS] (s\<lparr>alloc_page_limit := ucast ?l\<rparr>))
      \<and> page_refs (fold reserve_page [unat ?l ..< BITMAP_BITS] (s\<lparr>alloc_page_limit := ucast ?l\<rparr>)) = page_refs s"
    using reserve_pages_ok [of "s\<lparr>alloc_page_limit := ucast ?l\<rparr>" "[unat ?l ..< BITMAP_BITS]"] by force
  then show ?thesis unfolding pmm_set_alloc_limit_def Let_def .
qed

section \<open>What an allocation takes\<close>

lemma take_page_ok:
  assumes "pmm_ok s" and "p \<in> free_set s" and "pmm_take_page p s = (a, s')"
  shows "pmm_ok s'" "free_set s' = free_set s - {p}" "page_refs s' = (page_refs s)(p := 1)"
    "a = of_nat p * 4096" "memory s' = zero_page a (memory s)"
proof -
  show f: "free_set s' = free_set s - {p}"
    using assms(3) by (auto simp: pmm_take_page_def Let_def free_set_def bitmap_update)
  show "page_refs s' = (page_refs s)(p := 1)" "a = of_nat p * 4096" "memory s' = zero_page a (memory s)"
    using assms(3) by (auto simp: pmm_take_page_def Let_def)
  show "pmm_ok s'"
    unfolding pmm_ok_def f using assms count_down [of "free_pages s" "free_set s" p]
    by (auto simp: pmm_ok_def pmm_take_page_def Let_def split: if_splits)
qed

lemma take_first_cases:
  assumes "take_first ps s = r"
  shows "r = None \<and> (\<forall>p \<in> set ps. used p s) \<or> (\<exists>p \<in> set ps. \<not> used p s \<and> r = Some (pmm_take_page p s))"
proof (cases "List.find (\<lambda>page. \<not> used page s) ps")
  case None
  then have "\<forall>p \<in> set ps. used p s" by (simp add: find_None_iff)
  with None assms show ?thesis by (simp add: take_first_def)
next
  case (Some p)
  then have "p \<in> set ps" "\<not> used p s" by (auto simp: find_Some_iff)
  with Some assms show ?thesis by (auto simp: take_first_def)
qed

text \<open>The run scan finds a run exactly when there is one.\<close>

definition free_run :: "(nat \<Rightarrow> bool) \<Rightarrow> nat \<Rightarrow> nat \<Rightarrow> nat \<Rightarrow> nat \<Rightarrow> bool" where
  "free_run taken pages lo limit r \<longleftrightarrow> lo \<le> r \<and> r + pages \<le> limit \<and> (\<forall>p. r \<le> p \<and> p < r + pages \<longrightarrow> \<not> taken p)"

lemma run_scan_step:
  assumes "run < pages" and "0 < run \<Longrightarrow> start + run = a \<and> (\<forall>p. start \<le> p \<and> p < a \<longrightarrow> \<not> taken p)"
    and "lo = (if 0 < run then start else a)"
  shows "case run_scan taken pages [a..<limit] run start of
      Some r \<Rightarrow> free_run taken pages lo limit r | None \<Rightarrow> \<not> (\<exists>r. free_run taken pages lo limit r)"
  using assms
proof (induction "limit - a" arbitrary: a run start lo)
  case 0
  then have "\<not> free_run taken pages lo limit r" for r by (auto simp: free_run_def)
  with 0 show ?case by simp
next
  case (Suc n)
  then have u: "[a..<limit] = a # [Suc a..<limit]" "n = limit - Suc a" "a < limit" by (auto simp: upt_conv_Cons)
  show ?case
  proof (cases "taken a")
    case True
    have "free_run taken pages lo limit r = free_run taken pages (Suc a) limit r" for r
    proof -
      have False if "free_run taken pages lo limit r" "r \<le> a"
      proof (cases "a < r + pages")
        case False
        with that Suc.prems show False by (auto simp: free_run_def split: if_splits)
      qed (use that True in \<open>auto simp: free_run_def\<close>)
      moreover have "lo \<le> Suc a" using Suc.prems by (auto split: if_splits)
      ultimately show ?thesis unfolding free_run_def by (metis le_trans not_less_eq_eq)
    qed
    then have "free_run taken pages lo limit = free_run taken pages (Suc a) limit" by (simp add: fun_eq_iff)
    with Suc.hyps(1) [OF u(2), of 0 start "Suc a"] Suc.prems(1) True show ?thesis by (simp add: u(1) split: option.splits)
  next
    case False
    let ?start = "if run = 0 then a else start"
    have lo: "lo = ?start" "?start + run = a" using Suc.prems by auto
    have fr: "\<not> taken p" if "?start \<le> p" "p < Suc a" for p
      using that False Suc.prems(2) by (auto simp: less_Suc_eq split: if_splits)
    show ?thesis
    proof (cases "run + 1 = pages")
      case True
      with fr lo u(3) have "free_run taken pages lo limit ?start" by (auto simp: free_run_def)
      with True False show ?thesis by (simp add: u(1))
    next
      case f: False
      have "run_scan taken pages [a..<limit] run start = run_scan taken pages [Suc a..<limit] (run + 1) ?start"
        using f False by (simp add: u(1))
      with Suc.hyps(1) [OF u(2), of "run + 1" ?start ?start] fr lo f Suc.prems(1) show ?thesis by auto
    qed
  qed
qed

lemma run_scan_correct:
  assumes "0 < pages"
  shows "run_scan taken pages [1..<limit] 0 0 = Some r \<Longrightarrow> free_run taken pages 1 limit r"
    and "run_scan taken pages [1..<limit] 0 0 = None \<Longrightarrow> \<not> free_run taken pages 1 limit r"
  using run_scan_step [of 0 pages 0 1 taken 1 limit] assms by (auto split: option.splits)

lemma claim_pages:
  assumes "set ps \<subseteq> free_set s"
  shows "free_set (fold claim_page ps s) = free_set s - set ps"
    and "page_refs (fold claim_page ps s) = (\<lambda>p. if p \<in> set ps then 1 else page_refs s p)"
    and "free_pages (fold claim_page ps s) = free_pages s" "max_page (fold claim_page ps s) = max_page s"
    "alloc_page_limit (fold claim_page ps s) = alloc_page_limit s" "memory (fold claim_page ps s) = memory s"
    "is_ram q (fold claim_page ps s) = is_ram q s"
proof -
  have c: "free_set (claim_page p s) = free_set s - {p}" for p s
    by (auto simp: claim_page_def free_set_def bitmap_update)
  show "free_set (fold claim_page ps s) = free_set s - set ps"
    by (induction ps arbitrary: s) (auto simp: c)
  show "page_refs (fold claim_page ps s) = (\<lambda>p. if p \<in> set ps then 1 else page_refs s p)"
    by (induction ps arbitrary: s) (auto simp: claim_page_def)
  show "free_pages (fold claim_page ps s) = free_pages s" "max_page (fold claim_page ps s) = max_page s"
    "alloc_page_limit (fold claim_page ps s) = alloc_page_limit s" "memory (fold claim_page ps s) = memory s"
    "is_ram q (fold claim_page ps s) = is_ram q s"
    by (induction ps arbitrary: s) (simp_all add: claim_page_def)
qed

text \<open>
  What every allocation does: nothing, or it takes \<open>count\<close> pages that were free, gives them one
  reference each and answers the address of the first.
\<close>

definition takes :: "nat \<Rightarrow> pmm_st \<Rightarrow> u64 \<times> pmm_st \<Rightarrow> nat \<Rightarrow> bool" where
  "takes count s r p \<longleftrightarrow> 0 < p \<and> {p..<p + count} \<subseteq> free_set s \<and> fst r = of_nat p * 4096
     \<and> free_set (snd r) = free_set s - {p..<p + count}
     \<and> page_refs (snd r) = (\<lambda>q. if q \<in> {p..<p + count} then 1 else page_refs s q) \<and> pmm_ok (snd r)"

lemma take_page_takes:
  assumes "pmm_ok s" and "p \<in> free_set s" and "0 < p"
  shows "takes 1 s (pmm_take_page p s) p"
  using take_page_ok [OF assms(1,2) prod.collapse [symmetric]] assms by (auto simp: takes_def fun_eq_iff)

lemma take_first_takes:
  assumes "pmm_ok s" and "set ps \<subseteq> {1..<BITMAP_BITS}"
  shows "take_first ps s = None \<and> set ps \<inter> free_set s = {}
    \<or> (\<exists>p \<in> set ps. take_first ps s = Some (pmm_take_page p s) \<and> takes 1 s (pmm_take_page p s) p)"
proof -
  have "takes 1 s (pmm_take_page p s) p" if "p \<in> set ps" "\<not> used p s" for p
    using that assms by (intro take_page_takes) (auto simp: free_set_def)
  with take_first_cases [OF refl, of ps s] show ?thesis by (auto simp: free_set_def)
qed

lemma page_limit_bound: "pmm_ok s \<Longrightarrow> unat (page_limit s) \<le> BITMAP_BITS"
  by (auto simp: page_limit_def pmm_ok_def word_less_nat_alt)

lemma limit_free: "pmm_ok s \<Longrightarrow> p \<in> free_set s \<Longrightarrow> p < unat (alloc_page_limit s) \<Longrightarrow> p < unat (page_limit s)"
  by (auto simp: page_limit_def pmm_ok_def unat_word_ariths)

lemma alloc_page_spec:
  assumes "pmm_ok s"
  shows "pmm_alloc_page s = (0, s) \<and> free_set s \<inter> {1..<unat (alloc_page_limit s)} = {}
    \<or> (\<exists>p. takes 1 s (pmm_alloc_page s) p \<and> p < unat (alloc_page_limit s)
          \<and> memory (snd (pmm_alloc_page s)) = zero_page (fst (pmm_alloc_page s)) (memory s))"
proof -
  have hi: "set [HIGH_START ..< unat (page_limit s)] \<subseteq> {1..<BITMAP_BITS}"
    and lo: "set [1 ..< min HIGH_START (unat (page_limit s))] \<subseteq> {1..<BITMAP_BITS}"
    using page_limit_bound [OF assms] by (auto simp: HIGH_START_def PAGE_SIZE_def)
  have lim: "unat (page_limit s) \<le> unat (alloc_page_limit s)"
    by (auto simp: page_limit_def word_less_nat_alt)
  have mem: "memory (snd (pmm_take_page p s)) = zero_page (fst (pmm_take_page p s)) (memory s)" for p
    by (simp add: pmm_take_page_def Let_def)
  consider (high) p where "p < unat (page_limit s)" "pmm_alloc_page s = pmm_take_page p s" "takes 1 s (pmm_take_page p s) p"
    | (none) "pmm_alloc_page s = (0, s)" "set [HIGH_START ..< unat (page_limit s)] \<inter> free_set s = {}"
        "set [1 ..< min HIGH_START (unat (page_limit s))] \<inter> free_set s = {}"
    using take_first_takes [OF assms hi] take_first_takes [OF assms lo]
    by (auto simp: pmm_alloc_page_def or_none_def)
  then show ?thesis
  proof cases
    case high
    then show ?thesis using lim mem by auto
  next
    case none
    have no: "p \<notin> free_set s" if "1 \<le> p" "p < unat (page_limit s)" for p
    proof (cases "p < HIGH_START")
      case True
      then have "p \<in> set [1 ..< min HIGH_START (unat (page_limit s))]" using that by simp
      with none(3) show ?thesis by blast
    next
      case False
      then have "p \<in> set [HIGH_START ..< unat (page_limit s)]" using that by simp
      with none(2) show ?thesis by blast
    qed
    have "free_set s \<inter> {1..<unat (alloc_page_limit s)} = {}"
      using no limit_free [OF assms] by fastforce
    with none(1) show ?thesis by blast
  qed
qed

lemma or_none_takes:
  assumes "pmm_ok s" and "set ps \<subseteq> {1..<BITMAP_BITS}"
  shows "or_none s (take_first ps s) = (0, s) \<or> (\<exists>p \<in> set ps. takes 1 s (or_none s (take_first ps s)) p)"
  using take_first_takes [OF assms] by (auto simp: or_none_def)

lemma alloc_low_spec:
  assumes "pmm_ok s"
  shows "pmm_alloc_page_low s = (0, s) \<or> (\<exists>p < HIGH_START. takes 1 s (pmm_alloc_page_low s) p)"
proof -
  let ?l1 = "if of_nat HIGH_START > alloc_page_limit s then alloc_page_limit s else of_nat HIGH_START"
  let ?l2 = "if ?l1 > max_page s + 1 then max_page s + 1 else ?l1"
  have "unat ?l2 \<le> HIGH_START" by (auto simp: word_less_nat_alt HIGH_START_def PAGE_SIZE_def)
  then have "set [1..<unat ?l2] \<subseteq> {1..<BITMAP_BITS}" "\<forall>p \<in> set [1..<unat ?l2]. p < HIGH_START"
    by (auto simp: HIGH_START_def PAGE_SIZE_def)
  with or_none_takes [OF assms] show ?thesis by (fastforce simp: pmm_alloc_page_low_def Let_def)
qed

lemma alloc_range_spec:
  assumes "pmm_ok s" and "r = pmm_alloc_page_range start e s"
  shows "r = (0, s) \<or> (\<exists>p. takes 1 s r p \<and> unat start \<le> p * PAGE_SIZE \<and> p * PAGE_SIZE + PAGE_SIZE \<le> unat e)"
proof (cases "e \<le> start \<or> start > - 1 - 4095 \<or> of_nat BITMAP_BITS \<le> (start + 4095) div 4096")
  case True
  then show ?thesis using assms(2) by (auto simp: pmm_alloc_page_range_def Let_def)
next
  case False
  let ?first = "(start + 4095) div 4096"
  define f where "f = (if ?first < 1 then 1 else ?first)"
  define l1 where "l1 = (if e div 4096 > ucast (alloc_page_limit s) then ucast (alloc_page_limit s) else e div 4096)"
  define l2 where "l2 = (if l1 > ucast (max_page s) + 1 then ucast (max_page s) + 1 else l1)"
  have r: "r = or_none s (take_first [unat f ..< unat l2] s)"
    using False unfolding assms(2) pmm_alloc_page_range_def Let_def f_def l2_def l1_def by (simp only: de_Morgan_disj if_False)
  have "unat (start + 4095) = unat start + 4095"
    using False by (simp add: unat_word_ariths word_less_nat_alt)
  then have first: "unat ?first = (unat start + 4095) div 4096" by (simp add: unat_div)
  have f1: "1 \<le> unat f" "unat ?first \<le> unat f" by (auto simp: f_def Suc_le_eq unat_gt_0)
  have l: "unat l2 \<le> unat (e div 4096)" "unat l2 \<le> BITMAP_BITS"
    using assms(1) by (auto simp: l2_def l1_def word_less_nat_alt pmm_ok_def unsigned_ucast_eq take_bit_nat_eq_self)
  have "set [unat f ..< unat l2] \<subseteq> {1..<BITMAP_BITS}" using f1(1) l(2) by auto
  from or_none_takes [OF assms(1) this] show ?thesis
  proof
    assume "\<exists>p \<in> set [unat f ..< unat l2]. takes 1 s (or_none s (take_first [unat f ..< unat l2] s)) p"
    then obtain p where p: "unat f \<le> p" "p < unat l2" "takes 1 s r p" by (auto simp: r)
    have "(unat start + 4095) div 4096 \<le> p" using p(1) f1(2) first by linarith
    then have "unat start \<le> p * PAGE_SIZE" unfolding PAGE_SIZE_def by linarith
    moreover have "p < unat e div 4096" using p(2) l(1) by (simp add: unat_div)
    then have "p * PAGE_SIZE + PAGE_SIZE \<le> unat e" unfolding PAGE_SIZE_def by linarith
    ultimately show ?thesis using p(3) by blast
  qed (simp add: r)
qed

lemma contiguous_limit_bound:
  assumes "pmm_ok s"
  shows "unat (contiguous_limit max_addr s) \<le> BITMAP_BITS"
  using assms by (auto simp: contiguous_limit_def Let_def pmm_ok_def word_less_nat_alt)

lemma free_run_pages:
  assumes "free_run (\<lambda>page. used page s) n 1 limit r" and "limit \<le> BITMAP_BITS"
  shows "{r..<r + n} \<subseteq> free_set s"
  using assms by (auto simp: free_run_def free_set_def)

lemma contiguous_spec:
  assumes "pmm_ok s" and "0 < pages" and "l = unat (contiguous_limit max_addr s)"
  shows "pmm_alloc_contiguous pages max_addr s = (0, s)
      \<and> \<not> (\<exists>r. free_run (\<lambda>page. used page s) (unat pages) 1 l r)
    \<or> (\<exists>p. takes (unat pages) s (pmm_alloc_contiguous pages max_addr s) p \<and> p + unat pages \<le> l)"
proof (cases "\<exists>r. free_run (\<lambda>page. used page s) (unat pages) 1 l r")
  case False
  then have "run_scan (\<lambda>page. used page s) (unat pages) [1 ..< l] 0 0 = None"
    using run_scan_correct(1) [of "unat pages" "\<lambda>page. used page s" l] assms(2)
    by (cases "run_scan (\<lambda>page. used page s) (unat pages) [1 ..< l] 0 0") (auto simp: unat_gt_0)
  with False show ?thesis using assms(3) by (simp add: pmm_alloc_contiguous_def)
next
  case True
  have n: "0 < unat pages" using assms(2) by (simp add: word_less_nat_alt)
  have lb: "l \<le> BITMAP_BITS" using contiguous_limit_bound [OF assms(1)] assms(3) by simp
  from True obtain r where r: "free_run (\<lambda>page. used page s) (unat pages) 1 l r" by blast
  have "run_scan (\<lambda>page. used page s) (unat pages) [1 ..< l] 0 0 \<noteq> None"
    using run_scan_correct(2) [OF n, of "\<lambda>page. used page s" l r] r by blast
  then obtain q where q: "run_scan (\<lambda>page. used page s) (unat pages) [1 ..< l] 0 0 = Some q" by blast
  note fq = run_scan_correct(1) [OF n q]
  have sub: "set [q ..< q + unat pages] \<subseteq> free_set s" using free_run_pages [OF fq lb] by simp
  have "card {q..<q + unat pages} \<le> card (free_set s)" using sub by (intro card_mono) auto
  then have few: "unat pages \<le> unat (free_pages s)" using assms(1) by (simp add: pmm_ok_def)
  have pl: "unat pages \<le> l" "q + unat pages \<le> l" "1 \<le> q" using fq by (auto simp: free_run_def)
  let ?s1 = "fold claim_page [q ..< q + unat pages] s"
  note cl = claim_pages [OF sub]
  have e: "pmm_alloc_contiguous pages max_addr s
      = (ucast (of_nat q * 4096 :: u32), ?s1\<lparr>free_pages := free_pages ?s1 - pages\<rparr>)"
    using n few pl(1) q assms(3)
    by (simp add: pmm_alloc_contiguous_def Let_def word_less_nat_alt unat_eq_zero [symmetric])
  have "unat (of_nat q * 4096 :: u32) = q * 4096"
    using pl(2) n lb by (simp add: unat_word_ariths unat_of_nat)
  then have a: "(ucast (of_nat q * 4096 :: u32) :: u64) = of_nat q * 4096"
    by (metis of_nat_unat of_nat_mult of_nat_numeral)
  have fs: "free_set (t\<lparr>free_pages := f\<rparr>) = free_set t" for t f by (simp add: free_set_def)
  have "unat (free_pages s - pages) = card (free_set s - {q..<q + unat pages})"
    using few assms(1) sub by (simp add: unat_sub word_le_nat_alt card_Diff_subset pmm_ok_def)
  then have "takes (unat pages) s (pmm_alloc_contiguous pages max_addr s) q"
    unfolding e takes_def using pl(3) sub cl assms(1) a by (auto simp: fs pmm_ok_def)
  with pl(2) show ?thesis by blast
qed

section \<open>Frees, and the ledger of holders\<close>

lemma page_address:
  assumes "p < BITMAP_BITS"
  shows "unat ((of_nat p * 4096 :: u64) div 4096) = p" and "(of_nat p * 4096 :: u64) AND 0xFFF = 0"
proof -
  have u: "unat (of_nat p * 4096 :: u64) = p * 4096" using assms by (simp add: unat_word_ariths unat_of_nat)
  then show "unat ((of_nat p * 4096 :: u64) div 4096) = p" by (simp add: unat_div)
  have "(of_nat p * 4096 :: u64) AND 0xFFF = take_bit 12 (of_nat p * 4096)"
    by (simp add: take_bit_eq_mask mask_eq_exp_minus_1)
  also have "\<dots> = take_bit 12 (push_bit 12 (of_nat p))" by (simp add: push_bit_eq_mult)
  also have "\<dots> = 0" by (simp only: take_bit_push_bit) simp
  finally show "(of_nat p * 4096 :: u64) AND 0xFFF = 0" .
qed

lemma free_page_spec:
  assumes "pmm_ok s" and "0 < p" and "p < BITMAP_BITS" and "page_refs s p \<noteq> 0"
    and "is_ram p s" and "p \<le> unat (max_page s)"
  shows "\<exists>s'. pmm_free_page (of_nat p * 4096) s = Some s' \<and> pmm_ok s'
    \<and> page_refs s' = (page_refs s)(p := page_refs s p - 1)
    \<and> free_set s' = (if page_refs s p = 1 then insert p (free_set s) else free_set s)"
proof -
  let ?s1 = "s\<lparr>page_refs := (page_refs s)(p := page_refs s p - 1)\<rparr>"
  have nf: "p \<notin> free_set s" using assms(1,4) by (auto simp: pmm_ok_def)
  have e: "pmm_free_page (of_nat p * 4096) s
      = Some (if page_refs s p - 1 = 0 then set_free p (?s1\<lparr>free_pages := free_pages s + 1\<rparr>) else ?s1)"
    using assms(2-4) page_address [OF assms(3)] by (simp add: pmm_free_page_def)
  have one: "page_refs s p - 1 = 0 \<longleftrightarrow> page_refs s p = 1" by auto
  have "unat (free_pages s + 1) = card (insert p (free_set s))"
    using assms(1) nf free_set_small by (intro count_up) (auto simp: pmm_ok_def)
  with assms nf show ?thesis unfolding e one
    by (cases "page_refs s p = 1") (auto simp: pmm_ok_def)
qed

lemma retain_page_spec:
  assumes "pmm_ok s" and "p < BITMAP_BITS" and "pmm_retain_page (of_nat p * 4096) s = (v, s')"
  shows "v = -1 \<and> s' = s \<or> v = 0 \<and> page_refs s p \<noteq> 0 \<and> page_refs s p \<noteq> 0xFFFF \<and> pmm_ok s'
    \<and> free_set s' = free_set s \<and> page_refs s' = (page_refs s)(p := page_refs s p + 1)"
  using assms page_address [OF assms(2)]
  by (auto simp: pmm_retain_page_def Let_def pmm_ok_def free_set_def split: if_splits)

text \<open>
  The ledger counts the references handed out for each page; a caller frees only what it holds.
  \<open>None\<close> is the panic.
\<close>

datatype pmm_op = PAlloc | PLow | PRange u64 u64 | PContig u32 u64 | PRetain nat | PFree nat

definition grant :: "nat \<Rightarrow> u64 \<times> pmm_st \<Rightarrow> (nat \<Rightarrow> nat) \<Rightarrow> (nat \<Rightarrow> nat) \<times> pmm_st" where
  "grant count r L = (let p = unat (fst r div 4096)
     in (if fst r = 0 then L else (\<lambda>q. if q \<in> {p..<p + count} then 1 else L q), snd r))"

fun pmm_step :: "pmm_op \<Rightarrow> (nat \<Rightarrow> nat) \<times> pmm_st \<Rightarrow> ((nat \<Rightarrow> nat) \<times> pmm_st) option" where
  "pmm_step PAlloc (L, s) = Some (grant 1 (pmm_alloc_page s) L)"
| "pmm_step PLow (L, s) = Some (grant 1 (pmm_alloc_page_low s) L)"
| "pmm_step (PRange start e) (L, s) = Some (grant 1 (pmm_alloc_page_range start e s) L)"
| "pmm_step (PContig pages m) (L, s) = Some (grant (unat pages) (pmm_alloc_contiguous pages m s) L)"
| "pmm_step (PRetain p) (L, s) =
     (if p < BITMAP_BITS then
        (case pmm_retain_page (of_nat p * 4096) s of (v, s') \<Rightarrow> Some (if v = 0 then L(p := L p + 1) else L, s'))
      else Some (L, s))"
| "pmm_step (PFree p) (L, s) =
     (if 0 < L p then map_option (Pair (L(p := L p - 1))) (pmm_free_page (of_nat p * 4096) s) else Some (L, s))"

fun pmm_run :: "pmm_op list \<Rightarrow> (nat \<Rightarrow> nat) \<times> pmm_st \<Rightarrow> ((nat \<Rightarrow> nat) \<times> pmm_st) option" where
  "pmm_run [] x = Some x"
| "pmm_run (op # ops) x = (case pmm_step op x of None \<Rightarrow> None | Some y \<Rightarrow> pmm_run ops y)"

text \<open>
  The pages of the pool are those free at the start; the ledger and the free set divide them.
\<close>

definition ledger_ok :: "nat set \<Rightarrow> (nat \<Rightarrow> nat) \<Rightarrow> pmm_st \<Rightarrow> bool" where
  "ledger_ok pool L s \<longleftrightarrow> pmm_ok s \<and> (\<forall>p. unat (page_refs s p) = L p) \<and> {p. 0 < L p} \<subseteq> pool - {0}
     \<and> free_set s = pool - {p. 0 < L p} \<and> pool \<subseteq> {..<BITMAP_BITS}
     \<and> (\<forall>p \<in> pool. is_ram p s \<and> p \<le> unat (max_page s))"

lemma takes_ledger:
  assumes "ledger_ok pool L s" and "r = (0, s) \<or> (\<exists>p. takes count s r p)" and "0 < count"
    and ram: "\<And>p. is_ram p (snd r) = is_ram p s" "max_page (snd r) = max_page s"
  shows "ledger_ok pool (fst (grant count r L)) (snd (grant count r L))"
proof (cases "fst r = 0")
  case True
  have False if "takes count s r p" for p
  proof -
    have "p \<in> free_set s" using that assms(3) by (auto simp: takes_def)
    then have "p < BITMAP_BITS" by (simp add: free_set_def)
    from page_address(1) [OF this] that True show False by (auto simp: takes_def)
  qed
  with assms(1,2) show ?thesis by (auto simp: grant_def Let_def True)
next
  case False
  with assms(2) obtain p where t: "takes count s r p" by auto
  then have pf: "p \<in> free_set s" "{p..<p + count} \<subseteq> free_set s" using assms(3) by (auto simp: takes_def)
  then have "p < BITMAP_BITS" by (simp add: free_set_def)
  then have g: "grant count r L = (\<lambda>q. if q \<in> {p..<p + count} then 1 else L q, snd r)"
    using t False page_address(1) [of p] by (simp add: grant_def Let_def takes_def)
  have "{p..<p + count} \<subseteq> pool - {0}" using pf assms(1) t by (auto simp: ledger_ok_def takes_def)
  with assms(1) t show ?thesis unfolding g ledger_ok_def by (auto simp: takes_def ram)
qed

lemma alloc_ram:
  "is_ram p (snd (pmm_take_page q s)) = is_ram p s" "max_page (snd (pmm_take_page q s)) = max_page s"
  by (simp_all add: pmm_take_page_def Let_def)

lemma take_first_ram:
  "is_ram p (snd (or_none s (take_first ps s))) = is_ram p s" "max_page (snd (or_none s (take_first ps s))) = max_page s"
  "take_first ps s = Some x \<Longrightarrow> is_ram p (snd x) = is_ram p s" "take_first ps s = Some x \<Longrightarrow> max_page (snd x) = max_page s"
  by (auto simp: or_none_def take_first_def alloc_ram split: option.split)

lemma contiguous_ram:
  assumes "pmm_ok s"
  shows "is_ram p (snd (pmm_alloc_contiguous n m s)) = is_ram p s"
    "max_page (snd (pmm_alloc_contiguous n m s)) = max_page s"
proof -
  have c: "is_ram p (fold claim_page ps s) = is_ram p s" "max_page (fold claim_page ps s) = max_page s" for ps s
    by (induction ps arbitrary: s) (simp_all add: claim_page_def)
  show "is_ram p (snd (pmm_alloc_contiguous n m s)) = is_ram p s"
    "max_page (snd (pmm_alloc_contiguous n m s)) = max_page s"
    by (auto simp: pmm_alloc_contiguous_def Let_def c split: option.split)
qed

lemma ledger_some:
  "ledger_ok pool (fst x) (snd x) \<Longrightarrow> \<exists>L' s'. Some x = Some (L', s') \<and> ledger_ok pool L' s'"
  by (cases x) simp

lemma pmm_step_ledger:
  assumes "ledger_ok pool L s"
  shows "\<exists>L' s'. pmm_step op (L, s) = Some (L', s') \<and> ledger_ok pool L' s'"
proof -
  have ok: "pmm_ok s" and refs: "\<And>p. unat (page_refs s p) = L p" using assms by (auto simp: ledger_ok_def)
  show ?thesis
  proof (cases op)
    case PAlloc
    have "ledger_ok pool (fst (grant 1 (pmm_alloc_page s) L)) (snd (grant 1 (pmm_alloc_page s) L))"
      using alloc_page_spec [OF ok]
      by (intro takes_ledger [OF assms]) (auto simp: pmm_alloc_page_def take_first_ram split: option.split)
    from ledger_some [OF this] show ?thesis unfolding PAlloc pmm_step.simps .
  next
    case PLow
    have "ledger_ok pool (fst (grant 1 (pmm_alloc_page_low s) L)) (snd (grant 1 (pmm_alloc_page_low s) L))"
      using alloc_low_spec [OF ok]
      by (intro takes_ledger [OF assms]) (auto simp: pmm_alloc_page_low_def Let_def take_first_ram)
    from ledger_some [OF this] show ?thesis unfolding PLow pmm_step.simps .
  next
    case (PRange start e)
    have "ledger_ok pool (fst (grant 1 (pmm_alloc_page_range start e s) L)) (snd (grant 1 (pmm_alloc_page_range start e s) L))"
      using alloc_range_spec [OF ok refl, of start e]
      by (intro takes_ledger [OF assms]) (auto simp: pmm_alloc_page_range_def Let_def take_first_ram)
    from ledger_some [OF this] show ?thesis unfolding PRange pmm_step.simps .
  next
    case (PContig n m)
    show ?thesis
    proof (cases "n = 0")
      case True
      with PContig assms show ?thesis by (simp add: pmm_alloc_contiguous_def grant_def)
    next
      case False
      have "ledger_ok pool (fst (grant (unat n) (pmm_alloc_contiguous n m s) L)) (snd (grant (unat n) (pmm_alloc_contiguous n m s) L))"
        using contiguous_spec [OF ok _ refl, of n m] False
        by (intro takes_ledger [OF assms]) (auto simp: contiguous_ram [OF ok] unat_gt_0 word_gt_0)
      from ledger_some [OF this] show ?thesis unfolding PContig pmm_step.simps .
    qed
  next
    case (PRetain p)
    show ?thesis
    proof (cases "p < BITMAP_BITS")
      case True
      obtain v s' where r: "pmm_retain_page (of_nat p * 4096) s = (v, s')" by fastforce
      have same: "is_ram q s' = is_ram q s" "max_page s' = max_page s" for q
        using r by (auto simp: pmm_retain_page_def Let_def split: if_splits)
      have "unat (page_refs s p + 1) = Suc (unat (page_refs s p))" if "page_refs s p \<noteq> 0xFFFF"
        using that unsigned_less [of "page_refs s p", where 'a = nat] by (simp add: unat_word_ariths word_unat_eq_iff)
      moreover have "0 < L p" if "page_refs s p \<noteq> 0" using that refs [of p] by (metis unat_gt_0)
      ultimately show ?thesis using retain_page_spec [OF ok True r] assms refs [of p] r PRetain True
        by (auto simp: ledger_ok_def same)
    qed (use PRetain assms in simp)
  next
    case (PFree p)
    show ?thesis
    proof (cases "0 < L p")
      case True
      then have "page_refs s p \<noteq> 0" using refs [of p] by (metis unat_0 less_irrefl)
      with True have p: "p \<in> pool" "0 < p" "p < BITMAP_BITS" "page_refs s p \<noteq> 0" "is_ram p s" "p \<le> unat (max_page s)"
        using assms by (auto simp: ledger_ok_def)
      from free_page_spec [OF ok p(2-6)] obtain s' where f: "pmm_free_page (of_nat p * 4096) s = Some s'" "pmm_ok s'"
        "page_refs s' = (page_refs s)(p := page_refs s p - 1)"
        "free_set s' = (if page_refs s p = 1 then insert p (free_set s) else free_set s)" by blast
      have same: "is_ram q s' = is_ram q s" "max_page s' = max_page s" for q
        using f(1) by (auto simp: pmm_free_page_def Let_def split: if_splits)
      have d: "unat (page_refs s p - 1) = L p - 1" using refs [of p] p(4) by (metis unat_minus_one)
      have one: "page_refs s p = 1 \<longleftrightarrow> L p = 1" using refs [of p] by (simp add: word_unat_eq_iff)
      have "ledger_ok pool (L(p := L p - 1)) s'"
        using assms f(2-4) p(1) d True unfolding one by (auto simp: ledger_ok_def same split: if_splits)
      with f(1) PFree True show ?thesis by simp
    qed (use PFree assms in simp)
  qed
qed

lemma pmm_run_ledger:
  "ledger_ok pool L s \<Longrightarrow> \<exists>L' s'. pmm_run ops (L, s) = Some (L', s') \<and> ledger_ok pool L' s'"
proof (induction ops arbitrary: L s)
  case (Cons op ops)
  from pmm_step_ledger [OF Cons.prems, of op] obtain L1 s1 where
    "pmm_step op (L, s) = Some (L1, s1)" "ledger_ok pool L1 s1" by blast
  with Cons.IH [of L1 s1] show ?case by simp
qed simp

text \<open>The allocator as the kernel starts it: the map, the limit, then the boot modules.\<close>

definition pmm_boot :: "u64 \<Rightarrow> u32 \<Rightarrow> e820_entry list \<Rightarrow> u64 \<Rightarrow> u64 \<Rightarrow> (u64 \<times> u64) list \<Rightarrow> pmm_st \<Rightarrow> pmm_st option" where
  "pmm_boot len esize entries kernel_end limit modules s =
     map_option (\<lambda>s0. fold (\<lambda>(a, n). pmm_reserve a n) modules (pmm_set_alloc_limit limit s0))
       (pmm_init len esize entries kernel_end s)"

lemma pmm_boot_ok:
  assumes "pmm_boot len esize entries kernel_end limit modules s = Some s'"
  shows "pmm_ok s' \<and> page_refs s' = (\<lambda>_. 0)"
proof -
  obtain s0 where "pmm_init len esize entries kernel_end s = Some s0"
    "s' = fold (\<lambda>(a, n). pmm_reserve a n) modules (pmm_set_alloc_limit limit s0)"
    using assms by (auto simp: pmm_boot_def)
  moreover have "pmm_ok (fold (\<lambda>(a, n). pmm_reserve a n) ms t) \<and> page_refs (fold (\<lambda>(a, n). pmm_reserve a n) ms t) = page_refs t"
    if "pmm_ok t" for ms t
    using that by (induction ms arbitrary: t) (auto simp: pmm_reserve_ok)
  ultimately show ?thesis using pmm_init_ok set_alloc_limit_ok by simp
qed

section \<open>Properties\<close>

text \<open>
  C2. Pages are exclusive and none is lost. From the boot memory map, whatever the kernel
  allocates, retains and frees of what it holds, the allocator never panics; the count of
  every page is the number of references handed out and not yet returned; a page that is held
  is never in the free set, so no allocation can return it; and the free pages and the held
  pages together are always the pages the pool began with.
\<close>

theorem pages_exclusive:
  assumes "pmm_boot len esize entries kernel_end limit modules s0 = Some s"
  shows "\<exists>L s'. pmm_run ops (\<lambda>_. 0, s) = Some (L, s') \<and> (\<forall>p. unat (page_refs s' p) = L p)
    \<and> free_set s' \<inter> {p. 0 < L p} = {} \<and> free_set s' \<union> {p. 0 < L p} = free_set s
    \<and> unat (pmm_free_pages s') + card {p. 0 < L p} = unat (pmm_free_pages s)"
proof -
  note ok = pmm_boot_ok [OF assms]
  have "ledger_ok (free_set s) (\<lambda>_. 0) s" using ok by (auto simp: ledger_ok_def pmm_ok_def free_set_def)
  from pmm_run_ledger [OF this, of ops] obtain L s' where r: "pmm_run ops (\<lambda>_. 0, s) = Some (L, s')"
    and l: "ledger_ok (free_set s) L s'" by blast
  have fs: "free_set s' = free_set s - {p. 0 < L p}" "{p. 0 < L p} \<subseteq> free_set s" using l by (auto simp: ledger_ok_def)
  have "card (free_set s') + card {p. 0 < L p} = card (free_set s)"
    using fs finite_subset [OF fs(2)] card_mono [OF _ fs(2)] by (simp add: card_Diff_subset)
  then have "unat (pmm_free_pages s') + card {p. 0 < L p} = unat (pmm_free_pages s)"
    using l ok by (simp add: ledger_ok_def pmm_ok_def pmm_free_pages_def)
  with r l fs show ?thesis by (auto simp: ledger_ok_def)
qed


text \<open>
  An address mask of 44 bits and more, short of all ones, loses its upper bits in the page
  limit: the request fails however much memory is free.
\<close>

lemma contiguous_mask_truncated:
  "pmm_alloc_contiguous n 0xFFFFFFFFFFF s = (0, s) \<and> pmm_alloc_contiguous n 0xFFFFFFFFFFFF s = (0, s)"
proof -
  have z: "(4294967296 :: u32) = 0" "(68719476736 :: u32) = 0" by code_simp+
  have "contiguous_limit 0xFFFFFFFFFFF s = 0" "contiguous_limit 0xFFFFFFFFFFFF s = 0"
    by (simp_all add: contiguous_limit_def Let_def z)
  then show ?thesis by (simp add: pmm_alloc_contiguous_def word_gt_0)
qed

section \<open>Witnesses\<close>

definition no_memory :: pmm_st where
  "no_memory = \<lparr>bitmap = (\<lambda>_. 0), ram_bitmap = (\<lambda>_. 0), page_refs = (\<lambda>_. 0), free_pages = 0, max_page = 0,
     alloc_page_limit = 0, memory = (\<lambda>_. 0)\<rparr>"

definition one_entry :: "e820_entry list" where
  "one_entry = [\<lparr>e8_addr = 0x200000, e8_len = 0x10000, e8_type = 1, e8_acpi = 0\<rparr>]"

theorem pages_exclusive_witness:
  "\<exists>s L s'. pmm_boot 24 24 one_entry 0x180000 0x40000000 [] no_memory = Some s
    \<and> pmm_run [PAlloc, PRetain 0x200, PFree 0x200, PFree 0x200, PContig 3 0xFFFFFFFF] (\<lambda>_. 0, s) = Some (L, s')
    \<and> unat (pmm_free_pages s') + card {p. 0 < L p} = unat (pmm_free_pages s)"
proof -
  have "pmm_init 24 24 one_entry 0x180000 no_memory \<noteq> None" by (simp add: pmm_init_def Let_def)
  then obtain s where s: "pmm_boot 24 24 one_entry 0x180000 0x40000000 [] no_memory = Some s"
    unfolding pmm_boot_def by blast
  from pages_exclusive [OF s, of "[PAlloc, PRetain 0x200, PFree 0x200, PFree 0x200, PContig 3 0xFFFFFFFF]"] s
  show ?thesis by blast
qed




end
