(* ===== verification/Resources.thy ===== *)
theory Resources
  imports Bridge Pmm "HOL-Library.Multiset"
begin

text \<open>
  Resource objects, \<^verbatim>\<open>src/objects/resource.c\<close>: device memory, interrupts, contiguous memory for
  devices, PCI functions, interrupt tables, pages and shared memory, and scatter lists, each a
  table of slots behind objects of the capability layer. Physical pages come from the allocator
  of \<open>Pmm\<close>. A backend registered as a function pointer is the function of what it answers, and
  calls to it are recorded; a panic, from which the kernel does not return, is recorded with its
  message.
\<close>

section \<open>State\<close>

definition KOBJECT_IRQ :: u32 where "KOBJECT_IRQ = 2"
definition KOBJECT_MMIO :: u32 where "KOBJECT_MMIO = 4"
definition KOBJECT_DMA :: u32 where "KOBJECT_DMA = 5"
definition KOBJECT_PCI :: u32 where "KOBJECT_PCI = 6"
definition KOBJECT_MSIX_TABLE :: u32 where "KOBJECT_MSIX_TABLE = 9"
definition KOBJECT_SG_LIST :: u32 where "KOBJECT_SG_LIST = 12"

definition RESOURCE_MMIO_MAX :: nat where "RESOURCE_MMIO_MAX = 32"
definition RESOURCE_IRQ_MAX :: nat where "RESOURCE_IRQ_MAX = 64"
definition RESOURCE_DMA_MAX :: nat where "RESOURCE_DMA_MAX = 32"
definition RESOURCE_PCI_MAX :: nat where "RESOURCE_PCI_MAX = 64"
definition RESOURCE_MSIX_MAX :: nat where "RESOURCE_MSIX_MAX = 32"
definition RESOURCE_PAGE_MAX :: nat where "RESOURCE_PAGE_MAX = 64"
definition RESOURCE_PAGE_PAGES_MAX :: nat where "RESOURCE_PAGE_PAGES_MAX = 64"
definition RESOURCE_SG_MAX :: nat where "RESOURCE_SG_MAX = 32"
definition RESOURCE_SG_ENTRY_MAX :: nat where "RESOURCE_SG_ENTRY_MAX = 32"

definition MMIO_CACHE_WB :: u32 where "MMIO_CACHE_WB = 3"
definition IRQ_TRIGGER_LEVEL :: u32 where "IRQ_TRIGGER_LEVEL = 1"
definition IRQ_POLARITY_LOW :: u32 where "IRQ_POLARITY_LOW = 1"
definition IRQ_CONTROLLER_IOAPIC :: u32 where "IRQ_CONTROLLER_IOAPIC = 0"
definition IRQ_CONTROLLER_MAX :: nat where "IRQ_CONTROLLER_MAX = 3"

record mmio_resource =
  mm_physical :: u64
  mm_length :: u64
  mm_cache_mode :: u32
  mm_active :: bool

record irq_resource =
  ir_controller :: u32
  ir_source :: u32
  ir_vector :: u32
  ir_trigger :: u32
  ir_polarity :: u32
  ir_masked :: bool
  ir_binding :: "nat option"
  ir_active :: bool

record dma_resource =
  dm_physical :: u64
  dm_bus_address :: u64
  dm_iommu_owner :: u32
  dm_pages :: u32
  dm_address_mask :: u64
  dm_active :: bool

record pci_bar_resource =
  pb_address :: u64
  pb_length :: u64
  pb_flags :: u32

record pci_resource =
  pc_segment :: u16
  pc_bus :: u8
  pc_device :: u8
  pc_function :: u8
  pc_vendor_id :: u16
  pc_device_id :: u16
  pc_class_code :: u8
  pc_subclass :: u8
  pc_programming_interface :: u8
  pc_revision :: u8
  pc_capability_flags :: u32
  pc_msi_offset :: u8
  pc_msix_offset :: u8
  pc_pcie_offset :: u8
  pc_bars :: "pci_bar_resource list"
  pc_active :: bool

record msix_table_resource =
  mx_pci :: "nat option"
  mx_table_bir :: u8
  mx_pba_bir :: u8
  mx_table_offset :: u32
  mx_pba_offset :: u32
  mx_entries :: u32
  mx_active :: bool

record page_resource =
  pg_physical :: "u64 list"
  pg_pages :: u32
  pg_pin_count :: u32
  pg_map_count :: u32
  pg_revoked :: bool
  pg_shared :: bool
  pg_active :: bool

record sg_resource_entry =
  se_page :: "nat option"
  se_physical :: u64
  se_page_index :: u32
  se_offset :: u32
  se_length :: u32

record sg_resource =
  sl_entries :: "sg_resource_entry list"
  sl_entry_count :: u32
  sl_total_length :: u32
  sl_revoked :: bool
  sl_active :: bool

text \<open>The calls the code makes into the interrupt controllers and the IOMMU.\<close>

datatype hw_call = Mask u32 u32 bool | Release u32 u32 | Unmap u32 u64 u32

record resources_st = bridges_st +
  mmio_resources :: "mmio_resource list"
  irq_resources :: "irq_resource list"
  dma_resources :: "dma_resource list"
  pci_resources :: "pci_resource list"
  msix_resources :: "msix_table_resource list"
  page_resources :: "page_resource list"
  sg_resources :: "sg_resource list"
  irq_mask_backends :: "(u32 \<Rightarrow> bool \<Rightarrow> int) option list"
  irq_release_backends :: "bool list"
  page_revoke_backend :: bool
  dma_iommu_unmap :: "(u32 \<Rightarrow> u64 \<Rightarrow> u32 \<Rightarrow> int) option"
  hw_calls :: "hw_call list"
  pmm :: pmm_st
  panicked :: "string option"

definition panic_str :: "string \<Rightarrow> 'a resources_st_scheme \<Rightarrow> 'a resources_st_scheme" where
  "panic_str message s = (if panicked s = None then s\<lparr>panicked := Some message\<rparr> else s)"

definition pg_upd :: "nat \<Rightarrow> (page_resource \<Rightarrow> page_resource) \<Rightarrow> 'a resources_st_scheme \<Rightarrow> 'a resources_st_scheme" where
  "pg_upd r f s = s\<lparr>page_resources := (page_resources s)[r := f (page_resources s ! r)]\<rparr>"

definition ir_upd :: "nat \<Rightarrow> (irq_resource \<Rightarrow> irq_resource) \<Rightarrow> 'a resources_st_scheme \<Rightarrow> 'a resources_st_scheme" where
  "ir_upd r f s = s\<lparr>irq_resources := (irq_resources s)[r := f (irq_resources s ! r)]\<rparr>"

definition dm_upd :: "nat \<Rightarrow> (dma_resource \<Rightarrow> dma_resource) \<Rightarrow> 'a resources_st_scheme \<Rightarrow> 'a resources_st_scheme" where
  "dm_upd r f s = s\<lparr>dma_resources := (dma_resources s)[r := f (dma_resources s ! r)]\<rparr>"

definition sl_upd :: "nat \<Rightarrow> (sg_resource \<Rightarrow> sg_resource) \<Rightarrow> 'a resources_st_scheme \<Rightarrow> 'a resources_st_scheme" where
  "sl_upd r f s = s\<lparr>sg_resources := (sg_resources s)[r := f (sg_resources s ! r)]\<rparr>"

section \<open>Slots\<close>

text \<open>
  The seven slot helpers differ in the type of object, the table and its activity flag: the slot
  an active object of that type names.
\<close>

definition typed_slot :: "u32 list \<Rightarrow> nat \<Rightarrow> (nat \<Rightarrow> bool) \<Rightarrow> nat option \<Rightarrow> 'a objects_st_scheme \<Rightarrow> nat option" where
  "typed_slot types limit active p s =
     (case p of None \<Rightarrow> None
      | Some i \<Rightarrow>
          let ob = objects s ! i
          in if \<not> ko_active ob \<or> ko_type ob \<notin> set types \<or> ko_value ob = 0 \<or> limit < unat (ko_value ob) then None
             else let r = unat (ko_value ob) - 1 in if active r then Some r else None)"

definition mmio_slot :: "nat option \<Rightarrow> 'a resources_st_scheme \<Rightarrow> nat option" where
  "mmio_slot p s = typed_slot [KOBJECT_MMIO] RESOURCE_MMIO_MAX (\<lambda>r. mm_active (mmio_resources s ! r)) p s"

definition irq_slot :: "nat option \<Rightarrow> 'a resources_st_scheme \<Rightarrow> nat option" where
  "irq_slot p s = typed_slot [KOBJECT_IRQ] RESOURCE_IRQ_MAX (\<lambda>r. ir_active (irq_resources s ! r)) p s"

definition dma_slot :: "nat option \<Rightarrow> 'a resources_st_scheme \<Rightarrow> nat option" where
  "dma_slot p s = typed_slot [KOBJECT_DMA] RESOURCE_DMA_MAX (\<lambda>r. dm_active (dma_resources s ! r)) p s"

definition pci_slot :: "nat option \<Rightarrow> 'a resources_st_scheme \<Rightarrow> nat option" where
  "pci_slot p s = typed_slot [KOBJECT_PCI] RESOURCE_PCI_MAX (\<lambda>r. pc_active (pci_resources s ! r)) p s"

definition msix_slot :: "nat option \<Rightarrow> 'a resources_st_scheme \<Rightarrow> nat option" where
  "msix_slot p s = typed_slot [KOBJECT_MSIX_TABLE] RESOURCE_MSIX_MAX (\<lambda>r. mx_active (msix_resources s ! r)) p s"

definition page_slot :: "nat option \<Rightarrow> 'a resources_st_scheme \<Rightarrow> nat option" where
  "page_slot p s =
     typed_slot [KOBJECT_PAGE, KOBJECT_SHARED_MEMORY] RESOURCE_PAGE_MAX (\<lambda>r. pg_active (page_resources s ! r)) p s"

definition sg_slot :: "nat option \<Rightarrow> 'a resources_st_scheme \<Rightarrow> nat option" where
  "sg_slot p s = typed_slot [KOBJECT_SG_LIST] RESOURCE_SG_MAX (\<lambda>r. sl_active (sg_resources s ! r)) p s"

text \<open>Pins; answer \<open>-1\<close> is a refusal.\<close>

definition page_pin_locked :: "nat option \<Rightarrow> 'a resources_st_scheme \<Rightarrow> int \<times> 'a resources_st_scheme" where
  "page_pin_locked p s =
     (case page_slot p s of
        None \<Rightarrow> (-1, s)
      | Some r \<Rightarrow>
          if pg_revoked (page_resources s ! r) \<or> pg_pin_count (page_resources s ! r) = 0xFFFFFFFF then (-1, s)
          else (case object_retain p s of
                  (False, s1) \<Rightarrow> (-1, s1)
                | (True, s1) \<Rightarrow> (0, pg_upd r (pg_pin_count_update (\<lambda>c. c + 1)) s1)))"

definition page_unpin_locked :: "nat option \<Rightarrow> 'a resources_st_scheme \<Rightarrow> int \<times> 'a resources_st_scheme" where
  "page_unpin_locked p s =
     (case page_slot p s of
        None \<Rightarrow> (-1, s)
      | Some r \<Rightarrow>
          if pg_pin_count (page_resources s ! r) = 0 then (-1, s)
          else (0, pg_upd r (pg_pin_count_update (\<lambda>c. c - 1)) s))"

section \<open>Destroying\<close>

definition destroyed_slot :: "nat \<Rightarrow> nat \<Rightarrow> 'a objects_st_scheme \<Rightarrow> nat option" where
  "destroyed_slot limit i s =
     (let v = ko_value (objects s ! i) in if v = 0 \<or> limit < unat v then None else Some (unat v - 1))"

definition mmio_destroy :: "nat \<Rightarrow> 'a resources_st_scheme \<Rightarrow> 'a resources_st_scheme" where
  "mmio_destroy i s =
     (case destroyed_slot RESOURCE_MMIO_MAX i s of
        None \<Rightarrow> s
      | Some r \<Rightarrow> s\<lparr>mmio_resources := (mmio_resources s)[r := \<lparr>mm_physical = 0, mm_length = 0, mm_cache_mode = 0,
                   mm_active = False\<rparr>]\<rparr>)"

definition hw :: "hw_call \<Rightarrow> 'a resources_st_scheme \<Rightarrow> 'a resources_st_scheme" where
  "hw c s = s\<lparr>hw_calls := hw_calls s @ [c]\<rparr>"

definition mask_line :: "u32 \<Rightarrow> u32 \<Rightarrow> bool \<Rightarrow> 'a resources_st_scheme \<Rightarrow> int \<times> 'a resources_st_scheme" where
  "mask_line controller source masked s =
     (case (if unat controller < IRQ_CONTROLLER_MAX then irq_mask_backends s ! unat controller else None) of
        None \<Rightarrow> (0, s) | Some f \<Rightarrow> (f source masked, hw (Mask controller source masked) s))"

definition release_line :: "u32 \<Rightarrow> u32 \<Rightarrow> 'a resources_st_scheme \<Rightarrow> 'a resources_st_scheme" where
  "release_line controller source s =
     (if unat controller < IRQ_CONTROLLER_MAX \<and> irq_release_backends s ! unat controller
      then hw (Release controller source) s else s)"

definition irq_destroy :: "nat \<Rightarrow> 'a resources_st_scheme \<Rightarrow> 'a resources_st_scheme" where
  "irq_destroy i s =
     (case destroyed_slot RESOURCE_IRQ_MAX i s of
        None \<Rightarrow> s
      | Some r \<Rightarrow>
          let t = irq_resources s ! r;
              s1 = ir_upd r (\<lambda>_. \<lparr>ir_controller = 0, ir_source = 0, ir_vector = 0, ir_trigger = 0, ir_polarity = 0,
                     ir_masked = True, ir_binding = None, ir_active = False\<rparr>) s;
              s2 = snd (mask_line (ir_controller t) (ir_source t) True s1);
              s3 = object_release bridge_dispatch (ir_binding t) s2
          in release_line (ir_controller t) (ir_source t) s3)"

text \<open>Giving pages back; the allocator panics on a page nobody holds.\<close>

definition free_one :: "u64 \<Rightarrow> 'a resources_st_scheme \<Rightarrow> 'a resources_st_scheme" where
  "free_one a s = (case pmm_free_page a (pmm s) of None \<Rightarrow> panic_str ''PMM'' s | Some p \<Rightarrow> s\<lparr>pmm := p\<rparr>)"

definition dma_list :: "dma_resource \<Rightarrow> u64 list" where
  "dma_list t = map (\<lambda>k. dm_physical t + of_nat k * 4096) [0..<unat (dm_pages t)]"

definition dma_destroy :: "nat \<Rightarrow> 'a resources_st_scheme \<Rightarrow> 'a resources_st_scheme" where
  "dma_destroy i s =
     (case destroyed_slot RESOURCE_DMA_MAX i s of
        None \<Rightarrow> s
      | Some r \<Rightarrow>
          let t = dma_resources s ! r;
              s1 = dm_upd r (\<lambda>_. \<lparr>dm_physical = 0, dm_bus_address = 0, dm_iommu_owner = 0, dm_pages = 0,
                     dm_address_mask = 0, dm_active = False\<rparr>) s;
              s2 = (if dm_active t \<and> dm_iommu_owner t \<noteq> 0
                    then (case dma_iommu_unmap s of
                            None \<Rightarrow> panic_str ''DMA IOMMU unmap'' s1
                          | Some f \<Rightarrow> (let s' = hw (Unmap (dm_iommu_owner t) (dm_bus_address t) (dm_pages t)) s1
                              in if f (dm_iommu_owner t) (dm_bus_address t) (dm_pages t) \<noteq> 0
                                 then panic_str ''DMA IOMMU unmap'' s' else s'))
                    else s1)
          in if dm_active t then fold free_one (dma_list t) s2 else s2)"

definition page_list :: "page_resource \<Rightarrow> u64 list" where
  "page_list t = take (unat (pg_pages t)) (pg_physical t)"

definition page_destroy :: "nat \<Rightarrow> 'a resources_st_scheme \<Rightarrow> 'a resources_st_scheme" where
  "page_destroy i s =
     (case destroyed_slot RESOURCE_PAGE_MAX i s of
        None \<Rightarrow> s
      | Some r \<Rightarrow>
          let t = page_resources s ! r
          in if \<not> pg_active t then s
             else (let s1 = (if pg_pin_count t \<noteq> 0 \<or> pg_map_count t \<noteq> 0
                             then panic_str ''page resource reference invariant'' s else s);
                       s2 = fold free_one (filter (\<lambda>a. a \<noteq> 0) (page_list t)) s1
                   in pg_upd r (\<lambda>t. \<lparr>pg_physical = map (\<lambda>k. if k < unat (pg_pages t) then 0 else pg_physical t ! k)
                          [0..<length (pg_physical t)], pg_pages = 0, pg_pin_count = 0, pg_map_count = 0, pg_revoked = False,
                          pg_shared = False, pg_active = False\<rparr>) s2))"

definition pci_destroy :: "nat \<Rightarrow> 'a resources_st_scheme \<Rightarrow> 'a resources_st_scheme" where
  "pci_destroy i s =
     (case destroyed_slot RESOURCE_PCI_MAX i s of
        None \<Rightarrow> s
      | Some r \<Rightarrow> s\<lparr>pci_resources := (pci_resources s)[r := (pci_resources s ! r)
                   \<lparr>pc_bars := replicate 6 \<lparr>pb_address = 0, pb_length = 0, pb_flags = 0\<rparr>, pc_active := False\<rparr>]\<rparr>)"

text \<open>The callbacks that release no object, and the three that do.\<close>

definition plain_dispatch :: "destroy_fn \<Rightarrow> nat \<Rightarrow> 'a resources_st_scheme \<Rightarrow> 'a resources_st_scheme" where
  "plain_dispatch d i s =
     (case d of mmio_destroy_fn \<Rightarrow> mmio_destroy i s
      | dma_destroy_fn \<Rightarrow> dma_destroy i s
      | page_destroy_fn \<Rightarrow> page_destroy i s
      | pci_destroy_fn \<Rightarrow> pci_destroy i s
      | _ \<Rightarrow> bridge_dispatch d i s)"

definition msix_destroy :: "nat \<Rightarrow> 'a resources_st_scheme \<Rightarrow> 'a resources_st_scheme" where
  "msix_destroy i s =
     (case destroyed_slot RESOURCE_MSIX_MAX i s of
        None \<Rightarrow> s
      | Some r \<Rightarrow>
          object_release plain_dispatch (mx_pci (msix_resources s ! r))
            (s\<lparr>msix_resources := (msix_resources s)[r := \<lparr>mx_pci = None, mx_table_bir = 0, mx_pba_bir = 0,
               mx_table_offset = 0, mx_pba_offset = 0, mx_entries = 0, mx_active = False\<rparr>]\<rparr>))"

definition blank_entry :: sg_resource_entry where
  "blank_entry = \<lparr>se_page = None, se_physical = 0, se_page_index = 0, se_offset = 0, se_length = 0\<rparr>"

text \<open>Unpinning the pages of a list of entries, first to last: which objects are to be released.\<close>

fun unpin_entries :: "nat option list \<Rightarrow> 'a resources_st_scheme \<Rightarrow> nat option list \<times> bool \<times> 'a resources_st_scheme" where
  "unpin_entries [] s = ([], False, s)"
| "unpin_entries (p # ps) s =
     (if p = None then unpin_entries ps s
      else (case page_unpin_locked p s of (result, s1) \<Rightarrow>
            case unpin_entries ps s1 of (unpin, failed, s2) \<Rightarrow>
              if result = 0 then (p # unpin, failed, s2) else (unpin, True, s2)))"

definition sg_destroy :: "nat \<Rightarrow> 'a resources_st_scheme \<Rightarrow> 'a resources_st_scheme" where
  "sg_destroy i s =
     (case destroyed_slot RESOURCE_SG_MAX i s of
        None \<Rightarrow> s
      | Some r \<Rightarrow>
          let t = sg_resources s ! r; n = unat (sl_entry_count t)
          in if \<not> sl_active t then s
             else (case unpin_entries (map se_page (take n (sl_entries t))) s of (unpin, failed, s1) \<Rightarrow>
               fold (object_release plain_dispatch) unpin
                 (sl_upd r (\<lambda>t. \<lparr>sl_entries = replicate n blank_entry @ drop n (sl_entries t), sl_entry_count = 0,
                    sl_total_length = 0, sl_revoked = False, sl_active = False\<rparr>) s1)))"

definition resource_dispatch :: "destroy_fn \<Rightarrow> nat \<Rightarrow> 'a resources_st_scheme \<Rightarrow> 'a resources_st_scheme" where
  "resource_dispatch d i s =
     (case d of irq_destroy_fn \<Rightarrow> irq_destroy i s
      | msix_destroy_fn \<Rightarrow> msix_destroy i s
      | sg_destroy_fn \<Rightarrow> sg_destroy i s
      | _ \<Rightarrow> plain_dispatch d i s)"

section \<open>Creating\<close>

definition resource_init :: "'a resources_st_scheme \<Rightarrow> 'a resources_st_scheme" where
  "resource_init s = s\<lparr>page_revoke_backend := False, dma_iommu_unmap := None,
     irq_mask_backends := replicate IRQ_CONTROLLER_MAX None, irq_release_backends := replicate IRQ_CONTROLLER_MAX False,
     mmio_resources := map (mm_active_update (\<lambda>_. False)) (mmio_resources s),
     irq_resources := map (ir_active_update (\<lambda>_. False)) (irq_resources s),
     dma_resources := map (dm_active_update (\<lambda>_. False)) (dma_resources s),
     pci_resources := map (pc_active_update (\<lambda>_. False)) (pci_resources s),
     msix_resources := map (mx_active_update (\<lambda>_. False)) (msix_resources s),
     page_resources := map (pg_active_update (\<lambda>_. False)) (page_resources s),
     sg_resources := map (sl_active_update (\<lambda>_. False)) (sg_resources s)\<rparr>"

definition irq_resource_set_backend ::
  "u32 \<Rightarrow> (u32 \<Rightarrow> bool \<Rightarrow> int) option \<Rightarrow> bool \<Rightarrow> 'a resources_st_scheme \<Rightarrow> int \<times> 'a resources_st_scheme" where
  "irq_resource_set_backend controller mask_fn release s =
     (if IRQ_CONTROLLER_MAX \<le> unat controller \<or> mask_fn = None then (-1, s)
      else (0, s\<lparr>irq_mask_backends := (irq_mask_backends s)[unat controller := mask_fn],
                 irq_release_backends := (irq_release_backends s)[unat controller := release]\<rparr>))"

definition mmio_resource_create ::
  "u64 \<Rightarrow> u64 \<Rightarrow> u32 \<Rightarrow> 'a resources_st_scheme \<Rightarrow> nat option \<times> 'a resources_st_scheme" where
  "mmio_resource_create physical len cache_mode s =
     (if len = 0 \<or> physical AND 0xFFF \<noteq> 0 \<or> len AND 0xFFF \<noteq> 0 \<or> cache_mode > MMIO_CACHE_WB
         \<or> len > - 1 - physical \<or> pmm_range_is_ram physical len (pmm s) then (None, s)
      else (case first_index (\<lambda>t. \<not> mm_active t) (mmio_resources s) of
          None \<Rightarrow> (None, s)
        | Some r \<Rightarrow>
            (case object_create KOBJECT_MMIO (of_nat (r + 1)) (Some mmio_destroy_fn)
                    (s\<lparr>mmio_resources := (mmio_resources s)[r := \<lparr>mm_physical = physical, mm_length = len,
                        mm_cache_mode = cache_mode, mm_active = True\<rparr>]\<rparr>) of
               (None, s1) \<Rightarrow> (None, s1\<lparr>mmio_resources := (mmio_resources s1)[r := (mmio_resources s1 ! r)\<lparr>mm_active := False\<rparr>]\<rparr>)
             | (Some ob, s1) \<Rightarrow> (Some ob, s1))))"

definition irq_create_kind_locked ::
  "u32 \<Rightarrow> u32 \<Rightarrow> u32 \<Rightarrow> u32 \<Rightarrow> u32 \<Rightarrow> 'a resources_st_scheme \<Rightarrow> nat option \<times> 'a resources_st_scheme" where
  "irq_create_kind_locked controller source vector trigger polarity s =
     (case first_index (\<lambda>t. \<not> ir_active t) (irq_resources s) of
        None \<Rightarrow> (None, s)
      | Some r \<Rightarrow>
          (case object_create KOBJECT_IRQ (of_nat (r + 1)) (Some irq_destroy_fn)
                  (ir_upd r (\<lambda>_. \<lparr>ir_controller = controller, ir_source = source, ir_vector = vector, ir_trigger = trigger,
                     ir_polarity = polarity, ir_masked = True, ir_binding = None, ir_active = True\<rparr>) s) of
             (None, s1) \<Rightarrow> (None, ir_upd r (ir_active_update (\<lambda>_. False)) s1)
           | (Some ob, s1) \<Rightarrow> (Some ob, s1)))"

definition irq_resource_create_kind ::
  "u32 \<Rightarrow> u32 \<Rightarrow> u32 \<Rightarrow> u32 \<Rightarrow> u32 \<Rightarrow> 'a resources_st_scheme \<Rightarrow> nat option \<times> 'a resources_st_scheme" where
  "irq_resource_create_kind controller source vector trigger polarity s =
     (if IRQ_CONTROLLER_MAX \<le> unat controller \<or> vector < 32 \<or> vector > 255 \<or> trigger > IRQ_TRIGGER_LEVEL
         \<or> polarity > IRQ_POLARITY_LOW then (None, s)
      else irq_create_kind_locked controller source vector trigger polarity s)"

definition irq_resource_create ::
  "u32 \<Rightarrow> u32 \<Rightarrow> u32 \<Rightarrow> u32 \<Rightarrow> 'a resources_st_scheme \<Rightarrow> nat option \<times> 'a resources_st_scheme" where
  "irq_resource_create source vector trigger polarity s =
     irq_create_kind_locked IRQ_CONTROLLER_IOAPIC source vector trigger polarity s"

definition irq_resource_bind :: "nat option \<Rightarrow> nat option \<Rightarrow> 'a resources_st_scheme \<Rightarrow> int \<times> 'a resources_st_scheme" where
  "irq_resource_bind irq target s =
     (case target of
        None \<Rightarrow> (-1, s)
      | Some b \<Rightarrow>
          if ko_type (objects s ! b) \<noteq> KOBJECT_EVENT \<and> ko_type (objects s ! b) \<noteq> KOBJECT_ENDPOINT then (-1, s)
          else (case irq_slot irq s of
              None \<Rightarrow> (-1, s)
            | Some r \<Rightarrow>
                if \<not> ko_active (objects s ! b) \<or> ir_binding (irq_resources s ! r) \<noteq> None
                   \<or> \<not> ir_masked (irq_resources s ! r) then (-1, s)
                else (case object_retain target s of
                    (False, s1) \<Rightarrow> (-1, s1)
                  | (True, s1) \<Rightarrow> (0, ir_upd r (ir_binding_update (\<lambda>_. target)) s1))))"

definition irq_resource_unbind :: "nat option \<Rightarrow> 'a resources_st_scheme \<Rightarrow> int \<times> 'a resources_st_scheme" where
  "irq_resource_unbind irq s =
     (case irq_slot irq s of
        None \<Rightarrow> (-1, s)
      | Some r \<Rightarrow>
          let t = irq_resources s ! r
          in if ir_binding t = None then (-1, s)
             else (let s1 = ir_upd r (\<lambda>t. t\<lparr>ir_masked := True, ir_binding := None\<rparr>) s;
                       (masked, s2) = (if \<not> ir_masked t then mask_line (ir_controller t) (ir_source t) True s1 else (0, s1))
                   in if masked \<noteq> 0
                      then (-1, if irq_slot irq s2 = Some r then ir_upd r (ir_masked_update (\<lambda>_. False)) s2 else s2)
                      else (0, object_release bridge_dispatch (ir_binding t) s2)))"

definition irq_resource_set_mask :: "nat option \<Rightarrow> bool \<Rightarrow> 'a resources_st_scheme \<Rightarrow> int \<times> 'a resources_st_scheme" where
  "irq_resource_set_mask irq masked s =
     (case irq_slot irq s of
        None \<Rightarrow> (-1, s)
      | Some r \<Rightarrow>
          let t = irq_resources s ! r
          in if (\<not> masked \<and> ir_binding t = None) \<or> IRQ_CONTROLLER_MAX \<le> unat (ir_controller t)
                \<or> irq_mask_backends s ! unat (ir_controller t) = None then (-1, s)
             else mask_line (ir_controller t) (ir_source t) masked (ir_upd r (ir_masked_update (\<lambda>_. masked)) s))"

definition irq_resource_signal :: "nat option \<Rightarrow> 'a resources_st_scheme \<Rightarrow> int \<times> 'a resources_st_scheme" where
  "irq_resource_signal irq s =
     (case irq_slot irq s of
        None \<Rightarrow> (-1, s)
      | Some r \<Rightarrow>
          (case ir_binding (irq_resources s ! r) of
             None \<Rightarrow> (-1, s)
           | Some b \<Rightarrow>
               if ir_masked (irq_resources s ! r) then (-1, s)
               else if ko_type (objects s ! b) = KOBJECT_EVENT then event_signal (Some b) s
               else if ko_type (objects s ! b) = KOBJECT_ENDPOINT
               then endpoint_signal (Some b) (ir_source (irq_resources s ! r)) s
               else (-1, s)))"

text \<open>Zeroing a range of physical memory.\<close>

definition zero_bytes :: "u64 \<Rightarrow> nat \<Rightarrow> pmm_st \<Rightarrow> pmm_st" where
  "zero_bytes a n p = p\<lparr>memory := (\<lambda>x. if a \<le> x \<and> unat (x - a) < n then 0 else memory p x)\<rparr>"

definition dma_resource_allocate ::
  "u32 \<Rightarrow> u64 \<Rightarrow> 'a resources_st_scheme \<Rightarrow> nat option \<times> 'a resources_st_scheme" where
  "dma_resource_allocate pages address_mask s =
     (if pages = 0 \<or> pages > 256 \<or> address_mask < 0xFFFFF then (None, s)
      else (case first_index (\<lambda>t. \<not> dm_active t) (dma_resources s) of
          None \<Rightarrow> (None, s)
        | Some r \<Rightarrow>
            (case pmm_alloc_contiguous pages address_mask (pmm s) of (physical, p) \<Rightarrow>
               if physical = 0 then (None, s\<lparr>pmm := p\<rparr>)
               else (let t = \<lparr>dm_physical = physical, dm_bus_address = physical, dm_iommu_owner = 0, dm_pages = pages,
                           dm_address_mask = address_mask, dm_active = True\<rparr>;
                         s1 = dm_upd r (\<lambda>_. t) (s\<lparr>pmm := zero_bytes physical (unat pages * 4096) p\<rparr>)
                     in case object_create KOBJECT_DMA (of_nat (r + 1)) (Some dma_destroy_fn) s1 of
                          (None, s2) \<Rightarrow> (None, dm_upd r (dm_active_update (\<lambda>_. False)) (fold free_one (dma_list t) s2))
                        | (Some ob, s2) \<Rightarrow> (Some ob, s2)))))"

definition dma_resource_set_iommu_backend ::
  "(u32 \<Rightarrow> u64 \<Rightarrow> u32 \<Rightarrow> int) option \<Rightarrow> 'a resources_st_scheme \<Rightarrow> int \<times> 'a resources_st_scheme" where
  "dma_resource_set_iommu_backend unmap s =
     (if unmap = None \<or> dma_iommu_unmap s \<noteq> None then (-1, s) else (0, s\<lparr>dma_iommu_unmap := unmap\<rparr>))"

definition dma_resource_bind_iommu ::
  "nat option \<Rightarrow> u32 \<Rightarrow> u64 \<Rightarrow> 'a resources_st_scheme \<Rightarrow> int \<times> 'a resources_st_scheme" where
  "dma_resource_bind_iommu p owner address s =
     (if owner = 0 \<or> address = 0 \<or> address AND 0xFFF \<noteq> 0 \<or> dma_iommu_unmap s = None then (-1, s)
      else (case dma_slot p s of
          None \<Rightarrow> (-1, s)
        | Some r \<Rightarrow>
            if dm_iommu_owner (dma_resources s ! r) \<noteq> 0 then (-1, s)
            else (0, dm_upd r (\<lambda>t. t\<lparr>dm_bus_address := address, dm_iommu_owner := owner\<rparr>) s)))"

definition pci_resource_create :: "pci_resource option \<Rightarrow> 'a resources_st_scheme \<Rightarrow> nat option \<times> 'a resources_st_scheme" where
  "pci_resource_create description s =
     (case description of
        None \<Rightarrow> (None, s)
      | Some d \<Rightarrow>
          if pc_device d > 31 \<or> pc_function d > 7 \<or> pc_vendor_id d = 0xFFFF then (None, s)
          else (case first_index (\<lambda>t. \<not> pc_active t) (pci_resources s) of
              None \<Rightarrow> (None, s)
            | Some r \<Rightarrow>
                (case object_create KOBJECT_PCI (of_nat (r + 1)) (Some pci_destroy_fn)
                        (s\<lparr>pci_resources := (pci_resources s)[r := d\<lparr>pc_active := True\<rparr>]\<rparr>) of
                   (None, s1) \<Rightarrow> (None, s1\<lparr>pci_resources := (pci_resources s1)[r := (pci_resources s1 ! r)\<lparr>pc_active := False\<rparr>]\<rparr>)
                 | (Some ob, s1) \<Rightarrow> (Some ob, s1))))"

definition msix_table_resource_create ::
  "nat option \<Rightarrow> u8 \<Rightarrow> u32 \<Rightarrow> u8 \<Rightarrow> u32 \<Rightarrow> u32 \<Rightarrow> 'a resources_st_scheme \<Rightarrow> nat option \<times> 'a resources_st_scheme" where
  "msix_table_resource_create pci table_bir table_offset pba_bir pba_offset entries s =
     (if table_bir \<ge> 6 \<or> pba_bir \<ge> 6 \<or> entries = 0 \<or> entries > 2048 \<or> pci_slot pci s = None then (None, s)
      else (case first_index (\<lambda>t. \<not> mx_active t) (msix_resources s) of
          None \<Rightarrow> (None, s)
        | Some r \<Rightarrow>
            (case object_retain pci s of
               (False, s1) \<Rightarrow> (None, s1)
             | (True, s1) \<Rightarrow>
                 (let t = \<lparr>mx_pci = pci, mx_table_bir = table_bir, mx_pba_bir = pba_bir, mx_table_offset = table_offset,
                         mx_pba_offset = pba_offset, mx_entries = entries, mx_active = True\<rparr>;
                      s2 = s1\<lparr>msix_resources := (msix_resources s1)[r := t]\<rparr>
                  in case object_create KOBJECT_MSIX_TABLE (of_nat (r + 1)) (Some msix_destroy_fn) s2 of
                       (None, s3) \<Rightarrow> (None, object_release plain_dispatch pci
                          (s3\<lparr>msix_resources := (msix_resources s3)[r := t\<lparr>mx_active := False, mx_pci := None\<rparr>]\<rparr>))
                     | (Some ob, s3) \<Rightarrow> (Some ob, s3)))))"

definition resource_active_count :: "u32 \<Rightarrow> 'a resources_st_scheme \<Rightarrow> nat" where
  "resource_active_count object_type s =
     (if object_type = KOBJECT_MMIO then count_if mm_active (mmio_resources s) else 0)
     + (if object_type = KOBJECT_IRQ then count_if ir_active (irq_resources s) else 0)
     + (if object_type = KOBJECT_DMA then count_if dm_active (dma_resources s) else 0)
     + (if object_type = KOBJECT_PCI then count_if pc_active (pci_resources s) else 0)
     + (if object_type = KOBJECT_MSIX_TABLE then count_if mx_active (msix_resources s) else 0)
     + (if object_type = KOBJECT_PAGE \<or> object_type = KOBJECT_SHARED_MEMORY
        then count_if (\<lambda>t. pg_active t \<and> (object_type = KOBJECT_PAGE \<and> \<not> pg_shared t
               \<or> object_type = KOBJECT_SHARED_MEMORY \<and> pg_shared t)) (page_resources s) else 0)
     + (if object_type = KOBJECT_SG_LIST then count_if sl_active (sg_resources s) else 0)"

section \<open>Pages and shared memory\<close>

definition page_resource_set_revoke_backend :: "bool \<Rightarrow> 'a resources_st_scheme \<Rightarrow> int \<times> 'a resources_st_scheme" where
  "page_resource_set_revoke_backend revoke s =
     (if \<not> revoke then (-1, s) else (0, s\<lparr>page_revoke_backend := True\<rparr>))"

text \<open>Pages taken one at a time until there are enough or the allocator has none.\<close>

fun take_pages :: "nat \<Rightarrow> pmm_st \<Rightarrow> u64 list \<times> pmm_st" where
  "take_pages 0 p = ([], p)"
| "take_pages (Suc n) p =
     (case pmm_alloc_page p of (a, p1) \<Rightarrow>
        if a = 0 then ([], p1) else (case take_pages n p1 of (as, p2) \<Rightarrow> (a # as, p2)))"

definition page_allocate_locked ::
  "u32 \<Rightarrow> bool \<Rightarrow> 'a resources_st_scheme \<Rightarrow> nat option \<times> 'a resources_st_scheme" where
  "page_allocate_locked pages shared s =
     (if pages = 0 \<or> RESOURCE_PAGE_PAGES_MAX < unat pages then (None, s)
      else (case first_index (\<lambda>t. \<not> pg_active t) (page_resources s) of
          None \<Rightarrow> (None, s)
        | Some r \<Rightarrow>
            (case take_pages (unat pages) (pmm s) of (as, p) \<Rightarrow>
               (let filled = as @ replicate (RESOURCE_PAGE_PAGES_MAX - length as) 0;
                    s1 = pg_upd r (\<lambda>t. t\<lparr>pg_physical := filled\<rparr>) (s\<lparr>pmm := p\<rparr>)
                in if length as \<noteq> unat pages then (None, fold free_one (rev as) s1)
                   else (let s2 = pg_upd r (\<lambda>t. t\<lparr>pg_pages := pages, pg_pin_count := 0, pg_map_count := 0, pg_revoked := False,
                               pg_shared := shared, pg_active := True\<rparr>) s1
                         in case object_create (if shared then KOBJECT_SHARED_MEMORY else KOBJECT_PAGE) (of_nat (r + 1))
                                   (Some page_destroy_fn) s2 of
                              (None, s3) \<Rightarrow> (None, pg_upd r (\<lambda>t. t\<lparr>pg_active := False, pg_pages := 0\<rparr>) (fold free_one as s3))
                            | (Some ob, s3) \<Rightarrow> (Some ob, s3))))))"

definition page_resource_create :: "'a resources_st_scheme \<Rightarrow> nat option \<times> 'a resources_st_scheme" where
  "page_resource_create s = page_allocate_locked 1 False s"

definition shared_memory_resource_create :: "u32 \<Rightarrow> 'a resources_st_scheme \<Rightarrow> nat option \<times> 'a resources_st_scheme" where
  "shared_memory_resource_create pages s = page_allocate_locked pages True s"

text \<open>The address a device may use for part of a page, 0 if there is none.\<close>

definition page_resource_dma_address :: "nat option \<Rightarrow> u32 \<Rightarrow> u32 \<Rightarrow> 'a resources_st_scheme \<Rightarrow> u64" where
  "page_resource_dma_address p offset len s =
     (case page_slot p s of
        None \<Rightarrow> 0
      | Some r \<Rightarrow>
          let t = page_resources s ! r; size_all = unat (pg_pages t) * 4096;
              page = unat offset div 4096; page_off = unat offset mod 4096; physical = pg_physical t ! page
          in if pg_revoked t \<or> len = 0 \<or> size_all \<le> unat offset \<or> size_all - unat offset < unat len
                \<or> 4096 < page_off + unat len \<or> physical = 0
                \<or> physical + of_nat page_off + of_nat (unat len) > 0x40000000 then 0
             else physical + of_nat page_off)"

definition page_resource_pin :: "nat option \<Rightarrow> 'a resources_st_scheme \<Rightarrow> int \<times> 'a resources_st_scheme" where
  "page_resource_pin p s = page_pin_locked p s"

definition page_resource_unpin :: "nat option \<Rightarrow> 'a resources_st_scheme \<Rightarrow> int \<times> 'a resources_st_scheme" where
  "page_resource_unpin p s =
     (case page_unpin_locked p s of (result, s1) \<Rightarrow>
        (result, if result = 0 then object_release resource_dispatch p s1 else s1))"

definition page_resource_mapping_open :: "nat option \<Rightarrow> 'a resources_st_scheme \<Rightarrow> int \<times> 'a resources_st_scheme" where
  "page_resource_mapping_open p s =
     (case page_slot p s of
        None \<Rightarrow> (-1, s)
      | Some r \<Rightarrow>
          if pg_revoked (page_resources s ! r) \<or> pg_map_count (page_resources s ! r) = 0xFFFFFFFF then (-1, s)
          else (0, pg_upd r (pg_map_count_update (\<lambda>c. c + 1)) s))"

definition page_resource_mapping_close :: "nat option \<Rightarrow> 'a resources_st_scheme \<Rightarrow> 'a resources_st_scheme" where
  "page_resource_mapping_close p s =
     (case page_slot p s of
        None \<Rightarrow> s
      | Some r \<Rightarrow>
          if pg_map_count (page_resources s ! r) \<noteq> 0 then pg_upd r (pg_map_count_update (\<lambda>c. c - 1)) s else s)"

text \<open>
  The revoke backend, \<^verbatim>\<open>vm64_revoke_object_all\<close>, unmaps the object everywhere: each unmap closes
  one mapping and gives back the reference it held. How many mappings there are and whether an
  unmap failed is what the address spaces answer, \<open>(unmapped, answer)\<close>.
\<close>

definition unmap_one :: "nat option \<Rightarrow> 'a resources_st_scheme \<Rightarrow> 'a resources_st_scheme" where
  "unmap_one p s = object_release resource_dispatch p (page_resource_mapping_close p s)"

definition page_resource_revoke ::
  "nat \<Rightarrow> int \<Rightarrow> nat option \<Rightarrow> 'a resources_st_scheme \<Rightarrow> int \<times> 'a resources_st_scheme" where
  "page_resource_revoke unmapped answer p s =
     (case page_slot p s of
        None \<Rightarrow> (-1, s)
      | Some r0 \<Rightarrow>
          if pg_revoked (page_resources s ! r0) then (-1, s)
          else (let s1 = (if page_revoke_backend s then (unmap_one p ^^ unmapped) s else s)
                in if page_revoke_backend s \<and> answer \<noteq> 0 then (-1, s1)
                   else (case page_slot p s1 of
                       None \<Rightarrow> (-1, s1)
                     | Some r \<Rightarrow>
                         (let s2 = pg_upd r (pg_revoked_update (\<lambda>_. True)) s1; t = page_resources s2 ! r
                          in (if pg_map_count t \<noteq> 0 \<or> pg_pin_count t \<noteq> 0 then -1 else 0, s2)))))"

definition page_resource_grow :: "nat option \<Rightarrow> u32 \<Rightarrow> 'a resources_st_scheme \<Rightarrow> int \<times> 'a resources_st_scheme" where
  "page_resource_grow p pages s =
     (if pages = 0 \<or> RESOURCE_PAGE_PAGES_MAX < unat pages then (-1, s)
      else (case page_slot p s of
          None \<Rightarrow> (-1, s)
        | Some r \<Rightarrow>
            let t = page_resources s ! r; old = unat (pg_pages t)
            in if pg_revoked t \<or> pages \<le> pg_pages t then (-1, s)
               else (case take_pages (unat pages - old) (pmm s) of (as, q) \<Rightarrow>
                 (let s1 = pg_upd r (\<lambda>t. t\<lparr>pg_physical := take old (pg_physical t) @ as @ drop (old + length as) (pg_physical t)\<rparr>)
                             (s\<lparr>pmm := q\<rparr>)
                  in if length as \<noteq> unat pages - old then (-1, fold free_one (rev as) s1)
                     else (0, pg_upd r (\<lambda>t. t\<lparr>pg_pages := pages\<rparr>)
                            (s1\<lparr>pmm := fold (\<lambda>a. zero_bytes a 4096) as (pmm s1)\<rparr>))))))"

definition page_resource_trim :: "nat option \<Rightarrow> u32 \<Rightarrow> 'a resources_st_scheme \<Rightarrow> int \<times> 'a resources_st_scheme" where
  "page_resource_trim p pages s =
     (case page_slot p s of
        None \<Rightarrow> (-1, s)
      | Some r \<Rightarrow>
          let t = page_resources s ! r; n = unat pages; old = unat (pg_pages t)
          in if pg_revoked t \<or> pg_pages t \<le> pages \<or> pg_map_count t \<noteq> 0 \<or> pg_pin_count t \<noteq> 0 then (-1, s)
             else (0, pg_upd r (\<lambda>t. t\<lparr>pg_physical := take n (pg_physical t) @ replicate (old - n) 0 @ drop old (pg_physical t),
                         pg_pages := pages\<rparr>)
                    (fold free_one (drop n (page_list t)) s)))"

section \<open>Scatter lists\<close>

text \<open>The checks of a list of (page object, page index, offset, length), summing up the lengths.\<close>

fun sg_total :: "(nat option \<times> u32 \<times> u32 \<times> u32) list \<Rightarrow> u32 \<Rightarrow> 'a resources_st_scheme \<Rightarrow> u32 option" where
  "sg_total [] acc s = Some acc"
| "sg_total ((p, index, offset, len) # rest) acc s =
     (case page_slot p s of
        None \<Rightarrow> None
      | Some r \<Rightarrow>
          if pg_revoked (page_resources s ! r) \<or> pg_pages (page_resources s ! r) \<le> index \<or> 4096 \<le> offset \<or> len = 0
             \<or> len > 4096 - offset \<or> len > 0xFFFFFFFF - acc then None
          else sg_total rest (acc + len) s)"

fun pin_entries :: "(nat option \<times> u32 \<times> u32 \<times> u32) list \<Rightarrow> 'a resources_st_scheme
    \<Rightarrow> sg_resource_entry list \<times> 'a resources_st_scheme" where
  "pin_entries [] s = ([], s)"
| "pin_entries ((p, index, offset, len) # rest) s =
     (case page_pin_locked p s of (result, s1) \<Rightarrow>
        if result \<noteq> 0 then ([], s1)
        else (let e = \<lparr>se_page = p,
                    se_physical = pg_physical (page_resources s1 ! the (page_slot p s1)) ! unat index + ucast offset,
                    se_page_index = index, se_offset = offset, se_length = len\<rparr>
              in case pin_entries rest s1 of (es, s2) \<Rightarrow> (e # es, s2)))"

definition sg_resource_create ::
  "(nat option \<times> u32 \<times> u32 \<times> u32) list \<Rightarrow> 'a resources_st_scheme \<Rightarrow> nat option \<times> 'a resources_st_scheme" where
  "sg_resource_create reqs s =
     (if reqs = [] \<or> RESOURCE_SG_ENTRY_MAX < length reqs then (None, s)
      else (case sg_total reqs 0 s of
          None \<Rightarrow> (None, s)
        | Some size_all \<Rightarrow>
            (case first_index (\<lambda>t. \<not> sl_active t) (sg_resources s) of
               None \<Rightarrow> (None, s)
             | Some slot \<Rightarrow>
                 (case pin_entries reqs s of (es, s1) \<Rightarrow>
                    (let n = length es;
                         fill = (\<lambda>es. es @ replicate (RESOURCE_SG_ENTRY_MAX - length es) blank_entry);
                         undone = map (se_page_update (\<lambda>_. None)) es
                     in if n \<noteq> length reqs
                        then (case unpin_entries (rev (map se_page es)) s1 of (unpin, failed, s2) \<Rightarrow>
                                (None, fold (object_release resource_dispatch) (rev unpin)
                                   (sl_upd slot (\<lambda>t. t\<lparr>sl_entries := fill undone\<rparr>) s2)))
                        else (let s2 = sl_upd slot (\<lambda>t. \<lparr>sl_entries = fill es, sl_entry_count = of_nat n, sl_total_length = size_all,
                                    sl_revoked = False, sl_active = True\<rparr>) s1
                              in case object_create KOBJECT_SG_LIST (of_nat (slot + 1)) (Some sg_destroy_fn) s2 of
                                   (Some ob, s3) \<Rightarrow> (Some ob, s3)
                                 | (None, s3) \<Rightarrow>
                                     (case unpin_entries (rev (map se_page es)) s3 of (unpin, failed, s4) \<Rightarrow>
                                        (None, fold (object_release resource_dispatch) (rev unpin)
                                           (sl_upd slot (\<lambda>t. \<lparr>sl_entries = fill undone, sl_entry_count = 0, sl_total_length = 0,
                                              sl_revoked = sl_revoked t, sl_active = False\<rparr>) s4)))))))))"

definition sg_resource_revoke :: "nat option \<Rightarrow> 'a resources_st_scheme \<Rightarrow> int \<times> 'a resources_st_scheme" where
  "sg_resource_revoke p s =
     (case sg_slot p s of
        None \<Rightarrow> (-1, s)
      | Some r \<Rightarrow>
          let t = sg_resources s ! r; n = unat (sl_entry_count t)
          in if sl_revoked t then (-1, s)
             else (case unpin_entries (map se_page (take n (sl_entries t))) (sl_upd r (sl_revoked_update (\<lambda>_. True)) s) of
                 (unpin, failed, s1) \<Rightarrow>
                   (if failed then -1 else 0,
                    fold (object_release resource_dispatch) unpin
                      (sl_upd r (\<lambda>t. t\<lparr>sl_entries := map (se_page_update (\<lambda>_. None)) (take n (sl_entries t))
                         @ drop n (sl_entries t)\<rparr>) s1))))"

definition sg_resource_usable :: "nat option \<Rightarrow> 'a resources_st_scheme \<Rightarrow> bool" where
  "sg_resource_usable p s =
     (case sg_slot p s of
        None \<Rightarrow> False
      | Some r \<Rightarrow>
          let t = sg_resources s ! r
          in \<not> sl_revoked t \<and> list_all (\<lambda>e. case page_slot (se_page e) s of None \<Rightarrow> False
               | Some q \<Rightarrow> \<not> pg_revoked (page_resources s ! q)) (take (unat (sl_entry_count t)) (sl_entries t)))"

section \<open>The pages the resources hold\<close>

definition addr :: "nat \<Rightarrow> u64" where "addr p = of_nat p * 4096"

definition held_pages :: "page_resource \<Rightarrow> u64 list" where
  "held_pages t = (if pg_active t then page_list t else [])"

definition held_dma :: "dma_resource \<Rightarrow> u64 list" where
  "held_dma t = (if dm_active t then dma_list t else [])"

definition held_of :: "page_resource list \<Rightarrow> dma_resource list \<Rightarrow> u64 multiset" where
  "held_of ps ds = mset (concat (map held_pages ps)) + mset (concat (map held_dma ds))"

definition held :: "'a resources_st_scheme \<Rightarrow> u64 multiset" where
  "held s = held_of (page_resources s) (dma_resources s)"

definition ledger :: "u64 multiset \<Rightarrow> nat \<Rightarrow> nat" where
  "ledger M q = (if q < BITMAP_BITS then count M (addr q) else 0)"

definition led :: "nat set \<Rightarrow> u64 multiset \<Rightarrow> pmm_st \<Rightarrow> bool" where
  "led pool M p \<longleftrightarrow> ledger_ok pool (ledger M) p \<and> set_mset M \<subseteq> addr ` (pool - {0}) \<and> (\<forall>a. count M a \<le> 1)"

lemma addr_inj: "p < BITMAP_BITS \<Longrightarrow> q < BITMAP_BITS \<Longrightarrow> addr p = addr q \<longleftrightarrow> p = q"
  unfolding addr_def using page_address(1) [of p] page_address(1) [of q] by metis

lemma addr_zero [simp]: "addr 0 = 0"
  by (simp add: addr_def)

lemma addr_nonzero: "0 < p \<Longrightarrow> p < BITMAP_BITS \<Longrightarrow> addr p \<noteq> 0"
  using addr_inj [of p 0] by fastforce

lemma addr_add: "addr p + of_nat k * 4096 = addr (p + k)"
  by (simp only: addr_def of_nat_add distrib_right)

lemma led_pool: "led pool M p \<Longrightarrow> q \<in> pool \<Longrightarrow> q < BITMAP_BITS"
  by (auto simp: led_def ledger_ok_def)

lemma led_takes:
  assumes led: "led pool M p" and t: "takes n p r q" and n: "0 < n"
    and ram: "\<And>k. is_ram k (snd r) = is_ram k p" "max_page (snd r) = max_page p"
  shows "fst r = addr q \<and> fst r \<noteq> 0 \<and> led pool (mset (map (\<lambda>k. fst r + of_nat k * 4096) [0..<n]) + M) (snd r)"
proof -
  have f: "{q..<q + n} \<subseteq> free_set p" "0 < q" "fst r = addr q" using t by (auto simp: takes_def addr_def)
  then have sm: "{q..<q + n} \<subseteq> pool - {0}" "\<And>k. k \<in> {q..<q + n} \<Longrightarrow> k < BITMAP_BITS \<and> ledger M k = 0"
    using led by (auto simp: led_def ledger_ok_def free_set_def)
  have qb: "q < BITMAP_BITS" using sm(2) [of q] n by simp
  have nz: "fst r \<noteq> 0" using addr_nonzero [OF f(2) qb] f(3) by simp
  define X where "X = map addr [q..<q + n]"
  have m: "map (\<lambda>k. fst r + of_nat k * 4096) [0..<n] = X"
    unfolding X_def by (rule nth_equalityI) (simp_all add: f(3) addr_add)
  have sx: "set X = addr ` {q..<q + n}" by (simp add: X_def)
  have "distinct X" using sm(2) by (auto simp: X_def distinct_map inj_on_def addr_inj)
  then have cm: "count (mset X) a = (if a \<in> set X then 1 else 0)" for a unfolding distinct_count_atmost_1 by blast
  have c0: "count M (addr k) = 0" if "k \<in> {q..<q + n}" for k using sm(2) [OF that] unfolding ledger_def by (simp split: if_splits)
  have L: "ledger (mset X + M) = (\<lambda>k. if k \<in> {q..<q + n} then 1 else ledger M k)"
  proof
    fix k
    show "ledger (mset X + M) k = (if k \<in> {q..<q + n} then 1 else ledger M k)"
    proof (cases "k < BITMAP_BITS")
      case True
      have "addr k \<in> set X \<longleftrightarrow> k \<in> {q..<q + n}" unfolding sx using True sm(2) addr_inj by blast
      then show ?thesis using True c0 [of k] by (simp add: ledger_def cm)
    next
      case False
      then show ?thesis using sm(2) [of k] by (auto simp: ledger_def)
    qed
  qed
  have "unat (fst r div 4096) = q" using page_address(1) [OF qb] by (simp add: f(3) addr_def)
  then have g: "grant n r (ledger M) = (\<lambda>k. if k \<in> {q..<q + n} then 1 else ledger M k, snd r)"
    using nz by (simp add: grant_def)
  have "ledger_ok pool (ledger M) p" using led by (simp add: led_def)
  from takes_ledger [OF this _ n ram] t have "ledger_ok pool (ledger (mset X + M)) (snd r)" unfolding g L by auto
  moreover have "set_mset (mset X + M) \<subseteq> addr ` (pool - {0})" using led sm(1) unfolding led_def set_mset_union set_mset_mset sx by blast
  moreover have "count (mset X + M) a \<le> 1" for a
  proof (cases "a \<in> set X")
    case True
    then obtain k where "k \<in> {q..<q + n}" "a = addr k" unfolding sx by blast
    then show ?thesis using c0 [of k] True by (simp add: cm)
  next
    case False
    then show ?thesis using led by (simp add: cm led_def)
  qed
  ultimately show ?thesis unfolding m using f(3) nz by (simp add: led_def)
qed

lemma led_pmm_ok: "led pool M p \<Longrightarrow> pmm_ok p"
  by (simp add: led_def ledger_ok_def)

lemma led_memory [simp]: "led pool M (p\<lparr>memory := m\<rparr>) = led pool M p"
  by (simp add: led_def ledger_ok_def pmm_ok_def free_set_def used_def is_ram_def)

lemma alloc_page_ram:
  "is_ram k (snd (pmm_alloc_page p)) = is_ram k p" "max_page (snd (pmm_alloc_page p)) = max_page p"
  by (auto simp: pmm_alloc_page_def take_first_ram split: option.split)

lemma led_alloc:
  assumes "led pool M p" and "pmm_alloc_page p = (a, p')"
  shows "if a = 0 then led pool M p' else led pool (add_mset a M) p'"
proof -
  consider "pmm_alloc_page p = (0, p)" | q where "takes 1 p (pmm_alloc_page p) q"
    using alloc_page_spec [OF led_pmm_ok [OF assms(1)]] by blast
  then show ?thesis
  proof cases
    case 1
    then show ?thesis using assms by simp
  next
    case 2
    from led_takes [OF assms(1) this _ alloc_page_ram] show ?thesis by (auto simp: assms(2))
  qed
qed

lemma led_contig:
  assumes "led pool M p" and "pmm_alloc_contiguous n m p = (a, p')" and "n \<noteq> 0"
  shows "if a = 0 then led pool M p' else led pool (mset (map (\<lambda>k. a + of_nat k * 4096) [0..<unat n]) + M) p'"
proof -
  have n: "0 < n" "0 < unat n" using assms(3) by (auto simp: word_gt_0 unat_gt_0)
  note ok = led_pmm_ok [OF assms(1)]
  consider "pmm_alloc_contiguous n m p = (0, p)" | q where "takes (unat n) p (pmm_alloc_contiguous n m p) q"
    using contiguous_spec [OF ok n(1) refl] by blast
  then show ?thesis
  proof cases
    case 1
    then show ?thesis using assms by simp
  next
    case 2
    from led_takes [OF assms(1) this n(2) contiguous_ram [OF ok]] show ?thesis unfolding assms(2) by auto
  qed
qed

lemma led_free:
  assumes "led pool (add_mset a M) p"
  shows "\<exists>p'. pmm_free_page a p = Some p' \<and> led pool M p'"
proof -
  have "a \<in> addr ` (pool - {0})" using assms by (simp add: led_def)
  then obtain q where q: "a = addr q" "q \<in> pool" by blast
  have qb: "q < BITMAP_BITS" by (rule led_pool [OF assms q(2)])
  have L: "(ledger (add_mset a M))(q := ledger (add_mset a M) q - 1) = ledger M"
  proof
    fix k
    show "((ledger (add_mset a M))(q := ledger (add_mset a M) q - 1)) k = ledger M k"
      using qb addr_inj [OF qb, of k] unfolding ledger_def q(1) by (cases "k = q") auto
  qed
  have "0 < ledger (add_mset a M) q" unfolding ledger_def q(1) if_P [OF qb] by simp
  moreover have "ledger_ok pool (ledger (add_mset a M)) p" using assms by (simp add: led_def)
  from pmm_step_ledger [OF this, of "PFree q"] obtain L' p' where
    "pmm_step (PFree q) (ledger (add_mset a M), p) = Some (L', p')" "ledger_ok pool L' p'" by blast
  ultimately have "pmm_free_page (of_nat q * 4096) p = Some p'" "ledger_ok pool (ledger M) p'"
    unfolding pmm_step.simps L by (auto split: if_splits)
  moreover have "set_mset M \<subseteq> addr ` (pool - {0})" "count M b \<le> 1" for b
  proof -
    show "set_mset M \<subseteq> addr ` (pool - {0})" using assms by (simp add: led_def)
    have "count M b \<le> count (add_mset a M) b" by simp
    also have "\<dots> \<le> 1" using assms unfolding led_def by blast
    finally show "count M b \<le> 1" .
  qed
  ultimately show ?thesis unfolding q(1) addr_def led_def by blast
qed

lemma free_list:
  assumes "led pool (mset as + M) (pmm s)"
  shows "led pool M (pmm (fold free_one as s)) \<and> page_resources (fold free_one as s) = page_resources s
    \<and> dma_resources (fold free_one as s) = dma_resources s \<and> panicked (fold free_one as s) = panicked s"
  using assms
proof (induction as arbitrary: s)
  case (Cons a as)
  have "led pool (add_mset a (mset as + M)) (pmm s)" using Cons.prems by simp
  from led_free [OF this] obtain p where p: "pmm_free_page a (pmm s) = Some p" "led pool (mset as + M) p" by blast
  then have "free_one a s = s\<lparr>pmm := p\<rparr>" by (simp add: free_one_def)
  with Cons.IH [of "s\<lparr>pmm := p\<rparr>"] p(2) show ?case by simp
qed simp

lemma take_pages_led:
  "led pool M p \<Longrightarrow> take_pages n p = (as, p') \<Longrightarrow> led pool (mset as + M) p' \<and> length as \<le> n \<and> 0 \<notin> set as"
proof (induction n arbitrary: M p as p')
  case (Suc n)
  obtain a p1 where a: "pmm_alloc_page p = (a, p1)" by fastforce
  obtain bs p2 where b: "take_pages n p1 = (bs, p2)" by fastforce
  show ?case
  proof (cases "a = 0")
    case True
    then show ?thesis using Suc.prems led_alloc [OF Suc.prems(1) a] a by simp
  next
    case False
    then have l: "led pool (add_mset a M) p1" using led_alloc [OF Suc.prems(1) a] by simp
    from Suc.IH [OF l b] show ?thesis using Suc.prems(2) a b False by auto
  qed
qed simp

lemma concat_slot:
  assumes "i < length xs"
  shows "\<exists>R. mset (concat (map g xs)) = mset (g (xs ! i)) + R
     \<and> (\<forall>x. mset (concat (map g (xs[i := x]))) = mset (g x) + R)"
proof (intro exI conjI allI)
  let ?R = "mset (concat (map g (take i xs))) + mset (concat (map g (drop (Suc i) xs)))"
  have "mset (concat (map g xs)) = mset (concat (map g (take i xs @ xs ! i # drop (Suc i) xs)))"
    using arg_cong [OF id_take_nth_drop [OF assms], of "\<lambda>ys. mset (concat (map g ys))"] .
  also have "\<dots> = mset (g (xs ! i)) + ?R" by simp
  finally show "mset (concat (map g xs)) = mset (g (xs ! i)) + ?R" .
  show "mset (concat (map g (xs[i := x]))) = mset (g x) + ?R" for x
    unfolding upd_conv_take_nth_drop [OF assms] by simp
qed

lemma held_slot:
  "r < length ps \<Longrightarrow> \<exists>R. held_of ps ds = mset (held_pages (ps ! r)) + R
     \<and> (\<forall>t. held_of (ps[r := t]) ds = mset (held_pages t) + R)"
  "r < length ds \<Longrightarrow> \<exists>R. held_of ps ds = mset (held_dma (ds ! r)) + R
     \<and> (\<forall>t. held_of ps (ds[r := t]) = mset (held_dma t) + R)"
  using concat_slot [of r ps held_pages] concat_slot [of r ds held_dma] by (auto simp: held_of_def)

text \<open>
  The invariant: what the active resources name is what the allocator has handed out, one
  reference each.
\<close>

definition res_ok :: "nat set \<Rightarrow> 'a resources_st_scheme \<Rightarrow> bool" where
  "res_ok pool s \<longleftrightarrow> led pool (held s) (pmm s) \<and> length (page_resources s) = RESOURCE_PAGE_MAX
     \<and> length (dma_resources s) = RESOURCE_DMA_MAX
     \<and> (\<forall>t \<in> set (page_resources s). length (pg_physical t) = RESOURCE_PAGE_PAGES_MAX
          \<and> (pg_active t \<longrightarrow> unat (pg_pages t) \<le> RESOURCE_PAGE_PAGES_MAX))
     \<and> panicked s \<noteq> Some ''PMM''"

lemma res_ok_cong:
  "page_resources s' = page_resources s \<Longrightarrow> dma_resources s' = dma_resources s \<Longrightarrow> pmm s' = pmm s
     \<Longrightarrow> panicked s' = panicked s \<Longrightarrow> res_ok pool s' = res_ok pool s"
  by (simp add: res_ok_def held_def)

lemma res_okD:
  assumes "res_ok pool s"
  shows "led pool (held s) (pmm s)" "length (page_resources s) = RESOURCE_PAGE_MAX" "length (dma_resources s) = RESOURCE_DMA_MAX"
    "panicked s \<noteq> Some ''PMM''"
    "r < RESOURCE_PAGE_MAX \<Longrightarrow> length (pg_physical (page_resources s ! r)) = RESOURCE_PAGE_PAGES_MAX"
    "r < RESOURCE_PAGE_MAX \<Longrightarrow> pg_active (page_resources s ! r) \<Longrightarrow> unat (pg_pages (page_resources s ! r)) \<le> RESOURCE_PAGE_PAGES_MAX"
  using assms nth_mem [of r "page_resources s"] by (auto simp: res_ok_def)

lemma res_ok_pages:
  assumes "res_ok pool s" and "led pool (held_of ((page_resources s)[r := t]) (dma_resources s)) (pmm s')"
    and "page_resources s' = (page_resources s)[r := t]" and "dma_resources s' = dma_resources s"
    and "panicked s' \<noteq> Some ''PMM''" and "length (pg_physical t) = RESOURCE_PAGE_PAGES_MAX"
    and "pg_active t \<Longrightarrow> unat (pg_pages t) \<le> RESOURCE_PAGE_PAGES_MAX"
  shows "res_ok pool s'"
  using assms unfolding res_ok_def held_def by (auto dest!: subsetD [OF set_update_subset_insert])

lemma pg_upd_ok:
  assumes ok: "res_ok pool s" and "\<And>t. held_pages (f t) = held_pages t"
    and "\<And>t. length (pg_physical (f t)) = length (pg_physical t)"
    and "\<And>t. pg_active (f t) \<Longrightarrow> pg_active t \<and> pg_pages (f t) = pg_pages t"
  shows "res_ok pool (pg_upd r f s)"
proof (cases "r < RESOURCE_PAGE_MAX")
  case True
  let ?t = "f (page_resources s ! r)"
  from held_slot(1) [of r "page_resources s" "dma_resources s"] True res_okD(2) [OF ok]
  have "held_of ((page_resources s)[r := ?t]) (dma_resources s) = held s" by (auto simp: assms(2) held_def)
  then show ?thesis using res_okD [OF ok] True assms(3,4)
    by (intro res_ok_pages [OF ok, of r ?t]) (auto simp: pg_upd_def)
next
  case False
  then have "page_resources (pg_upd r f s) = page_resources s" using res_okD(2) [OF ok]
    by (simp add: pg_upd_def list_update_beyond not_less)
  then show ?thesis using ok res_ok_cong [of "pg_upd r f s" s] by (simp add: pg_upd_def)
qed

lemma panic_ok: "res_ok pool s \<Longrightarrow> m \<noteq> ''PMM'' \<Longrightarrow> res_ok pool (panic_str m s)"
  by (auto simp: panic_str_def res_ok_def held_def)

lemma panic_frame [simp]:
  "page_resources (panic_str m s) = page_resources s" "dma_resources (panic_str m s) = dma_resources s"
  "pmm (panic_str m s) = pmm s"
  by (simp_all add: panic_str_def)

lemma held_nonzero: "led pool (mset as + M) p \<Longrightarrow> 0 \<notin> set as"
proof
  assume led: "led pool (mset as + M) p" and "0 \<in> set as"
  then have "0 \<in># mset as + M" by simp
  with led obtain q where "0 = addr q" "q \<in> pool - {0}" unfolding led_def by blast
  with addr_nonzero [of q] led_pool [OF led, of q] show False by simp
qed

lemma destroyed_slot_bound: "destroyed_slot n i s = Some r \<Longrightarrow> r < n"
  by (auto simp: destroyed_slot_def Let_def word_unat_eq_iff split: if_splits)

lemma page_destroy_ok:
  assumes ok: "res_ok pool s"
  shows "res_ok pool (page_destroy i s)"
proof (cases "destroyed_slot RESOURCE_PAGE_MAX i s")
  case (Some r)
  let ?t = "page_resources s ! r"
  show ?thesis
  proof (cases "pg_active ?t")
    case True
    note d = res_okD [OF ok]
    have r: "r < RESOURCE_PAGE_MAX" by (rule destroyed_slot_bound [OF Some])
    define s1 where "s1 = (if pg_pin_count ?t \<noteq> 0 \<or> pg_map_count ?t \<noteq> 0
      then panic_str ''page resource reference invariant'' s else s)"
    have s1: "page_resources s1 = page_resources s" "dma_resources s1 = dma_resources s" "pmm s1 = pmm s" "panicked s1 \<noteq> Some ''PMM''"
      using d(4) by (auto simp: s1_def panic_str_def)
    obtain R where R: "held s = mset (page_list ?t) + R"
      "\<And>t. held_of ((page_resources s)[r := t]) (dma_resources s) = mset (held_pages t) + R"
      using held_slot(1) [of r "page_resources s" "dma_resources s"] r d(2) True by (auto simp: held_def held_pages_def)
    have nz: "filter (\<lambda>a. a \<noteq> 0) (page_list ?t) = page_list ?t"
      using held_nonzero [of pool "page_list ?t" R "pmm s"] d(1) R(1) by (simp add: filter_id_conv) metis
    define s2 where "s2 = fold free_one (page_list ?t) s1"
    have "led pool (mset (page_list ?t) + R) (pmm s1)" using d(1) R(1) s1(3) by simp
    note fl = free_list [OF this, folded s2_def]
    let ?f = "\<lambda>t. \<lparr>pg_physical = map (\<lambda>k. if k < unat (pg_pages t) then 0 else pg_physical t ! k) [0..<length (pg_physical t)],
      pg_pages = 0, pg_pin_count = 0, pg_map_count = 0, pg_revoked = False, pg_shared = False, pg_active = False\<rparr>"
    have e: "page_destroy i s = pg_upd r ?f s2" using Some True by (simp add: page_destroy_def Let_def nz s2_def s1_def)
    have pr: "page_resources s2 = page_resources s" using fl s1(1) by simp
    have "page_resources (pg_upd r ?f s2) = (page_resources s)[r := ?f ?t]" unfolding pg_upd_def pr by simp
    then show ?thesis unfolding e using fl s1 d(5) [OF r] R(2) [of "?f ?t"]
      by (intro res_ok_pages [OF ok, of r "?f ?t"]) (auto simp: pg_upd_def held_pages_def)
  qed (use ok Some in \<open>simp add: page_destroy_def\<close>)
qed (use ok in \<open>simp add: page_destroy_def\<close>)

lemma res_ok_dma:
  assumes "res_ok pool s" and "led pool (held_of (page_resources s) ((dma_resources s)[r := t])) (pmm s')"
    and "dma_resources s' = (dma_resources s)[r := t]" and "page_resources s' = page_resources s"
    and "panicked s' \<noteq> Some ''PMM''"
  shows "res_ok pool s'"
  using assms by (simp add: res_ok_def held_def)

lemma hw_frame [simp]:
  "page_resources (hw c s) = page_resources s" "dma_resources (hw c s) = dma_resources s" "pmm (hw c s) = pmm s"
  "panicked (hw c s) = panicked s"
  by (simp_all add: hw_def)

lemma dma_destroy_ok:
  assumes ok: "res_ok pool s"
  shows "res_ok pool (dma_destroy i s)"
proof (cases "destroyed_slot RESOURCE_DMA_MAX i s")
  case (Some r)
  let ?t = "dma_resources s ! r"
  let ?u = "\<lparr>dm_physical = 0, dm_bus_address = 0, dm_iommu_owner = 0, dm_pages = 0, dm_address_mask = 0, dm_active = False\<rparr>"
  note d = res_okD [OF ok]
  have r: "r < length (dma_resources s)" using destroyed_slot_bound [OF Some] d(3) by simp
  obtain R where R: "held s = mset (held_dma ?t) + R"
    "\<And>t. held_of (page_resources s) ((dma_resources s)[r := t]) = mset (held_dma t) + R"
    using held_slot(2) [OF r, of "page_resources s"] by (auto simp: held_def)
  define s2 where "s2 = (if dm_active ?t \<and> dm_iommu_owner ?t \<noteq> 0
      then (case dma_iommu_unmap s of
              None \<Rightarrow> panic_str ''DMA IOMMU unmap'' (dm_upd r (\<lambda>_. ?u) s)
            | Some f \<Rightarrow> (let s' = hw (Unmap (dm_iommu_owner ?t) (dm_bus_address ?t) (dm_pages ?t)) (dm_upd r (\<lambda>_. ?u) s)
                in if f (dm_iommu_owner ?t) (dm_bus_address ?t) (dm_pages ?t) \<noteq> 0
                   then panic_str ''DMA IOMMU unmap'' s' else s'))
      else dm_upd r (\<lambda>_. ?u) s)"
  have s2: "page_resources s2 = page_resources s" "dma_resources s2 = (dma_resources s)[r := ?u]" "pmm s2 = pmm s"
    "panicked s2 \<noteq> Some ''PMM''"
    using d(4) by (auto simp: s2_def dm_upd_def panic_str_def Let_def hw_def split: option.split)
  have e: "dma_destroy i s = fold free_one (held_dma ?t) s2"
    using Some by (simp add: dma_destroy_def s2_def Let_def held_dma_def)
  have "led pool (mset (held_dma ?t) + R) (pmm s2)" using d(1) R(1) s2(3) by simp
  from free_list [OF this] show ?thesis unfolding e using s2 R(2) [of ?u]
    by (intro res_ok_dma [OF ok, of r ?u]) (auto simp: held_dma_def)
qed (use ok in \<open>simp add: dma_destroy_def\<close>)

text \<open>The callbacks of the lower layers change none of the resource tables.\<close>

lemma more_obj_upd [simp]: "bridges_st.more (obj_upd i f s) = bridges_st.more s"
  by (simp add: obj_upd_def)

lemma more_release:
  assumes "\<And>d i s. bridges_st.more (D d i s) = bridges_st.more s"
  shows "bridges_st.more (object_release D p s) = bridges_st.more s"
  by (auto simp: object_release_def Let_def assms split: option.split)

lemma res_ok_more: "bridges_st.more s' = bridges_st.more s \<Longrightarrow> res_ok pool s' = res_ok pool s"
  by (cases s; cases s') (simp add: res_ok_def held_def)

lemma more_of_events: "events_st.more s' = events_st.more s \<Longrightarrow> bridges_st.more s' = bridges_st.more s"
  by (cases s; cases s') simp

lemma more_event_destroy [simp]: "bridges_st.more (event_destroy i s) = bridges_st.more s"
  by (rule more_of_events) simp

lemma more_bridge_cleanup [simp]: "bridges_st.more (bridge_cleanup c s) = bridges_st.more s"
proof -
  have "bridges_st.more (event_dispatch d i s) = bridges_st.more s" for d i and s :: "'a bridges_st_scheme"
    by (simp add: event_dispatch_def)
  note this [THEN more_release]
  moreover have "bridges_st.more (br_upd b f s) = bridges_st.more s" for b f by (simp add: br_upd_def)
  ultimately show ?thesis by (simp add: bridge_cleanup_def Let_def split: option.split)
qed

lemma more_bridge_dispatch [simp]: "bridges_st.more (bridge_dispatch d i s) = bridges_st.more s"
proof -
  have "bridges_st.more (en_upd e f s) = bridges_st.more s" for e f and s :: "'a bridges_st_scheme" by (simp add: en_upd_def)
  then have "bridges_st.more (endpoint_destroy i s) = bridges_st.more s"
    by (simp add: endpoint_destroy_def Let_def split: option.split endpoint_fn.split)
  then show ?thesis by (simp add: bridge_dispatch_def split: destroy_fn.split)
qed

section \<open>Every operation keeps it\<close>

lemma obj_upd_res [simp]: "res_ok pool (obj_upd i f s) = res_ok pool s"
  by (rule res_ok_more) simp

lemma release_ok:
  assumes "\<And>d i s. res_ok pool s \<Longrightarrow> res_ok pool (D d i s)" and "res_ok pool s"
  shows "res_ok pool (object_release D p s)"
  using assms by (auto simp: object_release_def Let_def split: option.split)

lemma releases_ok:
  assumes "\<And>d i s. res_ok pool s \<Longrightarrow> res_ok pool (D d i s)" and "res_ok pool s"
  shows "res_ok pool (fold (object_release D) ps s)"
  using assms(2)
proof (induction ps arbitrary: s)
  case (Cons p ps)
  have "res_ok pool (object_release D p s)" using Cons.prems by (intro release_ok assms(1))
  from Cons.IH [OF this] show ?case by simp
qed simp

lemma retain_ok [simp]: "res_ok pool (snd (object_retain p s)) = res_ok pool s"
  by (auto simp: object_retain_def object_retain_locked_def Let_def split: option.split)

lemma retain_res: "object_retain p s = (b, s') \<Longrightarrow> res_ok pool s' = res_ok pool s"
  using retain_ok [of pool p s] by simp

lemma create_more: "object_create ty v d s = (ob, s') \<Longrightarrow> bridges_st.more s' = bridges_st.more s"
  by (auto simp: object_create_def split: if_splits option.splits)

lemma create_res: "object_create ty v d s = (ob, s') \<Longrightarrow> res_ok pool s' = res_ok pool s"
  by (rule res_ok_more, rule create_more)

lemma pin_ok: "res_ok pool s \<Longrightarrow> page_pin_locked p s = (v, s') \<Longrightarrow> res_ok pool s'"
  by (auto simp: page_pin_locked_def held_pages_def page_list_def retain_res split: option.splits if_splits prod.splits bool.splits
      intro!: pg_upd_ok)

lemma unpin_ok: "res_ok pool s \<Longrightarrow> page_unpin_locked p s = (v, s') \<Longrightarrow> res_ok pool s'"
  by (auto simp: page_unpin_locked_def held_pages_def page_list_def split: option.splits if_splits intro!: pg_upd_ok)

lemma unpin_entries_ok: "res_ok pool s \<Longrightarrow> unpin_entries ps s = (u, f, s') \<Longrightarrow> res_ok pool s'"
proof (induction ps arbitrary: s u f s')
  case (Cons p ps)
  show ?case
  proof (cases "p = None")
    case False
    obtain v s1 where v: "page_unpin_locked p s = (v, s1)" by fastforce
    obtain u' f' s2 where u: "unpin_entries ps s1 = (u', f', s2)" by (metis prod_cases3)
    from Cons.IH [OF unpin_ok [OF Cons.prems(1) v] u] show ?thesis using Cons.prems(2) False v u by (auto split: if_splits)
  qed (use Cons in auto)
qed simp

lemma res_fields [simp]:
  "res_ok pool (s\<lparr>hw_calls := h\<rparr>) = res_ok pool s" "res_ok pool (s\<lparr>irq_resources := i\<rparr>) = res_ok pool s"
  "res_ok pool (s\<lparr>sg_resources := g\<rparr>) = res_ok pool s" "res_ok pool (s\<lparr>msix_resources := m\<rparr>) = res_ok pool s"
  "res_ok pool (s\<lparr>mmio_resources := d\<rparr>) = res_ok pool s" "res_ok pool (s\<lparr>pci_resources := c\<rparr>) = res_ok pool s"
  by (rule res_ok_cong; simp)+

lemma line_ok [simp]:
  "res_ok pool (snd (mask_line c n m s)) = res_ok pool s" "res_ok pool (release_line c n s) = res_ok pool s"
  "res_ok pool (ir_upd r f s) = res_ok pool s" "res_ok pool (sl_upd r g s) = res_ok pool s"
  by (auto simp: mask_line_def release_line_def hw_def ir_upd_def sl_upd_def split: option.split)

lemma bridge_dispatch_ok: "res_ok pool s \<Longrightarrow> res_ok pool (bridge_dispatch d i s)"
  using res_ok_more [OF more_bridge_dispatch] by blast

lemma plain_dispatch_ok: "res_ok pool s \<Longrightarrow> res_ok pool (plain_dispatch d i s)"
proof -
  assume ok: "res_ok pool s"
  have "res_ok pool (mmio_destroy i s)" "res_ok pool (pci_destroy i s)"
    using ok by (simp_all add: mmio_destroy_def pci_destroy_def split: option.split)
  with ok show ?thesis
    by (auto simp: plain_dispatch_def page_destroy_ok dma_destroy_ok bridge_dispatch_ok split: destroy_fn.split)
qed

lemma resource_dispatch_ok: "res_ok pool s \<Longrightarrow> res_ok pool (resource_dispatch d i s)"
proof -
  assume ok: "res_ok pool s"
  have "res_ok pool (irq_destroy i s)"
    using ok by (auto simp: irq_destroy_def Let_def split: option.split intro!: release_ok bridge_dispatch_ok)
  moreover have "res_ok pool (msix_destroy i s)"
    using ok by (auto simp: msix_destroy_def split: option.split intro!: release_ok plain_dispatch_ok)
  moreover have "res_ok pool (sg_destroy i s)"
    using ok by (auto simp: sg_destroy_def Let_def split: option.split prod.split
        intro!: releases_ok plain_dispatch_ok dest: unpin_entries_ok [OF ok])
  ultimately show ?thesis using ok by (auto simp: resource_dispatch_def plain_dispatch_ok split: destroy_fn.split)
qed

lemma release_any: "res_ok pool s \<Longrightarrow> res_ok pool (object_release resource_dispatch p s)"
  by (intro release_ok resource_dispatch_ok)

lemma releases_any: "res_ok pool s \<Longrightarrow> res_ok pool (fold (object_release resource_dispatch) ps s)"
  by (intro releases_ok resource_dispatch_ok)

lemma create_frame_res:
  assumes "object_create ty v d s = (ob, s')"
  shows "page_resources s' = page_resources s" "dma_resources s' = dma_resources s" "pmm s' = pmm s" "panicked s' = panicked s"
  using create_more [OF assms] by (cases s; cases s'; simp)+

lemma page_allocate_ok:
  assumes ok: "res_ok pool s"
  shows "res_ok pool (snd (page_allocate_locked pages shared s))"
proof (cases "pages = 0 \<or> RESOURCE_PAGE_PAGES_MAX < unat pages")
  case bounds: False
  show ?thesis
  proof (cases "first_index (\<lambda>t. \<not> pg_active t) (page_resources s)")
    case (Some r)
    note d = res_okD [OF ok]
    have r: "r < length (page_resources s)" "\<not> pg_active (page_resources s ! r)" using first_indexD [OF Some] by auto
    obtain as p where tp: "take_pages (unat pages) (pmm s) = (as, p)" by fastforce
    define filled where "filled = as @ replicate (RESOURCE_PAGE_PAGES_MAX - length as) 0"
    define t1 where "t1 = (page_resources s ! r)\<lparr>pg_physical := filled\<rparr>"
    define t2 where "t2 = t1\<lparr>pg_pages := pages, pg_pin_count := 0, pg_map_count := 0, pg_revoked := False,
      pg_shared := shared, pg_active := True\<rparr>"
    define s1 where "s1 = s\<lparr>pmm := p, page_resources := (page_resources s)[r := t1]\<rparr>"
    define s2 where "s2 = s\<lparr>pmm := p, page_resources := (page_resources s)[r := t2]\<rparr>"
    have tl: "led pool (mset as + held s) p" "length as \<le> unat pages" using take_pages_led [OF d(1) tp] by auto
    then have fl: "length filled = RESOURCE_PAGE_PAGES_MAX" using bounds by (simp add: filled_def)
    obtain R where R: "held s = R" "\<And>t. held_of ((page_resources s)[r := t]) (dma_resources s) = mset (held_pages t) + R"
      using held_slot(1) [OF r(1), of "dma_resources s"] r(2) by (auto simp: held_def held_pages_def)
    have e1: "pg_upd r (\<lambda>t. t\<lparr>pg_physical := filled\<rparr>) (s\<lparr>pmm := p\<rparr>) = s1" by (simp add: s1_def pg_upd_def t1_def)
    have e2: "pg_upd r (\<lambda>t. t\<lparr>pg_pages := pages, pg_pin_count := 0, pg_map_count := 0, pg_revoked := False,
        pg_shared := shared, pg_active := True\<rparr>) s1 = s2" using r(1) by (simp add: s1_def s2_def pg_upd_def t2_def)
    show ?thesis
    proof (cases "length as = unat pages")
      case False
      have "led pool (mset (rev as) + R) (pmm s1)" using tl(1) R(1) by (simp add: s1_def)
      note f = free_list [OF this]
      have "res_ok pool (fold free_one (rev as) s1)"
        using f d(4) fl r(2) R(2) [of t1]
        by (intro res_ok_pages [OF ok, of r t1]) (auto simp: s1_def t1_def held_pages_def)
      then show ?thesis using bounds Some tp False by (simp add: page_allocate_locked_def Let_def e1 filled_def [symmetric])
    next
      case True
      have hp: "held_pages t2 = as" using True by (simp add: held_pages_def page_list_def t2_def t1_def filled_def)
      have ok2: "res_ok pool s2" using tl(1) R d(4) fl bounds hp
        by (intro res_ok_pages [OF ok, of r t2]) (auto simp: s2_def t2_def t1_def)
      obtain ob s3 where c: "object_create (if shared then KOBJECT_SHARED_MEMORY else KOBJECT_PAGE) (of_nat (r + 1)) (Some page_destroy_fn) s2 = (ob, s3)"
        by fastforce
      note cf = create_frame_res [OF c]
      define s4 where "s4 = fold free_one as s3"
      have "led pool (mset as + R) (pmm s3)" using tl(1) R(1) cf by (simp add: s2_def)
      note f = free_list [OF this, folded s4_def]
      let ?u = "t2\<lparr>pg_active := False, pg_pages := 0\<rparr>"
      have "res_ok pool (pg_upd r (\<lambda>t. t\<lparr>pg_active := False, pg_pages := 0\<rparr>) s4)"
        using f cf r(1) R(2) [of ?u] d(4) fl
        by (intro res_ok_pages [OF ok, of r ?u]) (auto simp: pg_upd_def s2_def held_pages_def t2_def t1_def)
      moreover have "res_ok pool s3" using ok2 create_res [OF c] by simp
      moreover have "snd (page_allocate_locked pages shared s)
          = (if ob = None then pg_upd r (\<lambda>t. t\<lparr>pg_active := False, pg_pages := 0\<rparr>) s4 else s3)"
        unfolding page_allocate_locked_def Let_def if_not_P [OF bounds] Some option.case tp prod.case filled_def [symmetric] e1 e2 c
        using True by (simp add: s4_def split: option.split)
      ultimately show ?thesis by simp
    qed
  qed (use ok bounds in \<open>simp add: page_allocate_locked_def\<close>)
qed (use ok in \<open>auto simp: page_allocate_locked_def\<close>)

lemma led_zero [simp]: "led pool M (zero_bytes a n p) = led pool M p"
  by (simp add: zero_bytes_def)

lemma led_zero_all [simp]: "led pool M (fold (\<lambda>a. zero_bytes a n) as p) = led pool M p"
  by (induction as arbitrary: p) simp_all

lemma dma_allocate_ok:
  assumes ok: "res_ok pool s"
  shows "res_ok pool (snd (dma_resource_allocate pages m s))"
proof (cases "pages = 0 \<or> pages > 256 \<or> m < 0xFFFFF")
  case bounds: False
  show ?thesis
  proof (cases "first_index (\<lambda>t. \<not> dm_active t) (dma_resources s)")
    case (Some r)
    note d = res_okD [OF ok]
    have r: "r < length (dma_resources s)" "\<not> dm_active (dma_resources s ! r)" using first_indexD [OF Some] by auto
    obtain a p where a: "pmm_alloc_contiguous pages m (pmm s) = (a, p)" by fastforce
    have n: "pages \<noteq> 0" using bounds by simp
    show ?thesis
    proof (cases "a = 0")
      case True
      then have "led pool (held s) p" using led_contig [OF d(1) a n] by simp
      then have "res_ok pool (s\<lparr>pmm := p\<rparr>)" using ok by (simp add: res_ok_def held_def)
      then show ?thesis using bounds Some a True by (simp add: dma_resource_allocate_def)
    next
      case False
      define t where "t = \<lparr>dm_physical = a, dm_bus_address = a, dm_iommu_owner = 0, dm_pages = pages, dm_address_mask = m, dm_active = True\<rparr>"
      define s1 where "s1 = dm_upd r (\<lambda>_. t) (s\<lparr>pmm := zero_bytes a (unat pages * 4096) p\<rparr>)"
      have dl: "dma_list t = map (\<lambda>k. a + of_nat k * 4096) [0..<unat pages]" by (simp add: dma_list_def t_def)
      obtain R where R: "held s = R" "\<And>t. held_of (page_resources s) ((dma_resources s)[r := t]) = mset (held_dma t) + R"
        using held_slot(2) [OF r(1), of "page_resources s"] r(2) by (auto simp: held_def held_dma_def)
      have led: "led pool (mset (dma_list t) + R) p" using led_contig [OF d(1) a n] False R(1) by (simp only: dl if_False)
      have f1: "dma_resources s1 = (dma_resources s)[r := t]" "page_resources s1 = page_resources s" "panicked s1 = panicked s"
        "pmm s1 = zero_bytes a (unat pages * 4096) p" by (simp_all add: s1_def dm_upd_def)
      have ok1: "res_ok pool s1" using led f1 d(4) R(2) [of t]
        by (intro res_ok_dma [OF ok, of r t]) (simp_all add: held_dma_def t_def)
      obtain ob s2 where c: "object_create KOBJECT_DMA (of_nat (r + 1)) (Some dma_destroy_fn) s1 = (ob, s2)" by fastforce
      note cf = create_frame_res [OF c]
      define s3 where "s3 = fold free_one (dma_list t) s2"
      have "led pool (mset (dma_list t) + R) (pmm s2)" using led f1 cf by simp
      note f = free_list [OF this, folded s3_def]
      let ?u = "t\<lparr>dm_active := False\<rparr>"
      have "res_ok pool (dm_upd r (dm_active_update (\<lambda>_. False)) s3)"
        using f cf f1 r(1) d(4) R(2) [of ?u]
        by (intro res_ok_dma [OF ok, of r ?u]) (simp_all add: dm_upd_def held_dma_def)
      moreover have "res_ok pool s2" using ok1 create_res [OF c] by simp
      moreover have "snd (dma_resource_allocate pages m s) = (if ob = None then dm_upd r (dm_active_update (\<lambda>_. False)) s3 else s2)"
        unfolding dma_resource_allocate_def Let_def if_not_P [OF bounds] Some option.case a prod.case if_not_P [OF False]
          t_def [symmetric] s1_def [symmetric] c
        by (simp add: s3_def split: option.split)
      ultimately show ?thesis by simp
    qed
  qed (use ok bounds in \<open>simp add: dma_resource_allocate_def\<close>)
qed (use ok in \<open>auto simp: dma_resource_allocate_def\<close>)

lemma page_slot_active:
  assumes "page_slot p s = Some r"
  shows "r < RESOURCE_PAGE_MAX" "pg_active (page_resources s ! r)"
  using assms by (auto simp: page_slot_def typed_slot_def Let_def word_unat_eq_iff split: option.splits if_splits)

lemma page_grow_ok:
  assumes ok: "res_ok pool s"
  shows "res_ok pool (snd (page_resource_grow q pages s))"
proof (cases "pages = 0 \<or> RESOURCE_PAGE_PAGES_MAX < unat pages")
  case bounds: False
  show ?thesis
  proof (cases "page_slot q s")
    case (Some r)
    let ?t = "page_resources s ! r" let ?old = "unat (pg_pages ?t)"
    note d = res_okD [OF ok] and ps = page_slot_active [OF Some]
    have r: "r < length (page_resources s)" using ps(1) d(2) by simp
    show ?thesis
    proof (cases "pg_revoked ?t \<or> pages \<le> pg_pages ?t")
      case False
      obtain as p where tp: "take_pages (unat pages - ?old) (pmm s) = (as, p)" by fastforce
      have tl: "led pool (mset as + held s) p" "length as \<le> unat pages - ?old" using take_pages_led [OF d(1) tp] by auto
      define t1 where "t1 = ?t\<lparr>pg_physical := take ?old (pg_physical ?t) @ as @ drop (?old + length as) (pg_physical ?t)\<rparr>"
      define s1 where "s1 = pg_upd r (\<lambda>t. t\<lparr>pg_physical := take ?old (pg_physical t) @ as @ drop (?old + length as) (pg_physical t)\<rparr>) (s\<lparr>pmm := p\<rparr>)"
      have lt: "?old < unat pages" using False by (simp add: word_le_nat_alt)
      have ll: "length (pg_physical ?t) = RESOURCE_PAGE_PAGES_MAX" using d(5) [OF ps(1)] .
      have nb: "unat pages \<le> RESOURCE_PAGE_PAGES_MAX" using bounds by simp
      have l1: "length (pg_physical t1) = RESOURCE_PAGE_PAGES_MAX" using ll tl(2) lt nb by (simp add: t1_def)
      have f1: "page_resources s1 = (page_resources s)[r := t1]" "dma_resources s1 = dma_resources s" "pmm s1 = p" "panicked s1 = panicked s"
        by (simp_all add: s1_def pg_upd_def t1_def)
      obtain R where R: "held s = mset (page_list ?t) + R"
        "\<And>t. held_of ((page_resources s)[r := t]) (dma_resources s) = mset (held_pages t) + R"
        using held_slot(1) [OF r, of "dma_resources s"] ps(2) by (auto simp: held_def held_pages_def)
      show ?thesis
      proof (cases "length as = unat pages - ?old")
        case lf: False
        have "led pool (mset (rev as) + held s) (pmm s1)" using tl(1) f1 by simp
        note f = free_list [OF this]
        have "held_pages t1 = page_list ?t" using ps(2) ll lt nb by (simp add: held_pages_def page_list_def t1_def)
        then have "res_ok pool (fold free_one (rev as) s1)" using f f1 d(4) l1 d(6) [OF ps] R
          by (intro res_ok_pages [OF ok, of r t1]) (auto simp: t1_def)
        then show ?thesis
          unfolding page_resource_grow_def Let_def if_not_P [OF bounds] Some option.case if_not_P [OF False] tp prod.case s1_def [symmetric]
          using lf by simp
      next
        case True
        let ?t2 = "t1\<lparr>pg_pages := pages\<rparr>"
        have "held_pages ?t2 = page_list ?t @ as" using ps(2) ll lt nb True by (simp add: held_pages_def page_list_def t1_def)
        then have "res_ok pool (pg_upd r (\<lambda>t. t\<lparr>pg_pages := pages\<rparr>) (s1\<lparr>pmm := fold (\<lambda>a. zero_bytes a 4096) as (pmm s1)\<rparr>))"
          using f1 d(4) l1 tl(1) R r bounds
          by (intro res_ok_pages [OF ok, of r ?t2]) (auto simp: pg_upd_def add_ac)
        then show ?thesis
          unfolding page_resource_grow_def Let_def if_not_P [OF bounds] Some option.case if_not_P [OF False] tp prod.case s1_def [symmetric]
          using True by simp
      qed
    qed (use ok bounds Some in \<open>simp add: page_resource_grow_def Let_def\<close>)
  qed (use ok bounds in \<open>simp add: page_resource_grow_def\<close>)
qed (use ok in \<open>auto simp: page_resource_grow_def\<close>)

lemma page_trim_ok:
  assumes ok: "res_ok pool s"
  shows "res_ok pool (snd (page_resource_trim q pages s))"
proof (cases "page_slot q s")
  case (Some r)
  let ?t = "page_resources s ! r" let ?n = "unat pages" let ?old = "unat (pg_pages ?t)"
  let ?f = "\<lambda>t. t\<lparr>pg_physical := take ?n (pg_physical t) @ replicate (?old - ?n) 0 @ drop ?old (pg_physical t), pg_pages := pages\<rparr>"
  note d = res_okD [OF ok] and ps = page_slot_active [OF Some]
  have r: "r < length (page_resources s)" using ps(1) d(2) by simp
  show ?thesis
  proof (cases "pg_revoked ?t \<or> pg_pages ?t \<le> pages \<or> pg_map_count ?t \<noteq> 0 \<or> pg_pin_count ?t \<noteq> 0")
    case False
    then have lt: "?n < ?old" by (simp add: word_le_nat_alt)
    have ol: "?old \<le> RESOURCE_PAGE_PAGES_MAX" using d(6) [OF ps] .
    have ll: "length (pg_physical ?t) = RESOURCE_PAGE_PAGES_MAX" using d(5) [OF ps(1)] .
    have new: "held_pages (?f ?t) = take ?n (page_list ?t)" using ps(2) ll lt ol by (simp add: held_pages_def page_list_def)
    have "mset (page_list ?t) = mset (drop ?n (page_list ?t)) + mset (take ?n (page_list ?t))"
      by (metis append_take_drop_id mset_append union_commute)
    then obtain R where R: "held s = mset (drop ?n (page_list ?t)) + (mset (held_pages (?f ?t)) + R)"
      "\<And>t. held_of ((page_resources s)[r := t]) (dma_resources s) = mset (held_pages t) + R"
      using held_slot(1) [OF r, of "dma_resources s"] ps(2) new by (auto simp: held_def held_pages_def add.assoc)
    have "led pool (mset (drop ?n (page_list ?t)) + (mset (held_pages (?f ?t)) + R)) (pmm s)" using d(1) R(1) by simp
    note f = free_list [OF this]
    have "res_ok pool (pg_upd r ?f (fold free_one (drop ?n (page_list ?t)) s))"
      using f d(4) r ll lt ol R(2) [of "?f ?t"]
      by (intro res_ok_pages [OF ok, of r "?f ?t"]) (simp_all add: pg_upd_def)
    then show ?thesis using Some False by (simp add: page_resource_trim_def Let_def)
  qed (use ok Some in \<open>simp add: page_resource_trim_def Let_def\<close>)
qed (use ok in \<open>simp add: page_resource_trim_def\<close>)

lemma mapping_ok:
  assumes "res_ok pool s"
  shows "res_ok pool (snd (page_resource_mapping_open p s))" "res_ok pool (page_resource_mapping_close p s)"
    "res_ok pool (unmap_one p s)"
proof -
  show c: "res_ok pool (page_resource_mapping_close p s)" using assms
    by (auto simp: page_resource_mapping_close_def held_pages_def page_list_def split: option.split intro!: pg_upd_ok)
  show "res_ok pool (snd (page_resource_mapping_open p s))" using assms
    by (auto simp: page_resource_mapping_open_def held_pages_def page_list_def split: option.split intro!: pg_upd_ok)
  show "res_ok pool (unmap_one p s)" unfolding unmap_one_def by (rule release_any [OF c])
qed

lemma unmaps_ok: "res_ok pool s \<Longrightarrow> res_ok pool ((unmap_one p ^^ n) s)"
  by (induction n) (simp_all add: mapping_ok)

lemma revoke_ok:
  assumes "res_ok pool s"
  shows "res_ok pool (snd (page_resource_revoke n v p s))"
proof -
  have m: "res_ok pool ((unmap_one p ^^ n) s)" by (rule unmaps_ok [OF assms])
  have "res_ok pool (pg_upd r (pg_revoked_update (\<lambda>_. True)) s')" if "res_ok pool s'" for r and s' :: "'a resources_st_scheme"
    using that by (auto simp: held_pages_def page_list_def intro!: pg_upd_ok)
  with m assms show ?thesis by (simp add: page_resource_revoke_def Let_def split: option.split)
qed

lemma unpin_any_ok: "res_ok pool s \<Longrightarrow> res_ok pool (snd (page_resource_unpin p s))"
  by (auto simp: page_resource_unpin_def split: prod.split dest: unpin_ok intro!: release_any)

lemma pin_any_ok: "res_ok pool s \<Longrightarrow> res_ok pool (snd (page_resource_pin p s))"
  by (metis page_resource_pin_def pin_ok prod.collapse)

lemma pin_entries_ok: "res_ok pool s \<Longrightarrow> pin_entries rs s = (es, s') \<Longrightarrow> res_ok pool s'"
proof (induction rs arbitrary: s es s')
  case (Cons q rs)
  obtain p index offset len where q: "q = (p, index, offset, len)" by (metis prod_cases4)
  obtain v s1 where v: "page_pin_locked p s = (v, s1)" by fastforce
  obtain fs s2 where u: "pin_entries rs s1 = (fs, s2)" by fastforce
  have ok1: "res_ok pool s1" by (rule pin_ok [OF Cons.prems(1) v])
  from Cons.IH [OF ok1 u] ok1 show ?case using Cons.prems(2) v u by (auto simp: q Let_def split: if_splits)
qed simp

lemma sg_create_ok:
  assumes ok: "res_ok pool s"
  shows "res_ok pool (snd (sg_resource_create reqs s))"
proof -
  obtain es s1 where es: "pin_entries reqs s = (es, s1)" by fastforce
  have ok1: "res_ok pool s1" by (rule pin_entries_ok [OF ok es])
  have undo: "res_ok pool (fold (object_release resource_dispatch) us (sl_upd r f s4))"
    if "res_ok pool s3" "unpin_entries ps s3 = (u, b, s4)" for us r f ps u b and s3 s4 :: "'a resources_st_scheme"
    using unpin_entries_ok [OF that] by (intro releases_any) simp
  have cr: "res_ok pool s3" if "object_create ty v D (sl_upd r f s1) = (ob, s3)" for ty v D r f ob s3
    using create_res [OF that] ok1 by simp
  show ?thesis unfolding sg_resource_create_def es Let_def
    by (auto simp: ok split: option.split prod.split intro: undo [OF ok1] undo [OF cr] cr)
qed

lemma sg_revoke_ok:
  assumes ok: "res_ok pool s"
  shows "res_ok pool (snd (sg_resource_revoke p s))"
proof -
  have "res_ok pool (fold (object_release resource_dispatch) us (sl_upd r f s4))"
    if "unpin_entries ps (sl_upd r g s) = (u, b, s4)" for us r f g ps u b and s4 :: "'a resources_st_scheme"
    using unpin_entries_ok [OF _ that] ok by (intro releases_any) simp
  then show ?thesis unfolding sg_resource_revoke_def Let_def
    by (auto simp: ok split: option.split prod.split)
qed

lemma res_backends [simp]:
  "res_ok pool (s\<lparr>irq_mask_backends := f, irq_release_backends := g\<rparr>) = res_ok pool s"
  "res_ok pool (s\<lparr>dma_iommu_unmap := h\<rparr>) = res_ok pool s" "res_ok pool (s\<lparr>page_revoke_backend := b\<rparr>) = res_ok pool s"
  by (rule res_ok_cong; simp)+

lemma dm_bind_ok:
  assumes ok: "res_ok pool s"
  shows "res_ok pool (dm_upd r (\<lambda>t. t\<lparr>dm_bus_address := a, dm_iommu_owner := w\<rparr>) s)"
proof (cases "r < RESOURCE_DMA_MAX")
  case True
  let ?t = "(dma_resources s ! r)\<lparr>dm_bus_address := a, dm_iommu_owner := w\<rparr>"
  from held_slot(2) [of r "dma_resources s" "page_resources s"] True res_okD(3) [OF ok]
  have "held_of (page_resources s) ((dma_resources s)[r := ?t]) = held s" by (auto simp: held_def held_dma_def dma_list_def)
  then show ?thesis using res_okD [OF ok] True by (intro res_ok_dma [OF ok, of r ?t]) (auto simp: dm_upd_def)
next
  case False
  then have "dm_upd r f s = s" for f using res_okD(3) [OF ok] by (simp add: dm_upd_def list_update_beyond not_less)
  then show ?thesis using ok by simp
qed

lemma create_ok:
  assumes "res_ok pool s"
  shows "res_ok pool (snd (mmio_resource_create a n c s))" "res_ok pool (snd (irq_create_kind_locked k x v t l s))"
    "res_ok pool (snd (pci_resource_create d s))" "res_ok pool (snd (msix_table_resource_create p b1 o1 b2 o2 e s))"
proof -
  show "res_ok pool (snd (mmio_resource_create a n c s))" using assms
    by (auto simp: mmio_resource_create_def create_res split: option.split prod.split)
  show "res_ok pool (snd (irq_create_kind_locked k x v t l s))" using assms
    by (auto simp: irq_create_kind_locked_def create_res split: option.split prod.split)
  show "res_ok pool (snd (pci_resource_create d s))" using assms
    by (auto simp: pci_resource_create_def create_res split: option.split prod.split)
  show "res_ok pool (snd (msix_table_resource_create p b1 o1 b2 o2 e s))" using assms
    by (auto simp: msix_table_resource_create_def create_res retain_res Let_def split: option.split prod.split bool.split
        intro!: release_ok plain_dispatch_ok)
qed

lemma more_bridge_notify [simp]: "bridges_st.more (snd (bridge_notify b source s)) = bridges_st.more s"
proof -
  have "bridges_st.more (snd (event_signal e (br_upd k f s))) = bridges_st.more s" for e k f
    using more_of_events [OF event_ops_more(1) [of e "br_upd k f s"]] by (simp add: br_upd_def)
  then show ?thesis by (simp add: bridge_notify_def split: option.split)
qed

lemma more_endpoint_signal [simp]: "bridges_st.more (snd (endpoint_signal p source s)) = bridges_st.more s"
  by (simp add: endpoint_signal_def split: option.split endpoint_fn.split)

lemma unbind_ok:
  assumes ok: "res_ok pool s"
  shows "res_ok pool (snd (irq_resource_unbind p s))"
proof -
  have "res_ok pool s2" if "mask_line c n True (ir_upd r f s) = (v, s2)" for c n r f v s2
    using line_ok(1) [of pool c n True "ir_upd r f s"] ok that by simp
  moreover have "res_ok pool (object_release bridge_dispatch q s')" if "res_ok pool s'" for q and s' :: "'a resources_st_scheme"
    using that by (intro release_ok bridge_dispatch_ok)
  ultimately show ?thesis using ok by (simp add: irq_resource_unbind_def Let_def split: option.split prod.split)
qed

lemma irq_ok:
  assumes ok: "res_ok pool s"
  shows "res_ok pool (snd (irq_resource_bind p q s))" "res_ok pool (snd (irq_resource_set_mask p m s))"
    "res_ok pool (snd (irq_resource_signal p s))"
proof -
  show "res_ok pool (snd (irq_resource_bind p q s))" using ok
    by (simp add: irq_resource_bind_def retain_res split: option.split prod.split bool.split)
  show "res_ok pool (snd (irq_resource_set_mask p m s))" using ok
    by (simp add: irq_resource_set_mask_def Let_def split: option.split)
  have "res_ok pool (snd (event_signal b s))" for b using ok res_ok_more [OF more_of_events [OF event_ops_more(1)]] by blast
  moreover have "res_ok pool (snd (endpoint_signal b n s))" for b n using ok res_ok_more [OF more_endpoint_signal] by blast
  ultimately show "res_ok pool (snd (irq_resource_signal p s))" using ok
    by (simp add: irq_resource_signal_def split: option.split)
qed

lemma led_pages:
  assumes led: "led pool (mset as) p"
  shows "distinct as" "q \<notin> free_set p \<or> addr q \<notin> set as" "\<forall>a \<in> set as. \<exists>q \<in> pool. a = addr q \<and> page_refs p q = 1"
    "unat (free_pages p) + length as = card pool"
proof -
  have l: "ledger_ok pool (ledger (mset as)) p" "set as \<subseteq> addr ` (pool - {0})" "\<And>a. count (mset as) a \<le> 1"
    using led by (auto simp: led_def)
  have pb: "pool \<subseteq> {..<BITMAP_BITS}" "finite pool" using l(1) finite_subset [of pool "{..<BITMAP_BITS}"] by (auto simp: ledger_ok_def)
  show dist: "distinct as" unfolding distinct_count_atmost_1
    using l(3) by (metis count_mset_0_iff le_antisym less_one not_less)
  have H: "{q. 0 < ledger (mset as) q} = {q \<in> pool. addr q \<in> set as}" using l(1) pb(1) unfolding ledger_ok_def ledger_def by auto
  have inj: "inj_on addr pool" 
  proof (rule inj_onI)
    fix x y assume "x \<in> pool" "y \<in> pool" "addr x = addr y"
    then show "x = y" using pb(1) addr_inj [of x y] by blast
  qed
  have free: "free_set p = pool - {q \<in> pool. addr q \<in> set as}" using l(1) unfolding H [symmetric] by (simp add: ledger_ok_def)
  show "q \<notin> free_set p \<or> addr q \<notin> set as" using free by auto
  show "\<forall>a \<in> set as. \<exists>q \<in> pool. a = addr q \<and> page_refs p q = 1"
  proof
    fix a assume a: "a \<in> set as"
    then obtain q where q: "q \<in> pool" "a = addr q" using l(2) by auto
    have "count (mset as) a = 1" using l(3) [of a] a by (metis count_mset_0_iff le_antisym less_one not_less)
    then have "unat (page_refs p q) = 1" using l(1) q pb(1) by (auto simp: ledger_ok_def ledger_def)
    then show "\<exists>q \<in> pool. a = addr q \<and> page_refs p q = 1" using q by (auto simp: word_unat_eq_iff)
  qed
  have "addr ` {q \<in> pool. addr q \<in> set as} = set as" using l(2) by auto
  then have "card {q \<in> pool. addr q \<in> set as} = length as"
    using card_image [of addr "{q \<in> pool. addr q \<in> set as}"] inj distinct_card [OF dist] by (metis (no_types, lifting) inj_on_subset mem_Collect_eq subsetI)
  moreover have "card (free_set p) = card pool - card {q \<in> pool. addr q \<in> set as}" unfolding free by (rule card_Diff_subset) (use pb in auto)
  moreover have "card {q \<in> pool. addr q \<in> set as} \<le> card pool" by (rule card_mono) (use pb in auto)
  moreover have "unat (free_pages p) = card (free_set p)" using l(1) by (simp add: ledger_ok_def pmm_ok_def)
  ultimately show "unat (free_pages p) + length as = card pool" by simp
qed

section \<open>Runs\<close>

text \<open>
  The calls of the rest of the kernel into this module, with any arguments, and the references
  that handles take and give back. A panicked kernel does nothing more.
\<close>

datatype res_op =
    RMmio u64 u64 u32 | RIrq u32 u32 u32 u32 | RIrqKind u32 u32 u32 u32 u32 | RIrqBackend u32 "(u32 \<Rightarrow> bool \<Rightarrow> int) option" bool
  | RBind "nat option" "nat option" | RUnbind "nat option" | RMask "nat option" bool | RSignal "nat option"
  | RDma u32 u64 | RIommuBackend "(u32 \<Rightarrow> u64 \<Rightarrow> u32 \<Rightarrow> int) option" | RIommuBind "nat option" u32 u64
  | RPci "pci_resource option" | RMsix "nat option" u8 u32 u8 u32 u32
  | RRevokeBackend bool | RPage | RShared u32 | RPin "nat option" | RUnpin "nat option"
  | RMapOpen "nat option" | RMapClose "nat option" | RRevoke nat int "nat option"
  | RGrow "nat option" u32 | RTrim "nat option" u32
  | RSg "(nat option \<times> u32 \<times> u32 \<times> u32) list" | RSgRevoke "nat option"
  | RRetain "nat option" | RRelease "nat option"

fun res_call :: "res_op \<Rightarrow> 'a resources_st_scheme \<Rightarrow> 'a resources_st_scheme" where
  "res_call (RMmio a n c) s = snd (mmio_resource_create a n c s)"
| "res_call (RIrq x v t l) s = snd (irq_resource_create x v t l s)"
| "res_call (RIrqKind k x v t l) s = snd (irq_resource_create_kind k x v t l s)"
| "res_call (RIrqBackend k f g) s = snd (irq_resource_set_backend k f g s)"
| "res_call (RBind p q) s = snd (irq_resource_bind p q s)"
| "res_call (RUnbind p) s = snd (irq_resource_unbind p s)"
| "res_call (RMask p m) s = snd (irq_resource_set_mask p m s)"
| "res_call (RSignal p) s = snd (irq_resource_signal p s)"
| "res_call (RDma n m) s = snd (dma_resource_allocate n m s)"
| "res_call (RIommuBackend f) s = snd (dma_resource_set_iommu_backend f s)"
| "res_call (RIommuBind p w a) s = snd (dma_resource_bind_iommu p w a s)"
| "res_call (RPci d) s = snd (pci_resource_create d s)"
| "res_call (RMsix p b1 o1 b2 o2 e) s = snd (msix_table_resource_create p b1 o1 b2 o2 e s)"
| "res_call (RRevokeBackend b) s = snd (page_resource_set_revoke_backend b s)"
| "res_call RPage s = snd (page_resource_create s)"
| "res_call (RShared n) s = snd (shared_memory_resource_create n s)"
| "res_call (RPin p) s = snd (page_resource_pin p s)"
| "res_call (RUnpin p) s = snd (page_resource_unpin p s)"
| "res_call (RMapOpen p) s = snd (page_resource_mapping_open p s)"
| "res_call (RMapClose p) s = page_resource_mapping_close p s"
| "res_call (RRevoke n v p) s = snd (page_resource_revoke n v p s)"
| "res_call (RGrow p n) s = snd (page_resource_grow p n s)"
| "res_call (RTrim p n) s = snd (page_resource_trim p n s)"
| "res_call (RSg reqs) s = snd (sg_resource_create reqs s)"
| "res_call (RSgRevoke p) s = snd (sg_resource_revoke p s)"
| "res_call (RRetain p) s = snd (object_retain p s)"
| "res_call (RRelease p) s = object_release resource_dispatch p s"

definition res_step :: "res_op \<Rightarrow> 'a resources_st_scheme \<Rightarrow> 'a resources_st_scheme" where
  "res_step op s = (if panicked s = None then res_call op s else s)"

lemma res_call_ok: "res_ok pool s \<Longrightarrow> res_ok pool (res_call op s)"
  by (cases op)
    (simp_all add: create_ok irq_ok unbind_ok dma_allocate_ok page_allocate_ok page_grow_ok page_trim_ok mapping_ok revoke_ok
      pin_any_ok unpin_any_ok sg_create_ok sg_revoke_ok release_any dm_bind_ok irq_resource_create_def irq_resource_create_kind_def
      irq_resource_set_backend_def dma_resource_set_iommu_backend_def dma_resource_bind_iommu_def
      page_resource_set_revoke_backend_def page_resource_create_def shared_memory_resource_create_def split: option.split)

lemma res_run_ok: "res_ok pool s \<Longrightarrow> res_ok pool (fold res_step ops s)"
  by (induction ops arbitrary: s) (simp_all add: res_step_def res_call_ok)

text \<open>The tables as they are when the module starts, over an allocator that has handed out nothing.\<close>

definition res_boot :: "'a resources_st_scheme \<Rightarrow> bool" where
  "res_boot s \<longleftrightarrow> length (page_resources s) = RESOURCE_PAGE_MAX \<and> length (dma_resources s) = RESOURCE_DMA_MAX
     \<and> (\<forall>t \<in> set (page_resources s). length (pg_physical t) = RESOURCE_PAGE_PAGES_MAX) \<and> panicked s = None"

lemma res_boot_ok:
  assumes "pmm_boot len esize entries kernel_end limit modules m = Some (pmm s)" and "res_boot s"
  shows "res_ok (free_set (pmm s)) (resource_init s)"
proof -
  note ok = pmm_boot_ok [OF assms(1)]
  have "ledger_ok (free_set (pmm s)) (\<lambda>_. 0) (pmm s)" using ok by (auto simp: ledger_ok_def pmm_ok_def free_set_def)
  moreover have "ledger {#} = (\<lambda>_. 0)" by (simp add: ledger_def fun_eq_iff)
  ultimately have "led (free_set (pmm s)) {#} (pmm s)" by (simp add: led_def)
  moreover have "held (resource_init s) = {#}" by (simp add: held_def held_of_def resource_init_def held_pages_def held_dma_def)
  ultimately show ?thesis using assms(2) by (auto simp: res_ok_def res_boot_def resource_init_def)
qed

section \<open>Properties\<close>

definition resource_pages :: "'a resources_st_scheme \<Rightarrow> u64 list" where
  "resource_pages s = concat (map held_pages (page_resources s)) @ concat (map held_dma (dma_resources s))"

text \<open>
  C3. Resources own their pages. From boot, whatever the rest of the kernel asks of resources,
  the pages named by the active page, shared memory and DMA resources are all different, so no
  two resources and no two places of one resource share a page; none of them is in the free set
  of the allocator, and each carries exactly one reference; the free pages and the pages of
  resources together are the pages the pool began with, so nothing is lost on any failure path;
  and the allocator is never given back a page it did not hand out, which is what it panics on.
\<close>

theorem resource_pages_exclusive:
  assumes "pmm_boot len esize entries kernel_end limit modules m = Some (pmm s0)" and "res_boot s0"
    and "s = fold res_step ops (resource_init s0)"
  shows "distinct (resource_pages s)
    \<and> (\<forall>p. p \<notin> free_set (pmm s) \<or> addr p \<notin> set (resource_pages s))
    \<and> (\<forall>a \<in> set (resource_pages s). \<exists>p \<in> free_set (pmm s0). a = addr p \<and> page_refs (pmm s) p = 1)
    \<and> unat (pmm_free_pages (pmm s)) + length (resource_pages s) = unat (pmm_free_pages (pmm s0))
    \<and> panicked s \<noteq> Some ''PMM''"
proof -
  let ?pool = "free_set (pmm s0)"
  have ok: "res_ok ?pool s" unfolding assms(3) by (rule res_run_ok [OF res_boot_ok [OF assms(1,2)]])
  have held: "held s = mset (resource_pages s)" by (simp add: held_def held_of_def resource_pages_def)
  note d = res_okD(1,4) [OF ok, unfolded held]
  from led_pages [OF d(1)] d(2) pmm_boot_ok [OF assms(1)] show ?thesis by (simp add: pmm_free_pages_def pmm_ok_def)
qed

lemma addr_end: "k < BITMAP_BITS \<Longrightarrow> i + n \<le> 4096 \<Longrightarrow> unat (addr k + of_nat i + of_nat n) = k * 4096 + i + n"
  by (simp add: addr_def unat_word_ariths unat_of_nat)

text \<open>
  An address given to a device lies, with its whole length, inside one page of the resource and
  inside the first gigabyte.
\<close>

lemma dma_address_confined:
  assumes ok: "res_ok pool s" and a: "page_resource_dma_address p offset len s = a" "a \<noteq> 0"
  shows "\<exists>r k. page_slot p s = Some r \<and> addr k \<in> set (page_list (page_resources s ! r)) \<and> k \<in> pool
    \<and> unat (addr k) \<le> unat a \<and> unat a + unat len \<le> unat (addr k) + 4096 \<and> unat a + unat len \<le> 2 ^ 30"
proof -
  from a obtain r where r: "page_slot p s = Some r" by (auto simp: page_resource_dma_address_def split: option.splits)
  let ?t = "page_resources s ! r" let ?i = "unat offset div 4096" let ?o = "unat offset mod 4096"
  have c: "unat offset < unat (pg_pages ?t) * 4096" "?o + unat len \<le> 4096" "a = pg_physical ?t ! ?i + of_nat ?o"
    "pg_physical ?t ! ?i + of_nat ?o + of_nat (unat len) \<le> 0x40000000"
    using a r by (auto simp: page_resource_dma_address_def Let_def split: if_splits)
  note d = res_okD [OF ok] and ps = page_slot_active [OF r]
  have i: "?i < unat (pg_pages ?t)" using c(1) by (simp add: less_mult_imp_div_less)
  then have m: "pg_physical ?t ! ?i \<in> set (page_list ?t)" using d(5) [OF ps(1)] d(6) [OF ps]
    by (auto simp: page_list_def in_set_conv_nth intro!: exI [of _ ?i])
  moreover have "set (page_list ?t) \<subseteq> set_mset (held s)"
    using ps d(2) by (auto simp: held_def held_of_def held_pages_def intro!: bexI [of _ ?t])
  ultimately have "pg_physical ?t ! ?i \<in> addr ` pool" using d(1) unfolding led_def by blast
  then obtain k where k: "k \<in> pool" "pg_physical ?t ! ?i = addr k" by blast
  have kb: "k < BITMAP_BITS" using led_pool [OF d(1) k(1)] .
  then have ak: "unat (addr k) = k * 4096" by (simp add: addr_def unat_word_ariths unat_of_nat)
  have e: "unat a = k * 4096 + ?o" "unat (a + of_nat (unat len)) = k * 4096 + ?o + unat len"
    using c(3) k(2) addr_end [OF kb, of ?o 0] addr_end [OF kb c(2)] by simp_all
  have "unat (a + of_nat (unat len)) \<le> 2 ^ 30" using c(3,4) k(2) by (simp add: word_le_nat_alt)
  with e ak m k r c(2) show ?thesis by auto
qed

text \<open>
  When the controller refuses to mask the line, unbinding fails with the binding gone from the
  resource and its reference still counted: nothing can release it any more.
\<close>

lemma irq_unbind_keeps_reference:
  assumes "irq_slot irq s = Some r" and "r < length (irq_resources s)" and "t = irq_resources s ! r"
    and "ir_binding t = Some b" and "\<not> ir_masked t"
    and "unat (ir_controller t) < IRQ_CONTROLLER_MAX" and "irq_mask_backends s ! unat (ir_controller t) = Some f"
    and "f (ir_source t) True \<noteq> 0"
  shows "fst (irq_resource_unbind irq s) = -1 \<and> objects (snd (irq_resource_unbind irq s)) = objects s
    \<and> ir_binding (irq_resources (snd (irq_resource_unbind irq s)) ! r) = None"
  using assms by (simp add: irq_resource_unbind_def mask_line_def Let_def ir_upd_def hw_def)

section \<open>Witness\<close>

text \<open>The tables when the kernel image is loaded, all zero, over an allocator.\<close>

definition resources_start :: "pmm_st \<Rightarrow> resources_st" where
  "resources_start m = \<lparr>task_pool = task_pool bridge_boot, task_pool_count = 3, task_result = (\<lambda>_. None),
     objects = objects bridge_boot, handles = handles bridge_boot, events = events bridge_boot,
     wait_sets = wait_sets bridge_boot, wait_counts = wait_counts bridge_boot, wait_deadlines = wait_deadlines bridge_boot,
     wait_timed = wait_timed bridge_boot, endpoints = endpoints bridge_boot, bridges = bridges bridge_boot,
     mmio_resources = replicate RESOURCE_MMIO_MAX \<lparr>mm_physical = 0, mm_length = 0, mm_cache_mode = 0, mm_active = False\<rparr>,
     irq_resources = replicate RESOURCE_IRQ_MAX \<lparr>ir_controller = 0, ir_source = 0, ir_vector = 0, ir_trigger = 0,
       ir_polarity = 0, ir_masked = False, ir_binding = None, ir_active = False\<rparr>,
     dma_resources = replicate RESOURCE_DMA_MAX \<lparr>dm_physical = 0, dm_bus_address = 0, dm_iommu_owner = 0, dm_pages = 0,
       dm_address_mask = 0, dm_active = False\<rparr>,
     pci_resources = [], msix_resources = [],
     page_resources = replicate RESOURCE_PAGE_MAX \<lparr>pg_physical = replicate RESOURCE_PAGE_PAGES_MAX 0, pg_pages = 0,
       pg_pin_count = 0, pg_map_count = 0, pg_revoked = False, pg_shared = False, pg_active = False\<rparr>,
     sg_resources = replicate RESOURCE_SG_MAX \<lparr>sl_entries = replicate RESOURCE_SG_ENTRY_MAX blank_entry, sl_entry_count = 0,
       sl_total_length = 0, sl_revoked = False, sl_active = False\<rparr>,
     irq_mask_backends = [], irq_release_backends = [], page_revoke_backend = False, dma_iommu_unmap = None,
     hw_calls = [], pmm = m, panicked = None\<rparr>"

theorem resource_pages_exclusive_witness:
  "\<exists>m s. pmm_boot 24 24 one_entry 0x180000 0x40000000 [] no_memory = Some m \<and> res_boot (resources_start m)
    \<and> s = fold res_step [RShared 2, RDma 3 0xFFFFFFFF, RGrow (Some 2) 5, RTrim (Some 2) 1, RPin (Some 2), RSg [(Some 2, 0, 0, 512)],
        RRelease (Some 3), RUnpin (Some 2), RRelease (Some 2)] (resource_init (resources_start m))
    \<and> distinct (resource_pages s) \<and> panicked s \<noteq> Some ''PMM''
    \<and> unat (pmm_free_pages (pmm s)) + length (resource_pages s) = unat (pmm_free_pages m)"
proof -
  have "pmm_init 24 24 one_entry 0x180000 no_memory \<noteq> None" by (simp add: pmm_init_def Let_def)
  then obtain m where m: "pmm_boot 24 24 one_entry 0x180000 0x40000000 [] no_memory = Some m"
    unfolding pmm_boot_def by blast
  have p: "pmm (resources_start m) = m" and b: "res_boot (resources_start m)"
    by (simp_all add: resources_start_def res_boot_def)
  have "pmm_boot 24 24 one_entry 0x180000 0x40000000 [] no_memory = Some (pmm (resources_start m))" using m p by simp
  from resource_pages_exclusive [OF this b refl, of "[RShared 2, RDma 3 0xFFFFFFFF, RGrow (Some 2) 5, RTrim (Some 2) 1,
      RPin (Some 2), RSg [(Some 2, 0, 0, 512)], RRelease (Some 3), RUnpin (Some 2), RRelease (Some 2)]"] m b
  show ?thesis unfolding p by blast
qed

end
