(* ===== verification/Ipc.thy ===== *)
theory Ipc
  imports Runtime
begin

text \<open>
  Synchronous message passing, \<^verbatim>\<open>src/arch/x86_64/kernel/ipc64.c\<close>: a send completes into a
  waiting receiver or parks with its message, a receive takes the message of the first parked
  sender or parks, a send that would close a cycle of parked senders is refused and the cycle
  released, and death and the clock release what waits. The answer of a call is \<open>None\<close> when it
  parks and the CPU switches away.
\<close>

section \<open>State\<close>

definition ESRCH :: int where "ESRCH = -3"
definition EINVAL :: int where "EINVAL = -22"
definition EDEADLK :: int where "EDEADLK = -35"
definition ETIMEDOUT :: int where "ETIMEDOUT = -110"
definition MSG_DIED :: u32 where "MSG_DIED = 60"

lemmas ipc_errors = ESRCH_def EINVAL_def EDEADLK_def ETIMEDOUT_def

record message =
  ms_from_id :: u32
  ms_type :: u32
  ms_data :: "u8 list"

definition MESSAGE_SIZE :: nat where "MESSAGE_SIZE = 64"

definition message_bytes :: "message \<Rightarrow> u8 list" where
  "message_bytes m = le_bytes 4 (ucast (ms_from_id m)) @ le_bytes 4 (ucast (ms_type m)) @ ms_data m"

definition bytes_message :: "u8 list \<Rightarrow> message" where
  "bytes_message bs = \<lparr>ms_from_id = ucast (le_value (take 4 bs)), ms_type = ucast (le_value (take 4 (drop 4 bs))),
     ms_data = drop 8 bs\<rparr>"

record ipc_st = runtime_st +
  pending :: "message list"
  pending_valid :: "bool list"
  pending_timed :: "bool list"

definition task_for_pid :: "u32 \<Rightarrow> 'a tasks_st_scheme \<Rightarrow> nat option" where
  "task_for_pid pid s =
     (let slot = unat (PID_SLOT pid)
      in if slot = 0 \<or> task_pool_count s \<le> slot then None
         else let t = task_pool s ! slot
              in if t_state t = TASK_FREE \<or> t_state t = TASK_ZOMBIE \<or> word_of_int (t_id t) \<noteq> pid then None
                 else Some slot)"

text \<open>The walk along parked senders, at most \<^verbatim>\<open>MAX_TASKS\<close> steps.\<close>

fun deadlock :: "nat \<Rightarrow> nat \<Rightarrow> nat \<Rightarrow> 'a tasks_st_scheme \<Rightarrow> bool" where
  "deadlock 0 sender cursor s = True"
| "deadlock (Suc n) sender cursor s =
     (if cursor = sender then True
      else if t_state (task_pool s ! cursor) \<noteq> TASK_BLOCKED_SEND \<or> t_send_to (task_pool s ! cursor) = 0 then False
      else (case task_for_pid (t_send_to (task_pool s ! cursor)) s of
          None \<Rightarrow> False | Some next \<Rightarrow> deadlock n sender next s))"

text \<open>What every release of a parked sender does: forget its message and its target, wake it, answer.\<close>

definition release_sender :: "nat \<Rightarrow> int \<Rightarrow> 'a ipc_st_scheme \<Rightarrow> 'a ipc_st_scheme" where
  "release_sender slot answer s =
     (let s1 = s\<lparr>pending_valid := (pending_valid s)[slot := False], pending_timed := (pending_timed s)[slot := False]\<rparr>;
          s2 = task_upd slot (\<lambda>t. t\<lparr>t_send_to := 0, t_send_deadline := 0\<rparr>) s1
      in task64_set_result slot answer (task_state_set (Some slot) TASK_RUNNING s2))"

fun break_deadlock :: "nat \<Rightarrow> nat option \<Rightarrow> nat \<Rightarrow> 'a ipc_st_scheme \<Rightarrow> 'a ipc_st_scheme" where
  "break_deadlock (Suc n) (Some cursor) sender s =
     (if cursor = sender then s
      else if t_state (task_pool s ! cursor) \<noteq> TASK_BLOCKED_SEND then s
      else break_deadlock n (task_for_pid (t_send_to (task_pool s ! cursor)) s) sender (release_sender cursor EDEADLK s))"
| "break_deadlock _ _ sender s = s"

definition deliver :: "nat \<Rightarrow> u64 \<Rightarrow> message \<Rightarrow> 'a ipc_st_scheme \<Rightarrow> int \<times> 'a ipc_st_scheme" where
  "deliver receiver address m s =
     (case vm64_copy_to (t_page_dir (task_pool s ! receiver)) address (message_bytes m) s of
        (True, s') \<Rightarrow> (0, s') | (False, s') \<Rightarrow> (EINVAL, s'))"

definition release_receiver :: "nat \<Rightarrow> int \<Rightarrow> 'a ipc_st_scheme \<Rightarrow> 'a ipc_st_scheme" where
  "release_receiver slot answer s =
     task64_set_result slot answer (task_state_set (Some slot) TASK_RUNNING
       (task_upd slot (\<lambda>t. t\<lparr>t_recv_buf := 0, t_recv_expect := 0\<rparr>) s))"

definition task_pid :: "nat \<Rightarrow> 'a tasks_st_scheme \<Rightarrow> u32" where
  "task_pid slot s = word_of_int (t_id (task_pool s ! slot))"

definition send_now :: "nat \<Rightarrow> nat \<Rightarrow> message \<Rightarrow> 'a ipc_st_scheme \<Rightarrow> int \<times> 'a ipc_st_scheme" where
  "send_now sender receiver m s =
     (case deliver receiver (t_recv_buf (task_pool s ! receiver)) (m\<lparr>ms_from_id := task_pid sender s\<rparr>) s of
        (result, s1) \<Rightarrow> (result, release_receiver receiver result s1))"

definition ipc64_init :: "'a ipc_st_scheme \<Rightarrow> 'a ipc_st_scheme" where
  "ipc64_init s = s\<lparr>pending_valid := replicate MAX_TASKS False, pending_timed := replicate MAX_TASKS False\<rparr>"

definition receiver_waits :: "nat \<Rightarrow> nat \<Rightarrow> 'a tasks_st_scheme \<Rightarrow> bool" where
  "receiver_waits receiver sender s \<longleftrightarrow>
     (let t = task_pool s ! receiver
      in t_state t = TASK_BLOCKED_RECV \<and> t_recv_buf t \<noteq> 0 \<and> (t_recv_expect t = 0 \<or> t_recv_expect t = task_pid sender s))"

definition send_internal ::
  "int \<Rightarrow> nat \<Rightarrow> u32 \<Rightarrow> u64 \<Rightarrow> u32 \<Rightarrow> bool \<Rightarrow> 'a ipc_st_scheme \<Rightarrow> int option \<times> 'a ipc_st_scheme" where
  "send_internal cpu current destination address deadline timed s =
     (case task_for_pid destination s of
        None \<Rightarrow> (Some ESRCH, s)
      | Some receiver \<Rightarrow>
          if receiver = current then (Some EDEADLK, s)
          else (case vm64_copy_from (t_page_dir (task_pool s ! current)) address MESSAGE_SIZE s of
              None \<Rightarrow> (Some EINVAL, s)
            | Some bs \<Rightarrow>
                if receiver_waits receiver current s
                then (case send_now current receiver (bytes_message bs) s of (result, s1) \<Rightarrow> (Some result, s1))
                else if deadlock MAX_TASKS current receiver s
                then (Some EDEADLK, break_deadlock MAX_TASKS (Some receiver) current s)
                else (let s1 = s\<lparr>pending := (pending s)[current := bytes_message bs],
                                pending_valid := (pending_valid s)[current := True]\<rparr>;
                          s2 = task_upd current (\<lambda>t. t\<lparr>t_send_to := destination, t_send_deadline := deadline\<rparr>) s1;
                          s3 = (task_state_set (Some current) TASK_BLOCKED_SEND s2)
                            \<lparr>pending_timed := (pending_timed s2)[current := timed]\<rparr>
                      in if task_pick_next (int current) cpu s3 = None
                         then (Some EDEADLK, task_state_set (Some current) TASK_RUNNING
                                (task_upd current (\<lambda>t. t\<lparr>t_send_to := 0, t_send_deadline := 0\<rparr>)
                                  (s3\<lparr>pending_valid := (pending_valid s3)[current := False],
                                      pending_timed := (pending_timed s3)[current := False]\<rparr>)))
                         else (None, s3))))"

definition ipc64_send :: "int \<Rightarrow> nat \<Rightarrow> u32 \<Rightarrow> u64 \<Rightarrow> 'a ipc_st_scheme \<Rightarrow> int option \<times> 'a ipc_st_scheme" where
  "ipc64_send cpu current destination address s = send_internal cpu current destination address 0 False s"

definition ipc64_send_timeout ::
  "int \<Rightarrow> nat \<Rightarrow> u32 \<Rightarrow> u64 \<Rightarrow> u32 \<Rightarrow> 'a ipc_st_scheme \<Rightarrow> int option \<times> 'a ipc_st_scheme" where
  "ipc64_send_timeout cpu current destination address deadline s =
     send_internal cpu current destination address deadline True s"

definition ipc64_send_nb :: "nat \<Rightarrow> u32 \<Rightarrow> u64 \<Rightarrow> 'a ipc_st_scheme \<Rightarrow> int \<times> 'a ipc_st_scheme" where
  "ipc64_send_nb current destination address s =
     (case task_for_pid destination s of
        None \<Rightarrow> (ESRCH, s)
      | Some receiver \<Rightarrow>
          if receiver = current then (EDEADLK, s)
          else if \<not> receiver_waits receiver current s then (-1, s)
          else (case vm64_copy_from (t_page_dir (task_pool s ! current)) address MESSAGE_SIZE s of
              None \<Rightarrow> (EINVAL, s)
            | Some bs \<Rightarrow> send_now current receiver (bytes_message bs) s))"

definition died_message :: "u32 \<Rightarrow> message" where
  "died_message pid = \<lparr>ms_from_id = pid, ms_type = MSG_DIED, ms_data = replicate 56 0\<rparr>"

text \<open>A parked sender a receive may take from.\<close>

definition eligible :: "nat \<Rightarrow> u32 \<Rightarrow> nat \<Rightarrow> 'a ipc_st_scheme \<Rightarrow> bool" where
  "eligible receiver expected slot s \<longleftrightarrow>
     t_state (task_pool s ! slot) = TASK_BLOCKED_SEND \<and> t_send_to (task_pool s ! slot) = task_pid receiver s
     \<and> pending_valid s ! slot \<and> (expected = 0 \<or> task_pid slot s = expected)"

definition ipc64_recv :: "int \<Rightarrow> nat \<Rightarrow> u32 \<Rightarrow> u64 \<Rightarrow> 'a ipc_st_scheme \<Rightarrow> int option \<times> 'a ipc_st_scheme" where
  "ipc64_recv cpu current expected address s =
     (if \<not> vm64_user_access (t_page_dir (task_pool s ! current)) address MESSAGE_SIZE True s then (Some EINVAL, s)
      else if expected = task_pid current s then (Some EDEADLK, s)
      else if expected \<noteq> 0 \<and> task_for_pid expected s = None
      then (Some 0, snd (deliver current address (died_message expected) s))
      else (case List.find (\<lambda>slot. eligible current expected slot s) [1..<task_pool_count s] of
          Some slot \<Rightarrow>
            (case deliver current address ((pending s ! slot)\<lparr>ms_from_id := task_pid slot s\<rparr>) s of
               (result, s1) \<Rightarrow> (Some result, release_sender slot result s1))
        | None \<Rightarrow>
            (let s1 = task_state_set (Some current) TASK_BLOCKED_RECV
                        (task_upd current (\<lambda>t. t\<lparr>t_recv_buf := address, t_recv_expect := expected\<rparr>) s)
             in if task_pick_next (int current) cpu s1 = None
                then (Some EDEADLK, task_state_set (Some current) TASK_RUNNING
                        (task_upd current (\<lambda>t. t\<lparr>t_recv_buf := 0, t_recv_expect := 0\<rparr>) s1))
                else (None, s1))))"

section \<open>Death and time\<close>

text \<open>One slot of the walk of a death: a sender to the dead is refused, a receiver from it told.\<close>

definition died_slot :: "u32 \<Rightarrow> nat \<Rightarrow> 'a ipc_st_scheme \<Rightarrow> 'a ipc_st_scheme" where
  "died_slot pid slot s =
     (let s1 = (if t_state (task_pool s ! slot) = TASK_BLOCKED_SEND \<and> t_send_to (task_pool s ! slot) = pid
                then release_sender slot ESRCH s else s);
          t = task_pool s1 ! slot
      in if t_state t = TASK_BLOCKED_RECV \<and> t_recv_buf t \<noteq> 0 \<and> t_recv_expect t = pid
         then (case deliver slot (t_recv_buf t) (died_message pid) s1 of (result, s2) \<Rightarrow> release_receiver slot result s2)
         else s1)"

definition ipc64_task_died :: "u32 \<Rightarrow> 'a ipc_st_scheme \<Rightarrow> 'a ipc_st_scheme" where
  "ipc64_task_died pid s =
     (let dead = unat (PID_SLOT pid);
          s1 = (if dead < MAX_TASKS
                then s\<lparr>pending_valid := (pending_valid s)[dead := False], pending_timed := (pending_timed s)[dead := False]\<rparr>
                else s)
      in fold (died_slot pid) [1..<task_pool_count s1] s1)"

definition tick_sender :: "u32 \<Rightarrow> nat \<Rightarrow> 'a ipc_st_scheme \<Rightarrow> 'a ipc_st_scheme" where
  "tick_sender now slot s =
     (if t_state (task_pool s ! slot) \<noteq> TASK_BLOCKED_SEND \<or> \<not> pending_timed s ! slot
         \<or> not_due now (t_send_deadline (task_pool s ! slot)) then s
      else release_sender slot ETIMEDOUT s)"

definition ipc64_tick :: "u32 \<Rightarrow> 'a ipc_st_scheme \<Rightarrow> 'a ipc_st_scheme" where
  "ipc64_tick now s = fold (tick_sender now) [1..<task_pool_count s] s"

section \<open>Who waits for whom\<close>

definition waits_for :: "'a tasks_st_scheme \<Rightarrow> nat \<Rightarrow> nat option" where
  "waits_for s i =
     (if i < task_pool_count s \<and> t_state (task_pool s ! i) = TASK_BLOCKED_SEND
      then task_for_pid (t_send_to (task_pool s ! i)) s else None)"

text \<open>Following the waits from \<open>i\<close> ends at \<open>j\<close>, which waits for nobody.\<close>

inductive leads_to :: "(nat \<Rightarrow> nat option) \<Rightarrow> nat \<Rightarrow> nat \<Rightarrow> bool" for f where
  stop: "f i = None \<Longrightarrow> leads_to f i i"
| follow: "f i = Some k \<Longrightarrow> leads_to f k j \<Longrightarrow> leads_to f i j"

lemma leads_to_end: "leads_to f i j \<Longrightarrow> f j = None"
  by (induction rule: leads_to.induct) auto

lemma leads_to_target: "leads_to f i j \<Longrightarrow> j \<noteq> i \<Longrightarrow> \<exists>k. f k = Some j"
  by (induction rule: leads_to.induct) auto

lemma leads_to_fewer:
  assumes "leads_to f i j" and "\<And>k. g k = None \<or> g k = f k"
  shows "\<exists>j'. leads_to g i j'"
  using assms(1)
proof (induction rule: leads_to.induct)
  case (stop i)
  then show ?case using assms(2) [of i] leads_to.stop [of g i] by auto
next
  case (follow i k j)
  then show ?case using assms(2) [of i] leads_to.stop [of g i] leads_to.follow [of g i k] by auto
qed

lemma no_deadlock_walk:
  "\<not> deadlock n c r s \<Longrightarrow> r < task_pool_count s \<Longrightarrow> \<exists>j. leads_to ((waits_for s)(c := x)) r j"
proof (induction n arbitrary: r)
  case (Suc n)
  then have rc: "r \<noteq> c" by (auto split: if_splits)
  show ?case
  proof (cases "waits_for s r")
    case None
    then have "((waits_for s)(c := x)) r = None" using rc by simp
    then show ?thesis by (blast intro: leads_to.stop)
  next
    case (Some k)
    then have w: "t_state (task_pool s ! r) = TASK_BLOCKED_SEND" "task_for_pid (t_send_to (task_pool s ! r)) s = Some k"
      by (auto simp: waits_for_def split: if_splits)
    then have "k < task_pool_count s" "t_send_to (task_pool s ! r) \<noteq> 0"
      by (auto simp: task_for_pid_def Let_def PID_SLOT_def split: if_splits)
    moreover from this w Suc.prems(1) rc have "\<not> deadlock n c k s" by simp
    ultimately obtain j where "leads_to ((waits_for s)(c := x)) k j" using Suc.IH [of k] by blast
    moreover have "((waits_for s)(c := x)) r = Some k" using Some rc by simp
    ultimately show ?thesis by (blast intro: leads_to.follow)
  qed
qed simp

lemma leads_to_park:
  assumes "\<And>i. \<exists>j. leads_to f i j" and "\<exists>j. leads_to (f(c := Some r)) r j"
  shows "\<exists>j. leads_to (f(c := Some r)) i j"
proof -
  let ?g = "f(c := Some r)"
  have "?g c = Some r" by simp
  then have c: "\<exists>j. leads_to ?g c j" using assms(2) leads_to.follow [of ?g c r] by blast
  from assms(1) obtain j where "leads_to f i j" by blast
  then show ?thesis
  proof (induction rule: leads_to.induct)
    case (stop i)
    then have "i = c \<or> ?g i = None" by simp
    then show ?case using c leads_to.stop [of ?g i] by blast
  next
    case (follow i k j)
    then have "i = c \<or> ?g i = Some k" by simp
    then show ?case using c follow.IH leads_to.follow [of ?g i k] by blast
  qed
qed

section \<open>The invariant\<close>

definition alive :: "task \<Rightarrow> bool" where
  "alive t \<longleftrightarrow> t_state t \<noteq> TASK_FREE \<and> t_state t \<noteq> TASK_ZOMBIE"

definition ipc_ok :: "'a ipc_st_scheme \<Rightarrow> bool" where
  "ipc_ok s \<longleftrightarrow> tasks_ok s \<and> length (pending s) = MAX_TASKS \<and> length (pending_valid s) = MAX_TASKS
     \<and> length (pending_timed s) = MAX_TASKS
     \<and> t_state (task_pool s ! 0) \<noteq> TASK_BLOCKED_SEND
     \<and> (\<forall>i < task_pool_count s. t_state (task_pool s ! i) = TASK_BLOCKED_SEND \<longrightarrow> waits_for s i \<noteq> None \<and> pending_valid s ! i)
     \<and> (\<forall>i. \<exists>j. leads_to (waits_for s) i j)"

text \<open>
  A step that parks no sender: identities and life stay, and a task still parked in a send is
  one that was, towards the same target.
\<close>

definition calms :: "'a ipc_st_scheme \<Rightarrow> 'a ipc_st_scheme \<Rightarrow> bool" where
  "calms s s' \<longleftrightarrow> task_pool_count s' = task_pool_count s \<and> length (task_pool s') = length (task_pool s)
     \<and> length (pending s') = length (pending s) \<and> length (pending_valid s') = length (pending_valid s)
     \<and> length (pending_timed s') = length (pending_timed s)
     \<and> (\<forall>i < length (task_pool s). t_id (task_pool s' ! i) = t_id (task_pool s ! i) \<and> t_gen (task_pool s' ! i) = t_gen (task_pool s ! i)
          \<and> alive (task_pool s' ! i) = alive (task_pool s ! i)
          \<and> (t_state (task_pool s' ! i) = TASK_FREE \<longleftrightarrow> t_state (task_pool s ! i) = TASK_FREE)
          \<and> (t_state (task_pool s' ! i) = TASK_BLOCKED_SEND \<longrightarrow> t_state (task_pool s ! i) = TASK_BLOCKED_SEND
               \<and> t_send_to (task_pool s' ! i) = t_send_to (task_pool s ! i) \<and> pending s' ! i = pending s ! i
               \<and> (pending_valid s ! i \<longrightarrow> pending_valid s' ! i)))"

lemma calms_refl [simp]: "calms s s"
  by (simp add: calms_def)

lemma calms_trans: "calms s t \<Longrightarrow> calms t u \<Longrightarrow> calms s u"
  by (auto simp: calms_def)

lemma task_for_pid_alive:
  "task_for_pid pid s = Some j \<longleftrightarrow> j = unat (PID_SLOT pid) \<and> 0 < j \<and> j < task_pool_count s
     \<and> alive (task_pool s ! j) \<and> word_of_int (t_id (task_pool s ! j)) = pid"
  by (auto simp: task_for_pid_def alive_def Let_def)

lemma task_for_pid_calms:
  assumes "calms s s'" and "task_pool_count s \<le> length (task_pool s)"
  shows "task_for_pid pid s' = task_for_pid pid s"
proof -
  have "task_for_pid pid s' = Some j \<longleftrightarrow> task_for_pid pid s = Some j" for j
    using assms by (auto simp: task_for_pid_alive calms_def)
  then show ?thesis by (metis not_None_eq)
qed

lemma ipc_okD:
  assumes "ipc_ok s"
  shows "length (task_pool s) = MAX_TASKS" "task_pool_count s \<le> MAX_TASKS" "length (pending_valid s) = MAX_TASKS"
    "length (pending_timed s) = MAX_TASKS" "length (pending s) = MAX_TASKS" "tasks_ok s"
  using assms by (simp_all add: ipc_ok_def tasks_ok_def)

lemma calms_tasks_ok: "tasks_ok s \<Longrightarrow> calms s s' \<Longrightarrow> tasks_ok s'"
  by (auto simp: tasks_ok_def calms_def)

lemma calms_ok:
  assumes "ipc_ok s" and "calms s s'"
  shows "ipc_ok s'"
proof -
  have le: "task_pool_count s \<le> length (task_pool s)" using ipc_okD [OF assms(1)] by simp
  note pid = task_for_pid_calms [OF assms(2) le]
  have w: "waits_for s' i = None \<or> waits_for s' i = waits_for s i" for i
    using assms(2) le by (auto simp: waits_for_def pid calms_def)
  have "\<exists>j. leads_to (waits_for s') i j" for i
  proof -
    obtain j where "leads_to (waits_for s) i j" using assms(1) unfolding ipc_ok_def by blast
    then show ?thesis using w by (rule leads_to_fewer)
  qed
  moreover have "waits_for s' i \<noteq> None \<and> pending_valid s' ! i"
    if "i < task_pool_count s'" "t_state (task_pool s' ! i) = TASK_BLOCKED_SEND" for i
  proof -
    have c: "i < task_pool_count s" "i < length (task_pool s)" using that assms(2) le by (auto simp: calms_def)
    then have o: "t_state (task_pool s ! i) = TASK_BLOCKED_SEND" "t_send_to (task_pool s' ! i) = t_send_to (task_pool s ! i)"
      "pending_valid s ! i \<longrightarrow> pending_valid s' ! i"
      using that(2) assms(2) unfolding calms_def by blast+
    then have "waits_for s i \<noteq> None" "pending_valid s ! i" using c assms(1) unfolding ipc_ok_def by blast+
    with o c that show ?thesis by (simp add: waits_for_def pid)
  qed
  moreover have "t_state (task_pool s' ! 0) \<noteq> TASK_BLOCKED_SEND"
    using assms le unfolding calms_def ipc_ok_def by fastforce
  moreover have "tasks_ok s'" using ipc_okD(6) [OF assms(1)] assms(2) by (rule calms_tasks_ok)
  ultimately show ?thesis using assms unfolding ipc_ok_def calms_def by (metis (no_types, lifting))
qed

lemma nth_update: "xs[i := x] ! j = (if i = j \<and> i < length xs then x else xs ! j)"
  by (cases "i < length xs") (auto simp: nth_list_update list_update_beyond)

lemma update_twice: "xs[i := f (xs[i := x] ! i)] = xs[i := f x]"
  by (cases "i < length xs") (simp_all add: list_update_beyond)

lemma release_pool:
  "task_pool (release_sender i v s) = (task_pool s)[i := (task_pool s ! i)\<lparr>t_send_to := 0, t_send_deadline := 0, t_state := TASK_RUNNING\<rparr>]"
  "task_pool (release_receiver i v s') = (task_pool s')[i := (task_pool s' ! i)\<lparr>t_recv_buf := 0, t_recv_expect := 0, t_state := TASK_RUNNING\<rparr>]"
  by (simp_all add: release_sender_def release_receiver_def task_state_set_def task64_set_result_def task_upd_def Let_def
      update_twice [where f = "\<lambda>t. t\<lparr>t_state := TASK_RUNNING\<rparr>"])

lemma ipc_release_frame [simp]:
  "task_pool_count (release_sender i v s) = task_pool_count s" "pending (release_sender i v s) = pending s"
  "pending_valid (release_sender i v s) = (pending_valid s)[i := False]"
  "pending_timed (release_sender i v s) = (pending_timed s)[i := False]"
  "task_result (release_sender i v s) = (task_result s)(i \<mapsto> v)" "frames (release_sender i v s) = frames s"
  "user_pte (release_sender i v s) = user_pte s"
  "task_pool_count (release_receiver i v s) = task_pool_count s" "pending (release_receiver i v s) = pending s"
  "pending_valid (release_receiver i v s) = pending_valid s" "pending_timed (release_receiver i v s) = pending_timed s"
  "task_result (release_receiver i v s) = (task_result s)(i \<mapsto> v)" "frames (release_receiver i v s) = frames s"
  "user_pte (release_receiver i v s) = user_pte s"
  by (simp_all add: release_sender_def release_receiver_def task_state_set_def task64_set_result_def task_upd_def Let_def)

lemma calms_release_sender: "alive (task_pool s ! i) \<Longrightarrow> calms s (release_sender i v s)"
  by (auto simp: calms_def release_pool nth_update alive_def)

lemma calms_release_receiver: "alive (task_pool s ! i) \<Longrightarrow> calms s (release_receiver i v s)"
  by (auto simp: calms_def release_pool nth_update alive_def)

lemma copy_to_ipc [simp]:
  fixes s :: "'a ipc_st_scheme"
  shows "task_pool (snd (vm64_copy_to r a bs s)) = task_pool s"
    "task_pool_count (snd (vm64_copy_to r a bs s)) = task_pool_count s"
    "pending (snd (vm64_copy_to r a bs s)) = pending s" "pending_valid (snd (vm64_copy_to r a bs s)) = pending_valid s"
    "pending_timed (snd (vm64_copy_to r a bs s)) = pending_timed s" "task_result (snd (vm64_copy_to r a bs s)) = task_result s"
    "user_pte (snd (vm64_copy_to r a bs s)) = user_pte s"
  by (simp_all add: vm64_copy_to_def)

lemma task_upd_ipc [simp]:
  fixes s :: "'a ipc_st_scheme"
  shows "pending (task_upd i f s) = pending s" "pending_valid (task_upd i f s) = pending_valid s"
    "pending_timed (task_upd i f s) = pending_timed s" "pending (task_state_set t st s) = pending s"
    "pending_valid (task_state_set t st s) = pending_valid s" "pending_timed (task_state_set t st s) = pending_timed s"
  by (simp_all add: task_upd_def task_state_set_def split: option.split)

lemma deliver_state: "deliver r a m s = (v, s') \<Longrightarrow> s' = snd (vm64_copy_to (t_page_dir (task_pool s ! r)) a (message_bytes m) s)"
  by (auto simp: deliver_def split: prod.splits bool.splits)

lemma calms_deliver: "deliver r a m s = (v, s') \<Longrightarrow> calms s s'"
  by (auto dest!: deliver_state simp: calms_def)

lemma deliver_pool: "deliver r a m s = (v, s') \<Longrightarrow> task_pool s' = task_pool s"
  by (auto dest!: deliver_state)

lemma calms_set:
  assumes "task_pool s' = (task_pool s)[i := t]" and "task_pool_count s' = task_pool_count s"
    and "t_id t = t_id (task_pool s ! i) \<and> t_gen t = t_gen (task_pool s ! i)" and "alive t \<and> alive (task_pool s ! i)"
    and "t_state t \<noteq> TASK_BLOCKED_SEND"
    and "length (pending s') = length (pending s)"
    and "\<And>j. j \<noteq> i \<Longrightarrow> pending_valid s' ! j = pending_valid s ! j \<and> pending s' ! j = pending s ! j"
    and "length (pending_valid s') = length (pending_valid s)" and "length (pending_timed s') = length (pending_timed s)"
  shows "calms s s'"
  unfolding calms_def assms(1,2) using assms(3-9) by (auto simp: nth_update alive_def)

lemma calms_break: "calms s (break_deadlock n c sender s)"
proof (induction n c sender s rule: break_deadlock.induct)
  case (1 n cursor sender s)
  show ?case
  proof (cases "cursor = sender \<or> t_state (task_pool s ! cursor) \<noteq> TASK_BLOCKED_SEND")
    case False
    then have "calms s (release_sender cursor EDEADLK s)" by (intro calms_release_sender) (simp add: alive_def)
    with 1 False show ?thesis by (auto intro: calms_trans)
  qed auto
qed simp_all

lemma calms_send_now:
  assumes "alive (task_pool s ! r)" and "send_now c r m s = (v, s')"
  shows "calms s s'"
proof -
  obtain s1 where d: "deliver r (t_recv_buf (task_pool s ! r)) (m\<lparr>ms_from_id := task_pid c s\<rparr>) s = (v, s1)"
    "s' = release_receiver r v s1"
    using assms(2) by (auto simp: send_now_def split: prod.splits)
  with assms(1) show ?thesis
    using calms_trans [OF calms_deliver [OF d(1)] calms_release_receiver [of s1 r v]] deliver_pool [OF d(1)] by simp
qed

lemma park_ok:
  assumes "ipc_ok s" and "0 < c" and "c < task_pool_count s" and "t_state (task_pool s ! c) = TASK_RUNNING"
    and "task_for_pid d s = Some r" and "r \<noteq> c" and "\<not> deadlock MAX_TASKS c r s"
    and "task_pool s' = (task_pool s)[c := (task_pool s ! c)\<lparr>t_send_to := d, t_send_deadline := dl, t_state := TASK_BLOCKED_SEND\<rparr>]"
    and cs: "task_pool_count s' = task_pool_count s" and "pending_valid s' = (pending_valid s)[c := True]"
    and "length (pending s') = MAX_TASKS" and "length (pending_timed s') = MAX_TASKS"
  shows "ipc_ok s'"
proof -
  have len: "length (task_pool s) = MAX_TASKS" "c < MAX_TASKS" "task_pool_count s \<le> MAX_TASKS"
    "length (pending_valid s) = MAX_TASKS" "length (pending s) = MAX_TASKS"
    using ipc_okD [OF assms(1)] assms(3) by auto
  have pid: "task_for_pid q s' = task_for_pid q s" for q
  proof -
    have "task_for_pid q s' = Some j \<longleftrightarrow> task_for_pid q s = Some j" for j
      unfolding assms(8) cs task_for_pid_alive using assms(4) len by (auto simp: nth_update alive_def)
    then show ?thesis by (metis not_None_eq)
  qed
  have pool: "task_pool s' ! i = (if i = c then (task_pool s ! c)\<lparr>t_send_to := d, t_send_deadline := dl, t_state := TASK_BLOCKED_SEND\<rparr>
      else task_pool s ! i)" for i
    using len by (simp add: assms(8) nth_update)
  have pv: "pending_valid s' ! i = (i = c \<or> pending_valid s ! i)" for i
    using len by (simp add: assms(10) nth_update)
  have w: "waits_for s' = (waits_for s)(c := Some r)"
  proof
    fix i
    show "waits_for s' i = ((waits_for s)(c := Some r)) i"
      unfolding waits_for_def [of s'] pid cs pool using assms(3,5) by (simp add: waits_for_def)
  qed
  have "r < task_pool_count s" using assms(5) by (auto simp: task_for_pid_alive)
  from no_deadlock_walk [OF assms(7) this] have "\<exists>j. leads_to ((waits_for s)(c := Some r)) r j" .
  moreover have "\<exists>j. leads_to (waits_for s) i j" for i using assms(1) unfolding ipc_ok_def by blast
  ultimately have "\<exists>j. leads_to (waits_for s') i j" for i unfolding w by (rule leads_to_park [rotated])
  moreover have "waits_for s' i \<noteq> None \<and> pending_valid s' ! i"
    if "i < task_pool_count s'" "t_state (task_pool s' ! i) = TASK_BLOCKED_SEND" for i
    using that assms(1) unfolding w pv cs pool ipc_ok_def by (simp split: if_splits)
  moreover have "tasks_ok s'" using ipc_okD(6) [OF assms(1)] assms(4)
    unfolding tasks_ok_def cs assms(8) by (auto simp: nth_update split: if_splits)
  ultimately show ?thesis using assms(1,2,8,10-12) len pool [of 0] cs unfolding ipc_ok_def by simp
qed

lemma send_outcome:
  assumes "c < length (task_pool s)" and "c < length (pending s)" and "c < length (pending_valid s)"
    and "t_state (task_pool s ! c) = TASK_RUNNING"
  obtains (calm) "calms s (snd (send_internal cpu c d a dl timed s))"
  | (park) r bs where "task_for_pid d s = Some r" "r \<noteq> c" "\<not> deadlock MAX_TASKS c r s"
      "vm64_copy_from (t_page_dir (task_pool s ! c)) a MESSAGE_SIZE s = Some bs"
      "fst (send_internal cpu c d a dl timed s) = None"
      "snd (send_internal cpu c d a dl timed s)
         = s\<lparr>pending := (pending s)[c := bytes_message bs], pending_valid := (pending_valid s)[c := True],
             task_pool := (task_pool s)[c := (task_pool s ! c)\<lparr>t_send_to := d, t_send_deadline := dl, t_state := TASK_BLOCKED_SEND\<rparr>],
             pending_timed := (pending_timed s)[c := timed]\<rparr>"
proof (cases "task_for_pid d s")
  case (Some r)
  have r: "alive (task_pool s ! r)" using Some unfolding task_for_pid_alive by blast
  show ?thesis
  proof (cases "vm64_copy_from (t_page_dir (task_pool s ! c)) a MESSAGE_SIZE s")
    case bs: (Some bs)
    let ?p = "(task_pool s)[c := (task_pool s ! c)\<lparr>t_send_to := d, t_send_deadline := dl, t_state := TASK_BLOCKED_SEND\<rparr>]"
    define s3 where "s3 = s\<lparr>pending := (pending s)[c := bytes_message bs], pending_valid := (pending_valid s)[c := True],
      task_pool := ?p, pending_timed := (pending_timed s)[c := timed]\<rparr>"
    define s4 where "s4 = task_state_set (Some c) TASK_RUNNING (task_upd c (\<lambda>t. t\<lparr>t_send_to := 0, t_send_deadline := 0\<rparr>)
      (s3\<lparr>pending_valid := (pending_valid s3)[c := False], pending_timed := (pending_timed s3)[c := False]\<rparr>))"
    consider (same) "r = c" | (now) "r \<noteq> c" "receiver_waits r c s"
      | (dead) "r \<noteq> c" "\<not> receiver_waits r c s" "deadlock MAX_TASKS c r s"
      | (park) "r \<noteq> c" "\<not> receiver_waits r c s" "\<not> deadlock MAX_TASKS c r s" by blast
    then show ?thesis
    proof cases
      case same
      then show ?thesis using Some by (intro calm) (simp add: send_internal_def)
    next
      case now
      obtain v s1 where n: "send_now c r (bytes_message bs) s = (v, s1)" by fastforce
      with now Some bs calms_send_now [OF r n] show ?thesis by (intro calm) (simp add: send_internal_def)
    next
      case dead
      with Some bs calms_break show ?thesis by (intro calm) (simp add: send_internal_def)
    next
      case park
      have e: "send_internal cpu c d a dl timed s
        = (if task_pick_next (int c) cpu s3 = None then (Some EDEADLK, s4) else (None, s3))"
        using Some bs park assms(1) by (simp add: send_internal_def s3_def s4_def Let_def task_state_set_def task_upd_def)
      have p4: "task_pool s4 = (task_pool s)[c := (task_pool s ! c)\<lparr>t_send_to := 0, t_send_deadline := 0, t_state := TASK_RUNNING\<rparr>]"
        using assms(1) by (simp add: s4_def s3_def task_state_set_def task_upd_def)
      have "calms s s4" using assms(4)
        by (intro calms_set [OF p4]) (simp_all add: s4_def s3_def alive_def task_state_set_def task_upd_def)
      with e show ?thesis using that(2) [OF Some park(1,3) bs] that(1) by (cases "task_pick_next (int c) cpu s3") (simp_all add: s3_def)
    qed
  qed (use Some in \<open>intro calm, simp add: send_internal_def\<close>)
qed (intro calm, simp add: send_internal_def)

lemma send_ok:
  assumes "ipc_ok s" and "0 < c" and "c < task_pool_count s" and "t_state (task_pool s ! c) = TASK_RUNNING"
  shows "ipc_ok (snd (send_internal cpu c d a dl timed s))"
proof -
  have c: "c < length (task_pool s)" "c < length (pending s)" "c < length (pending_valid s)"
    using ipc_okD [OF assms(1)] assms(3) by simp_all
  from c assms(4) show ?thesis
  proof (cases rule: send_outcome [where cpu = cpu and d = d and a = a and dl = dl and timed = timed])
    case calm
    with assms(1) show ?thesis by (rule calms_ok)
  next
    case (park r bs)
    show ?thesis using ipc_okD [OF assms(1)] by (intro park_ok [OF assms park(1-3)]) (simp_all add: park(6))
  qed
qed

lemma calms_send_nb: "calms s (snd (ipc64_send_nb c d a s))"
proof (cases "task_for_pid d s")
  case (Some r)
  then have "alive (task_pool s ! r)" unfolding task_for_pid_alive by blast
  then have "calms s (snd (send_now c r m s))" for m
    using calms_send_now [OF _ prod.collapse [symmetric]] by blast
  with Some show ?thesis by (simp add: ipc64_send_nb_def split: option.split)
qed (simp add: ipc64_send_nb_def)

lemma calms_recv:
  assumes "c < length (task_pool s)" and "t_state (task_pool s ! c) = TASK_RUNNING"
  shows "calms s (snd (ipc64_recv cpu c e a s))"
proof -
  let ?s1 = "s\<lparr>task_pool := (task_pool s)[c := (task_pool s ! c)\<lparr>t_recv_buf := a, t_recv_expect := e, t_state := TASK_BLOCKED_RECV\<rparr>]\<rparr>"
  let ?s2 = "s\<lparr>task_pool := (task_pool s)[c := (task_pool s ! c)\<lparr>t_recv_buf := 0, t_recv_expect := 0, t_state := TASK_RUNNING\<rparr>]\<rparr>"
  have d: "calms s (snd (deliver c a m s))" for m using calms_deliver [OF prod.collapse [symmetric]] .
  have "calms s ?s1" "calms s ?s2" using assms(2) by (auto simp: calms_def nth_update alive_def)
  then have p: "calms s (snd (let s1 = task_state_set (Some c) TASK_BLOCKED_RECV
                        (task_upd c (\<lambda>t. t\<lparr>t_recv_buf := a, t_recv_expect := e\<rparr>) s)
             in if task_pick_next (int c) cpu s1 = None
                then (Some EDEADLK, task_state_set (Some c) TASK_RUNNING
                        (task_upd c (\<lambda>t. t\<lparr>t_recv_buf := 0, t_recv_expect := 0\<rparr>) s1))
                else (None, s1)))"
    using assms(1) by (simp add: task_state_set_def task_upd_def Let_def)
  have t: "calms s (release_sender slot v s1)"
    if "List.find (\<lambda>slot. eligible c e slot s) [1..<task_pool_count s] = Some slot"
      "deliver c a m s = (v, s1)" for slot m v s1
  proof -
    have "eligible c e slot s" using that(1) by (auto simp: find_Some_iff)
    then have "alive (task_pool s1 ! slot)" using deliver_pool [OF that(2)] by (simp add: eligible_def alive_def)
    from calms_trans [OF calms_deliver [OF that(2)] calms_release_sender [OF this]] show ?thesis .
  qed
  show ?thesis unfolding ipc64_recv_def using d p t
    by (auto split: option.split prod.split)
qed

lemma calms_died_slot: "calms s (died_slot pid slot s)"
proof -
  define s1 where "s1 = (if t_state (task_pool s ! slot) = TASK_BLOCKED_SEND \<and> t_send_to (task_pool s ! slot) = pid
    then release_sender slot ESRCH s else s)"
  have 1: "calms s s1" by (auto simp: s1_def alive_def intro!: calms_release_sender)
  show ?thesis
  proof (cases "t_state (task_pool s1 ! slot) = TASK_BLOCKED_RECV \<and> t_recv_buf (task_pool s1 ! slot) \<noteq> 0
      \<and> t_recv_expect (task_pool s1 ! slot) = pid")
    case True
    obtain v s2 where d: "deliver slot (t_recv_buf (task_pool s1 ! slot)) (died_message pid) s1 = (v, s2)" by fastforce
    have "alive (task_pool s2 ! slot)" using True deliver_pool [OF d] by (simp add: alive_def)
    then have "calms s (release_receiver slot v s2)"
      using calms_trans [OF 1 calms_trans [OF calms_deliver [OF d] calms_release_receiver]] by blast
    with True d show ?thesis by (simp add: died_slot_def s1_def [symmetric] Let_def)
  next
    case False
    with 1 show ?thesis by (auto simp: died_slot_def s1_def [symmetric] Let_def)
  qed
qed

definition free_of :: "u32 \<Rightarrow> nat \<Rightarrow> 'a ipc_st_scheme \<Rightarrow> bool" where
  "free_of pid i s \<longleftrightarrow> \<not> (t_state (task_pool s ! i) = TASK_BLOCKED_SEND \<and> t_send_to (task_pool s ! i) = pid)"

lemma free_of_calms: "calms s s' \<Longrightarrow> i < length (task_pool s) \<Longrightarrow> free_of pid i s \<Longrightarrow> free_of pid i s'"
  by (auto simp: calms_def free_of_def)

lemma died_slot_free: "slot < length (task_pool s) \<Longrightarrow> free_of pid slot (died_slot pid slot s)"
  by (auto simp: free_of_def died_slot_def release_pool nth_update Let_def dest!: deliver_pool split: prod.splits)

lemma died_walk:
  "set slots \<subseteq> {..<length (task_pool s)} \<Longrightarrow> calms s (fold (died_slot pid) slots s)
     \<and> (\<forall>i \<in> set slots. free_of pid i (fold (died_slot pid) slots s))"
proof (induction slots rule: rev_induct)
  case (snoc i slots)
  let ?s = "fold (died_slot pid) slots s"
  have c: "calms s ?s" and f: "\<forall>i \<in> set slots. free_of pid i ?s" using snoc by auto
  have l: "length (task_pool ?s) = length (task_pool s)" using c by (simp add: calms_def)
  have "free_of pid j (died_slot pid i ?s)" if "j \<in> set slots" for j
    using f that snoc.prems l by (intro free_of_calms [OF calms_died_slot]) auto
  moreover have "free_of pid i (died_slot pid i ?s)" using snoc.prems l by (intro died_slot_free) auto
  ultimately show ?case using calms_trans [OF c calms_died_slot] by auto
qed simp

lemma calms_tick: "calms s (ipc64_tick now s)"
proof -
  have "calms t (tick_sender now i t)" for i and t :: "'a ipc_st_scheme"
    by (auto simp: tick_sender_def alive_def intro!: calms_release_sender)
  then have "calms s (fold (tick_sender now) slots s)" for slots
    by (induction slots rule: rev_induct) (auto intro: calms_trans)
  then show ?thesis by (simp add: ipc64_tick_def)
qed

lemma pid_slot:
  assumes "ipc_ok s" and "i < task_pool_count s" and "t_state (task_pool s ! i) \<noteq> TASK_FREE"
  shows "unat (PID_SLOT (task_pid i s)) = i"
proof -
  have i: "i < MAX_TASKS" using assms(2) ipc_okD(2) [OF assms(1)] by simp
  have "t_id (task_pool s ! i) = task_id_of (t_gen (task_pool s ! i)) i" "unat (t_gen (task_pool s ! i)) < 0x8000"
    using ipc_okD(6) [OF assms(1)] assms(2,3) i by (auto simp: tasks_ok_def)
  then have "PID_SLOT (task_pid i s) = of_nat i" using task_id_of_slot i by (simp add: task_pid_def)
  moreover have "unat (of_nat i :: u32) = i" using i by (simp only: unat_of_nat) (rule mod_less, simp add: MAX_TASKS_def)
  ultimately show ?thesis by simp
qed

text \<open>
  The end of a task: its peers are released first, then the slot becomes a zombie, or is free at
  once when the parent ignores the death of its children.
\<close>

definition exit_task :: "nat \<Rightarrow> int \<Rightarrow> bool \<Rightarrow> 'a ipc_st_scheme \<Rightarrow> 'a ipc_st_scheme" where
  "exit_task i code reap s =
     (let s1 = ipc64_task_died (task_pid i s) s
      in if reap then task_free_slot_commit i s1 else task_mark_zombie_commit i code s1)"

lemma zombie_tasks_ok:
  assumes "tasks_ok s" and "i < task_pool_count s" and "t_state (task_pool s ! i) \<noteq> TASK_FREE"
  shows "tasks_ok (task_mark_zombie_commit i code s)"
  using assms by (auto simp: tasks_ok_def task_mark_zombie_commit_def task_upd_def nth_update)

lemma task_died_spec:
  assumes ok: "ipc_ok s" and i: "i < task_pool_count s" and live: "alive (task_pool s ! i)"
  defines "s1 \<equiv> s\<lparr>pending_valid := (pending_valid s)[i := False], pending_timed := (pending_timed s)[i := False]\<rparr>"
  shows "calms s1 (ipc64_task_died (task_pid i s) s)"
    and "0 < k \<Longrightarrow> k < task_pool_count s \<Longrightarrow> free_of (task_pid i s) k (ipc64_task_died (task_pid i s) s)"
proof -
  let ?pid = "task_pid i s"
  note d = ipc_okD [OF ok]
  have slot: "unat (PID_SLOT ?pid) = i" using live by (intro pid_slot [OF ok i]) (simp add: alive_def)
  have s2: "ipc64_task_died ?pid s = fold (died_slot ?pid) [1..<task_pool_count s1] s1"
    using d(2) i by (simp add: ipc64_task_died_def slot s1_def Let_def)
  have "set [1..<task_pool_count s1] \<subseteq> {..<length (task_pool s1)}" using d by (auto simp: s1_def)
  from died_walk [OF this, of ?pid] show "calms s1 (ipc64_task_died ?pid s)"
    "0 < k \<Longrightarrow> k < task_pool_count s \<Longrightarrow> free_of ?pid k (ipc64_task_died ?pid s)"
    unfolding s2 by (auto simp: s1_def)
qed

lemma dead_slot_ok:
  assumes ok: "ipc_ok s" and i: "0 < i" "i < task_pool_count s" and live: "alive (task_pool s ! i)"
    and s2: "s2 = ipc64_task_died (task_pid i s) s"
    and other: "\<And>k. k \<noteq> i \<Longrightarrow> task_pool s3 ! k = task_pool s2 ! k" and dead: "\<not> alive (task_pool s3 ! i)"
    and fr: "task_pool_count s3 = task_pool_count s2" "pending s3 = pending s2" "pending_valid s3 = pending_valid s2"
      "pending_timed s3 = pending_timed s2"
    and t3: "tasks_ok s2 \<Longrightarrow> t_state (task_pool s2 ! i) \<noteq> TASK_FREE \<Longrightarrow> tasks_ok s3"
  shows "ipc_ok s3"
proof -
  let ?pid = "task_pid i s"
  define s1 where "s1 = s\<lparr>pending_valid := (pending_valid s)[i := False], pending_timed := (pending_timed s)[i := False]\<rparr>"
  note d = ipc_okD [OF ok]
  have c: "calms s1 s2" and f: "\<And>k. 0 < k \<Longrightarrow> k < task_pool_count s \<Longrightarrow> free_of ?pid k s2"
    using task_died_spec [OF ok i(2) live] unfolding s2 s1_def by blast+
  have fr: "task_pool_count s3 = task_pool_count s" "pending s3 = pending s2" "pending_valid s3 = pending_valid s2"
    "pending_timed s3 = pending_timed s2" using c fr by (auto simp: calms_def s1_def)
  have kept: "t_id (task_pool s2 ! k) = t_id (task_pool s ! k)" "alive (task_pool s2 ! k) = alive (task_pool s ! k)"
    "t_state (task_pool s2 ! k) = TASK_BLOCKED_SEND \<Longrightarrow> t_state (task_pool s ! k) = TASK_BLOCKED_SEND
      \<and> t_send_to (task_pool s2 ! k) = t_send_to (task_pool s ! k) \<and> (k \<noteq> i \<longrightarrow> pending_valid s ! k \<longrightarrow> pending_valid s2 ! k)"
    if "k < MAX_TASKS" for k
    using c that d by (auto simp: calms_def s1_def)
  have tgt: "task_for_pid q s3 = task_for_pid q s" if "q \<noteq> ?pid" for q
  proof -
    have "task_for_pid q s3 = Some j \<longleftrightarrow> task_for_pid q s = Some j" for j
    proof (cases "j = i")
      case True
      then show ?thesis using that dead by (auto simp: task_for_pid_alive alive_def task_pid_def)
    next
      case False
      then show ?thesis using kept(1,2) [of j] d(2) fr(1) other [OF False] by (auto simp: task_for_pid_alive)
    qed
    then show ?thesis by (metis not_None_eq)
  qed
  have st: "waits_for s3 k = waits_for s k \<and> k \<noteq> i \<and> t_state (task_pool s ! k) = TASK_BLOCKED_SEND
      \<and> (pending_valid s ! k \<longrightarrow> pending_valid s3 ! k)"
    if "k < task_pool_count s" "t_state (task_pool s3 ! k) = TASK_BLOCKED_SEND" for k
  proof -
    have ki: "k \<noteq> i" using that dead by (auto simp: alive_def)
    then have b: "t_state (task_pool s2 ! k) = TASK_BLOCKED_SEND" using that other by simp
    have km: "k < MAX_TASKS" using that d(2) by simp
    note o = kept(3) [OF km b]
    have "k \<noteq> 0" using o ok by (cases k) (auto simp: ipc_ok_def)
    then have "t_send_to (task_pool s2 ! k) \<noteq> ?pid" using f [of k] that(1) b by (auto simp: free_of_def)
    with o that ki tgt [of "t_send_to (task_pool s ! k)"] show ?thesis
      by (simp add: waits_for_def fr other)
  qed
  have w: "waits_for s3 k = None \<or> waits_for s3 k = waits_for s k" for k
    using st [of k] by (cases "k < task_pool_count s \<and> t_state (task_pool s3 ! k) = TASK_BLOCKED_SEND")
      (auto simp: waits_for_def fr)
  have 1: "\<exists>j. leads_to (waits_for s3) k j" for k
  proof -
    obtain j where "leads_to (waits_for s) k j" using ok unfolding ipc_ok_def by blast
    then show ?thesis using w by (rule leads_to_fewer)
  qed
  have 2: "waits_for s3 k \<noteq> None \<and> pending_valid s3 ! k"
    if "k < task_pool_count s3" "t_state (task_pool s3 ! k) = TASK_BLOCKED_SEND" for k
    using st [of k] that ok unfolding fr(1) ipc_ok_def by metis
  have "tasks_ok s1" using d(6) unfolding tasks_ok_def s1_def by simp
  then have "tasks_ok s2" using c by (rule calms_tasks_ok)
  have "i < MAX_TASKS" using i(2) d(2) by simp
  from kept(2) [OF this] have "t_state (task_pool s2 ! i) \<noteq> TASK_FREE" using live unfolding alive_def by blast
  with \<open>tasks_ok s2\<close> have "tasks_ok s3" by (rule t3)
  moreover have "t_state (task_pool s ! 0) \<noteq> TASK_BLOCKED_SEND" using ok unfolding ipc_ok_def by blast
  then have "t_state (task_pool s3 ! 0) \<noteq> TASK_BLOCKED_SEND" using st [of 0] i by fastforce
  moreover have "length (pending s3) = MAX_TASKS" "length (pending_valid s3) = MAX_TASKS" "length (pending_timed s3) = MAX_TASKS"
    using c d unfolding fr calms_def s1_def by simp_all
  ultimately show "ipc_ok s3" using 1 2 unfolding ipc_ok_def fr(1) by blast
qed

lemma exit_ok:
  assumes ok: "ipc_ok s" and i: "0 < i" "i < task_pool_count s" and live: "alive (task_pool s ! i)"
  shows "ipc_ok (exit_task i code reap s)"
proof -
  define s2 where "s2 = ipc64_task_died (task_pid i s) s"
  have len: "length (task_pool s2) = MAX_TASKS" "i < task_pool_count s2"
    using task_died_spec(1) [OF ok i(2) live] ipc_okD(1) [OF ok] i(2) by (auto simp: calms_def s2_def)
  have il: "i < MAX_TASKS" using ipc_okD(2) [OF ok] i(2) by simp
  show ?thesis
  proof (cases reap)
    case True
    have "ipc_ok (task_free_slot_commit i s2)"
      by (rule dead_slot_ok [OF ok i live s2_def])
        (use len il in \<open>simp_all add: task_free_slot_commit_def task_free_slot_commit_ok(1) [unfolded task_free_slot_commit_def] alive_def\<close>)
    with True show ?thesis by (simp add: exit_task_def s2_def)
  next
    case False
    have "ipc_ok (task_mark_zombie_commit i code s2)"
      by (rule dead_slot_ok [OF ok i live s2_def])
        (use len il in \<open>simp_all add: task_mark_zombie_commit_def zombie_tasks_ok [unfolded task_mark_zombie_commit_def] alive_def\<close>)
    with False show ?thesis by (simp add: exit_task_def s2_def)
  qed
qed

text \<open>A dead or fresh slot that changes hands disturbs no parked sender.\<close>

lemma slot_change_ok:
  assumes ok: "ipc_ok s" and t: "tasks_ok s'" and other: "\<And>k. k \<noteq> i \<Longrightarrow> task_pool s' ! k = task_pool s ! k"
    and was: "i < task_pool_count s \<Longrightarrow> \<not> alive (task_pool s ! i)" and now: "t_state (task_pool s' ! i) \<noteq> TASK_BLOCKED_SEND"
    and le: "task_pool_count s \<le> task_pool_count s'"
    and grown: "\<And>k. task_pool_count s \<le> k \<Longrightarrow> k < task_pool_count s' \<Longrightarrow> k = i"
    and fr: "pending s' = pending s" "pending_valid s' = pending_valid s" "pending_timed s' = pending_timed s"
  shows "ipc_ok s'"
proof -
  note d = ipc_okD [OF ok]
  have st: "k \<noteq> i \<and> k < task_pool_count s \<and> t_state (task_pool s ! k) = TASK_BLOCKED_SEND \<and> waits_for s' k = waits_for s k"
    if "k < task_pool_count s'" "t_state (task_pool s' ! k) = TASK_BLOCKED_SEND" for k
  proof -
    have k: "k \<noteq> i" "k < task_pool_count s" using that now grown [of k] by (auto simp: not_less [symmetric])
    then have b: "t_state (task_pool s ! k) = TASK_BLOCKED_SEND" using that(2) other by simp
    with ok k obtain r where r: "task_for_pid (t_send_to (task_pool s ! k)) s = Some r"
      unfolding ipc_ok_def by (auto simp: waits_for_def)
    then have "r \<noteq> i" using was unfolding task_for_pid_alive by blast
    with r le have "task_for_pid (t_send_to (task_pool s ! k)) s' = Some r"
      unfolding task_for_pid_alive by (auto simp: other)
    with r k b that show ?thesis by (simp add: waits_for_def other)
  qed
  have w: "waits_for s' k = None \<or> waits_for s' k = waits_for s k" for k
    using st [of k] by (cases "k < task_pool_count s' \<and> t_state (task_pool s' ! k) = TASK_BLOCKED_SEND") (auto simp: waits_for_def)
  have 1: "\<exists>j. leads_to (waits_for s') k j" for k
  proof -
    obtain j where "leads_to (waits_for s) k j" using ok unfolding ipc_ok_def by blast
    then show ?thesis using w by (rule leads_to_fewer)
  qed
  have 2: "waits_for s' k \<noteq> None \<and> pending_valid s' ! k"
    if "k < task_pool_count s'" "t_state (task_pool s' ! k) = TASK_BLOCKED_SEND" for k
    using st [OF that] ok unfolding fr ipc_ok_def by metis
  have "t_state (task_pool s ! 0) \<noteq> TASK_BLOCKED_SEND" using ok unfolding ipc_ok_def by blast
  then have "t_state (task_pool s' ! 0) \<noteq> TASK_BLOCKED_SEND" using now other [of 0] by (cases "i = 0") auto
  then show ?thesis using t d(3-5) 1 2 unfolding ipc_ok_def fr by blast
qed

lemma spawn_ok:
  assumes "ipc_ok s"
  shows "ipc_ok (snd (task_alloc_slot s))"
proof (cases "task_alloc_slot s")
  case (Pair o' r)
  show ?thesis
  proof (cases o')
    case None
    then have "r = s" using Pair by (auto simp: task_alloc_slot_def alloc_candidate_def split: option.splits prod.splits if_splits)
    then show ?thesis using assms Pair by simp
  next
    case (Some i)
    then have al: "task_alloc_slot s = (Some i, r)" using Pair by simp
    obtain c where c: "alloc_candidate s = (Some i, c)"
      using al by (auto simp: task_alloc_slot_def split: prod.splits option.splits)
    note sp = task_alloc_slot_spec [OF ipc_okD(6) [OF assms] al] and cs = alloc_candidate_spec [OF ipc_okD(6) [OF assms] c]
    have cf: "pending c = pending s" "pending_valid c = pending_valid s" "pending_timed c = pending_timed s"
      using c by (auto simp: alloc_candidate_def split: option.splits if_splits)
    have rf: "task_pool_count r = task_pool_count c" "pending r = pending s" "pending_valid r = pending_valid s"
      "pending_timed r = pending_timed s"
      using al c cf by (auto simp: task_alloc_slot_def)
    have "ipc_ok r"
      by (rule slot_change_ok [OF assms sp(1,6)]) (use cs rf sp(3) in \<open>auto simp: alive_def\<close>)
    then show ?thesis using Pair by simp
  qed
qed

lemma reap_ok:
  assumes "ipc_ok s" and "i < task_pool_count s" and "t_state (task_pool s ! i) = TASK_ZOMBIE"
  shows "ipc_ok (task_free_slot_commit i s)"
proof -
  have "i < length (task_pool s)" using ipc_okD [OF assms(1)] assms(2) by simp
  then show ?thesis using assms
    by (intro slot_change_ok [OF assms(1) task_free_slot_commit_ok(1) [OF ipc_okD(6) [OF assms(1)] assms(2)], where i = i])
      (auto simp: task_free_slot_commit_def alive_def)
qed

section \<open>Runs\<close>

text \<open>
  The calls of the running tasks, the clock, and the birth, death and collection of tasks, in any
  order. A call that parks leaves the CPU, so its task makes none before it is released; slot 0 is
  the idle task and makes none.
\<close>

datatype ipc_op =
    ISend int nat u32 u64 u32 bool
  | INb nat u32 u64
  | IRecv int nat u32 u64
  | ITick u32
  | IExit nat int bool
  | ISpawn
  | IReap nat

definition runs :: "nat \<Rightarrow> 'a tasks_st_scheme \<Rightarrow> bool" where
  "runs c s \<longleftrightarrow> 0 < c \<and> c < task_pool_count s \<and> t_state (task_pool s ! c) = TASK_RUNNING"

fun ipc_step :: "ipc_op \<Rightarrow> 'a ipc_st_scheme \<Rightarrow> 'a ipc_st_scheme" where
  "ipc_step (ISend cpu c d a dl timed) s = (if runs c s then snd (send_internal cpu c d a dl timed s) else s)"
| "ipc_step (INb c d a) s = (if runs c s then snd (ipc64_send_nb c d a s) else s)"
| "ipc_step (IRecv cpu c e a) s = (if runs c s then snd (ipc64_recv cpu c e a s) else s)"
| "ipc_step (ITick now) s = ipc64_tick now s"
| "ipc_step (IExit i code reap) s =
     (if 0 < i \<and> i < task_pool_count s \<and> alive (task_pool s ! i) then exit_task i code reap s else s)"
| "ipc_step ISpawn s = snd (task_alloc_slot s)"
| "ipc_step (IReap i) s =
     (if i < task_pool_count s \<and> t_state (task_pool s ! i) = TASK_ZOMBIE then task_free_slot_commit i s else s)"

lemma step_ok: "ipc_ok s \<Longrightarrow> ipc_ok (ipc_step op s)"
proof (cases op)
  case (IRecv cpu c e a)
  assume "ipc_ok s"
  then show ?thesis using IRecv ipc_okD [of s] calms_ok [OF _ calms_recv [of c s cpu e a]] by (auto simp: runs_def)
qed (auto simp: runs_def intro: send_ok calms_ok [OF _ calms_send_nb] calms_ok [OF _ calms_tick] exit_ok spawn_ok reap_ok)

lemma run_ok: "ipc_ok s \<Longrightarrow> ipc_ok (fold ipc_step ops s)"
  by (induction ops arbitrary: s) (auto intro: step_ok)

definition ipc_boot :: "'a ipc_st_scheme \<Rightarrow> bool" where
  "ipc_boot s \<longleftrightarrow> task_pool s = replicate MAX_TASKS zero_task \<and> task_pool_count s = 0 \<and> length (pending s) = MAX_TASKS"

lemma boot_ok: "ipc_boot s \<Longrightarrow> ipc_ok (ipc64_init s)"
proof -
  assume b: "ipc_boot s"
  have "waits_for (ipc64_init s) i = None" for i using b by (simp add: waits_for_def ipc_boot_def ipc64_init_def)
  then have "\<exists>j. leads_to (waits_for (ipc64_init s)) i j" for i by (blast intro: leads_to.stop)
  moreover have "tasks_ok (ipc64_init s)" using b by (auto simp: tasks_ok_def ipc_boot_def ipc64_init_def zero_task_def)
  moreover have "(0::nat) < MAX_TASKS" by (simp add: MAX_TASKS_def)
  ultimately show ?thesis using b unfolding ipc_ok_def by (simp add: ipc_boot_def ipc64_init_def zero_task_def)
qed

section \<open>A parked message\<close>

lemma calms_parked:
  assumes "calms s s'" and "c < length (task_pool s)" and "t_state (task_pool s' ! c) = TASK_BLOCKED_SEND"
  shows "t_id (task_pool s' ! c) = t_id (task_pool s ! c) \<and> t_send_to (task_pool s' ! c) = t_send_to (task_pool s ! c)
    \<and> pending s' ! c = pending s ! c \<and> task_pool_count s' = task_pool_count s"
  using assms unfolding calms_def by blast

lemma exit_parked:
  assumes ok: "ipc_ok s" and i: "i < task_pool_count s" and live: "alive (task_pool s ! i)" and c: "c < task_pool_count s"
    and st: "t_state (task_pool (exit_task i code reap s) ! c) = TASK_BLOCKED_SEND"
  shows "t_id (task_pool (exit_task i code reap s) ! c) = t_id (task_pool s ! c)
    \<and> t_send_to (task_pool (exit_task i code reap s) ! c) = t_send_to (task_pool s ! c)
    \<and> pending (exit_task i code reap s) ! c = pending s ! c
    \<and> task_pool_count (exit_task i code reap s) = task_pool_count s"
proof -
  define s2 where "s2 = ipc64_task_died (task_pid i s) s"
  have cl: "calms (s\<lparr>pending_valid := (pending_valid s)[i := False], pending_timed := (pending_timed s)[i := False]\<rparr>) s2"
    using task_died_spec(1) [OF ok i live] unfolding s2_def .
  then have "length (task_pool s2) = MAX_TASKS" "c < MAX_TASKS" "i < MAX_TASKS"
    using ipc_okD [OF ok] c i by (auto simp: calms_def)
  with st have "c \<noteq> i"
    by (auto simp: exit_task_def s2_def [symmetric] task_free_slot_commit_def task_mark_zombie_commit_def Let_def split: if_splits)
  then have e: "task_pool (exit_task i code reap s) ! c = task_pool s2 ! c" "pending (exit_task i code reap s) = pending s2"
    "task_pool_count (exit_task i code reap s) = task_pool_count s2"
    by (auto simp: exit_task_def s2_def [symmetric] task_free_slot_commit_def task_mark_zombie_commit_def Let_def)
  from calms_parked [OF cl, of c] st c ipc_okD [OF ok] show ?thesis unfolding e by simp
qed

lemma step_parked:
  assumes ok: "ipc_ok s" and c: "c < task_pool_count s" and st: "t_state (task_pool s ! c) = TASK_BLOCKED_SEND"
    and st': "t_state (task_pool (ipc_step op s) ! c) = TASK_BLOCKED_SEND"
  shows "t_id (task_pool (ipc_step op s) ! c) = t_id (task_pool s ! c)
    \<and> t_send_to (task_pool (ipc_step op s) ! c) = t_send_to (task_pool s ! c) \<and> pending (ipc_step op s) ! c = pending s ! c
    \<and> task_pool_count s \<le> task_pool_count (ipc_step op s)"
proof -
  note d = ipc_okD [OF ok]
  have cl: "c < length (task_pool s)" using d c by simp
  show ?thesis
  proof (cases op)
    case (ISend cpu i dst a dl timed)
    show ?thesis
    proof (cases "runs i s")
      case True
      then have i: "i < length (task_pool s)" "i < length (pending s)" "i < length (pending_valid s)"
        "t_state (task_pool s ! i) = TASK_RUNNING" "i \<noteq> c" using d st by (auto simp: runs_def)
      from i(1-4) show ?thesis
      proof (cases rule: send_outcome [where cpu = cpu and d = dst and a = a and dl = dl and timed = timed])
        case calm
        then show ?thesis using calms_parked [OF _ cl] st' True ISend by simp
      next
        case (park r bs)
        then show ?thesis using True ISend i(5) by simp
      qed
    qed (simp add: ISend)
  next
    case (IRecv cpu i e a)
    show ?thesis
    proof (cases "runs i s")
      case True
      then have "calms s (snd (ipc64_recv cpu i e a s))" using d by (intro calms_recv) (auto simp: runs_def)
      then show ?thesis using calms_parked [OF _ cl] st' True IRecv by simp
    qed (simp add: IRecv)
  next
    case ISpawn
    obtain o' r where al: "task_alloc_slot s = (o', r)" by fastforce
    show ?thesis
    proof (cases o')
      case None
      then have "r = s" using al by (auto simp: task_alloc_slot_def alloc_candidate_def split: option.splits prod.splits if_splits)
      then show ?thesis using ISpawn al by simp
    next
      case (Some i)
      with al obtain k where k: "alloc_candidate s = (Some i, k)" "pending r = pending k" "task_pool_count r = task_pool_count k"
        by (auto simp: task_alloc_slot_def split: prod.splits option.splits)
      then have "pending r = pending s" by (auto simp: alloc_candidate_def split: option.splits if_splits)
      moreover have "c \<noteq> i" using alloc_candidate_spec(7) [OF d(6) k(1)] c st by auto
      ultimately show ?thesis
        using task_alloc_slot_spec(6) [OF d(6), of i r c] alloc_candidate_spec(5) [OF d(6) k(1)] k(3) al Some ISpawn by simp
    qed
  next
    case (IExit i code reap)
    then show ?thesis using exit_parked [OF ok _ _ c] st' by (auto split: if_splits)
  next
    case (IReap i)
    then show ?thesis using st by (cases "i = c") (auto simp: task_free_slot_commit_def)
  next
    case (INb i dst a)
    then show ?thesis using calms_parked [OF calms_send_nb cl] st' by (simp split: if_splits)
  next
    case (ITick now)
    then show ?thesis using calms_parked [OF calms_tick cl] st' by simp
  qed
qed

fun parked_through :: "nat \<Rightarrow> ipc_op list \<Rightarrow> 'a ipc_st_scheme \<Rightarrow> bool" where
  "parked_through c [] s = (t_state (task_pool s ! c) = TASK_BLOCKED_SEND)"
| "parked_through c (op # ops) s = (t_state (task_pool s ! c) = TASK_BLOCKED_SEND \<and> parked_through c ops (ipc_step op s))"

lemma run_parked:
  assumes "ipc_ok s" and "c < task_pool_count s" and "parked_through c ops s"
  shows "c < task_pool_count (fold ipc_step ops s) \<and> t_state (task_pool (fold ipc_step ops s) ! c) = TASK_BLOCKED_SEND
    \<and> t_id (task_pool (fold ipc_step ops s) ! c) = t_id (task_pool s ! c)
    \<and> t_send_to (task_pool (fold ipc_step ops s) ! c) = t_send_to (task_pool s ! c)
    \<and> pending (fold ipc_step ops s) ! c = pending s ! c"
  using assms
proof (induction ops arbitrary: s)
  case (Cons op ops)
  have p: "parked_through c ops (ipc_step op s)" "t_state (task_pool s ! c) = TASK_BLOCKED_SEND" using Cons.prems(3) by simp_all
  then have q: "t_state (task_pool (ipc_step op s) ! c) = TASK_BLOCKED_SEND" by (cases ops) simp_all
  note k = step_parked [OF Cons.prems(1,2) p(2) q]
  then have n: "c < task_pool_count (ipc_step op s)" using Cons.prems(2) by simp
  from Cons.IH [OF step_ok [OF Cons.prems(1)] n p(1)] k show ?case by simp
qed simp

lemma bit_le_value: "bit (le_value bs) k \<longleftrightarrow> k < 64 \<and> k div 8 < length bs \<and> bit (bs ! (k div 8)) (k mod 8)"
proof (induction bs arbitrary: k)
  case (Cons b bs)
  show ?case
  proof (cases "k < 8")
    case True
    then show ?thesis by (auto simp: bit_or_iff bit_push_bit_iff bit_unsigned_iff)
  next
    case False
    then obtain j where k: "k = j + 8" by (metis le_add_diff_inverse2 not_less)
    have "\<not> bit (ucast b :: u64) k" using False bit_imp_le_length [of b k] by (auto simp: bit_unsigned_iff)
    then have "bit (le_value (b # bs)) k \<longleftrightarrow> k < 64 \<and> bit (le_value bs) j" by (auto simp: bit_or_iff bit_push_bit_iff k)
    moreover have "(j + 8) div 8 = Suc (j div 8)" by simp
    ultimately show ?thesis unfolding Cons k by auto
  qed
qed simp

lemma le_bytes_u32_value:
  assumes "length bs = 4"
  shows "le_bytes 4 (ucast (ucast (le_value bs) :: u32)) = bs"
proof (rule nth_equalityI)
  fix i
  assume "i < length (le_bytes 4 (ucast (ucast (le_value bs) :: u32)))"
  then have i: "i < 4" by simp
  have "bit (le_bytes 4 (ucast (ucast (le_value bs) :: u32)) ! i) k = bit (bs ! i) k" if "k < 8" for k
    using i that assms by (auto simp: le_bytes_def bit_unsigned_iff bit_drop_bit_eq bit_le_value)
  then show "le_bytes 4 (ucast (ucast (le_value bs) :: u32)) ! i = bs ! i" by (intro bit_word_eqI) simp
qed (simp add: assms)

lemma message_image:
  assumes "length bs = MESSAGE_SIZE"
  shows "message_bytes ((bytes_message bs)\<lparr>ms_from_id := pid\<rparr>) = le_bytes 4 (ucast pid) @ drop 4 bs"
proof -
  have "length (take 4 (drop 4 bs)) = 4" using assms by (simp add: MESSAGE_SIZE_def)
  from le_bytes_u32_value [OF this] show ?thesis
    by (simp add: message_bytes_def bytes_message_def) (metis append_take_drop_id drop_drop numeral_Bit0)
qed

lemma find_only: "c \<in> set xs \<Longrightarrow> List.find (\<lambda>k. k = c) xs = Some c"
  by (induction xs) auto

lemma recv_takes:
  assumes ok: "ipc_ok s" and r: "runs r s" and c: "0 < c" "c < task_pool_count s"
    and st: "t_state (task_pool s ! c) = TASK_BLOCKED_SEND" and to: "t_send_to (task_pool s ! c) = task_pid r s"
    and acc: "vm64_user_access (t_page_dir (task_pool s ! r)) b MESSAGE_SIZE True s"
    and bs: "length (message_bytes ((pending s ! c)\<lparr>ms_from_id := task_pid c s\<rparr>)) = MESSAGE_SIZE"
  shows "\<exists>s1. vm64_copy_to (t_page_dir (task_pool s ! r)) b (message_bytes ((pending s ! c)\<lparr>ms_from_id := task_pid c s\<rparr>)) s = (True, s1)
    \<and> ipc64_recv cpu r (task_pid c s) b s = (Some 0, release_sender c 0 s1)"
proof -
  have rl: "r < task_pool_count s" "r \<noteq> c" "t_state (task_pool s ! r) \<noteq> TASK_FREE" using r st by (auto simp: runs_def)
  have slots: "unat (PID_SLOT (task_pid c s)) = c" "unat (PID_SLOT (task_pid r s)) = r"
    using pid_slot [OF ok c(2)] pid_slot [OF ok rl(1,3)] st by simp_all
  have ne: "task_pid c s \<noteq> task_pid r s" using slots rl(2) by metis
  have me: "task_for_pid (task_pid c s) s = Some c"
    using c st slots(1) by (simp add: task_for_pid_alive alive_def task_pid_def)
  have el: "eligible r (task_pid c s) k s \<longleftrightarrow> k = c" if "k < task_pool_count s" for k
  proof
    assume "eligible r (task_pid c s) k s"
    then have k: "t_state (task_pool s ! k) = TASK_BLOCKED_SEND" "task_pid k s = task_pid c s \<or> task_pid c s = 0"
      by (auto simp: eligible_def)
    have "task_pid c s \<noteq> 0" using slots(1) c(1) by (auto simp: PID_SLOT_def)
    then have "task_pid k s = task_pid c s" using k(2) by blast
    moreover have "unat (PID_SLOT (task_pid k s)) = k" using k(1) by (intro pid_slot [OF ok that]) simp
    ultimately show "k = c" using slots(1) by metis
  next
    assume "k = c"
    moreover have "pending_valid s ! c" using ok c(2) st unfolding ipc_ok_def by blast
    ultimately show "eligible r (task_pid c s) k s" using st to by (simp add: eligible_def)
  qed
  have "List.find (\<lambda>k. eligible r (task_pid c s) k s) [1..<task_pool_count s] = Some c"
  proof -
    have "List.find (\<lambda>k. eligible r (task_pid c s) k s) [1..<task_pool_count s] = List.find (\<lambda>k. k = c) [1..<task_pool_count s]"
      using el by (intro find_cong) auto
    also have "\<dots> = Some c" using c by (intro find_only) simp
    finally show ?thesis .
  qed
  moreover obtain s1 where "vm64_copy_to (t_page_dir (task_pool s ! r)) b
      (message_bytes ((pending s ! c)\<lparr>ms_from_id := task_pid c s\<rparr>)) s = (True, s1)"
    using acc bs by (simp add: vm64_copy_to_def)
  ultimately show ?thesis using acc ne me by (simp add: ipc64_recv_def deliver_def)
qed

section \<open>Properties\<close>

text \<open>
  C4. Sends never wait for each other in a circle: after any calls, deaths, births and ticks from
  boot, every task parked in a send holds a valid message for a task that lives, and following who
  waits for whom from it ends, after finitely many tasks, at a live task that is not parked in a
  send and so can still receive.
\<close>

theorem ipc_no_send_cycle:
  assumes "ipc_boot b" and "s = fold ipc_step ops (ipc64_init b)" and "i < task_pool_count s"
    and "t_state (task_pool s ! i) = TASK_BLOCKED_SEND"
  shows "pending_valid s ! i \<and> task_for_pid (t_send_to (task_pool s ! i)) s \<noteq> None
    \<and> (\<exists>j. leads_to (waits_for s) i j \<and> j \<noteq> i \<and> j < task_pool_count s \<and> alive (task_pool s ! j)
         \<and> t_state (task_pool s ! j) \<noteq> TASK_BLOCKED_SEND)"
proof -
  have ok: "ipc_ok s" unfolding assms(2) by (intro run_ok boot_ok assms(1))
  then have p: "waits_for s i \<noteq> None" "pending_valid s ! i" using assms(3,4) unfolding ipc_ok_def by blast+
  obtain j where j: "leads_to (waits_for s) i j" using ok unfolding ipc_ok_def by blast
  have "j \<noteq> i" using leads_to_end [OF j] p(1) by auto
  then have al: "j < task_pool_count s \<and> alive (task_pool s ! j)" using leads_to_target [OF j] by (auto simp: waits_for_def task_for_pid_alive split: if_splits)
  have "t_state (task_pool s ! j) \<noteq> TASK_BLOCKED_SEND" using ok leads_to_end [OF j] al unfolding ipc_ok_def by blast
  with p j al \<open>j \<noteq> i\<close> assms(3,4) show ?thesis by (auto simp: waits_for_def)
qed

text \<open>
  C9. A parked message arrives intact and signed: if a send parks, and whatever the others do the
  sender stays parked until its destination receives from it, then that receive answers 0, puts
  into the buffer exactly the bytes the sender had at its address when it sent, with the first word
  replaced by the sender's own process id, and the sender is made runnable with the answer 0.
\<close>

theorem ipc_message_intact:
  assumes "ipc_boot b" and "s = fold ipc_step before (ipc64_init b)" and "runs c s"
    and "vm64_copy_from (t_page_dir (task_pool s ! c)) a MESSAGE_SIZE s = Some bs"
    and "send_internal cpu c (task_pid r s') a dl timed s = (None, s1)"
    and "parked_through c between s1" and "s' = fold ipc_step between s1" and "runs r s'"
    and "vm64_user_access (t_page_dir (task_pool s' ! r)) d MESSAGE_SIZE True s'"
    and "inj_on (\<lambda>k. physical (t_page_dir (task_pool s' ! r)) (d + of_nat k) s') {..<MESSAGE_SIZE}"
    and "ipc64_recv cpu' r (task_pid c s) d s' = (v, s2)"
  shows "v = Some 0 \<and> vm64_copy_from (t_page_dir (task_pool s' ! r)) d MESSAGE_SIZE s2 = Some (le_bytes 4 (ucast (task_pid c s)) @ drop 4 bs)
    \<and> t_state (task_pool s2 ! c) = TASK_RUNNING \<and> task_result s2 c = Some 0"
proof -
  have ok: "ipc_ok s" unfolding assms(2) by (intro run_ok boot_ok assms(1))
  have c: "c < length (task_pool s)" "c < length (pending s)" "c < length (pending_valid s)" "0 < c" "c < task_pool_count s"
    "t_state (task_pool s ! c) = TASK_RUNNING" using assms(3) ipc_okD [OF ok] by (auto simp: runs_def)
  have s1: "task_pool_count s1 = task_pool_count s \<and> t_id (task_pool s1 ! c) = t_id (task_pool s ! c)
      \<and> t_send_to (task_pool s1 ! c) = task_pid r s' \<and> pending s1 ! c = bytes_message bs"
    using c(1-3,6)
  proof (cases rule: send_outcome [where cpu = cpu and d = "task_pid r s'" and a = a and dl = dl and timed = timed])
    case calm
    have "t_state (task_pool s1 ! c) = TASK_BLOCKED_SEND" using assms(6) by (cases between) simp_all
    then show ?thesis using calm c(1,6) assms(5) unfolding calms_def by (metis snd_conv task_state.distinct(1))
  next
    case (park q cs)
    then show ?thesis using assms(4,5) c by simp
  qed
  have ok1: "ipc_ok s1" using send_ok [OF ok c(4-6), of cpu "task_pid r s'" a dl timed] assms(5) by simp
  have k: "c < task_pool_count s' \<and> t_state (task_pool s' ! c) = TASK_BLOCKED_SEND \<and> t_id (task_pool s' ! c) = t_id (task_pool s1 ! c)
      \<and> t_send_to (task_pool s' ! c) = t_send_to (task_pool s1 ! c) \<and> pending s' ! c = pending s1 ! c"
    unfolding assms(7) using s1 c(5) by (intro run_parked [OF ok1 _ assms(6)]) simp
  have pid: "task_pid c s' = task_pid c s" using k s1 by (simp add: task_pid_def)
  have len: "length bs = MESSAGE_SIZE" using assms(4) by (auto simp: vm64_copy_from_def split: if_splits)
  have ok': "ipc_ok s'" unfolding assms(7) by (rule run_ok [OF ok1])
  have im: "message_bytes ((pending s' ! c)\<lparr>ms_from_id := task_pid c s'\<rparr>) = le_bytes 4 (ucast (task_pid c s)) @ drop 4 bs"
    using k s1 message_image [OF len] by (simp add: pid)
  have lm: "length (le_bytes 4 (ucast (task_pid c s)) @ drop 4 bs) = MESSAGE_SIZE" using len by (simp add: MESSAGE_SIZE_def)
  obtain s3 where s3: "vm64_copy_to (t_page_dir (task_pool s' ! r)) d (le_bytes 4 (ucast (task_pid c s)) @ drop 4 bs) s' = (True, s3)"
    "ipc64_recv cpu' r (task_pid c s) d s' = (Some 0, release_sender c 0 s3)"
    using recv_takes [OF ok' assms(8) c(4), of d cpu'] k s1 assms(9) lm im by (auto simp: pid)
  have f: "task_pool s3 = task_pool s'" "user_pte s3 = user_pte s'"
    using copy_to_ipc [of "t_page_dir (task_pool s' ! r)" d "le_bytes 4 (ucast (task_pid c s)) @ drop 4 bs" s'] by (simp_all add: s3(1))
  have s2: "v = Some 0" "s2 = release_sender c 0 s3" using assms(11) s3(2) by simp_all
  have "vm64_copy_from (t_page_dir (task_pool s' ! r)) d MESSAGE_SIZE s2 = Some (le_bytes 4 (ucast (task_pid c s)) @ drop 4 bs)"
    using copy_from_after_copy [OF s3(1), of s2] assms(10) lm f by (simp add: s2)
  moreover have "c < length (task_pool s3)" using k ipc_okD [OF ok'] f by simp
  ultimately show ?thesis by (simp add: s2 release_pool)
qed

section \<open>Witnesses\<close>

definition ipc_demo :: ipc_st where
  "ipc_demo = \<lparr>task_pool = replicate MAX_TASKS zero_task, task_pool_count = 0, task_result = (\<lambda>_. None),
     user_pte = (\<lambda>root page. Some (push_bit 12 page, True)), frames = (\<lambda>_. 7), timer_ticks = 0,
     pending = replicate MAX_TASKS (died_message 0), pending_valid = replicate MAX_TASKS True,
     pending_timed = replicate MAX_TASKS True\<rparr>"

lemma ipc_demo_boot: "ipc_boot ipc_demo"
  by (simp add: ipc_boot_def ipc_demo_def)

definition ipc_demo1 :: ipc_st where
  "ipc_demo1 = fold ipc_step [ISpawn, ISpawn, ISpawn] (ipc64_init ipc_demo)"

definition ipc_demo2 :: ipc_st where
  "ipc_demo2 = (let s1 = ipc_demo1\<lparr>pending := (pending ipc_demo1)[1 := bytes_message (replicate 64 7)],
                                pending_valid := (pending_valid ipc_demo1)[1 := True]\<rparr>;
                          s2 = task_upd 1 (\<lambda>t. t\<lparr>t_send_to := 2, t_send_deadline := 0\<rparr>) s1
                in (task_state_set (Some 1) TASK_BLOCKED_SEND s2) \<lparr>pending_timed := (pending_timed s2)[1 := False]\<rparr>)"

lemma spawn_memory: "user_pte (snd (task_alloc_slot s)) = user_pte s" "frames (snd (task_alloc_slot s)) = frames s"
  by (auto simp: task_alloc_slot_def alloc_candidate_def task_upd_def split: option.split prod.split)

lemma ipc_demo_memory:
  "user_pte ipc_demo1 = user_pte ipc_demo" "frames ipc_demo1 = (\<lambda>_. 7)" "user_pte ipc_demo2 = user_pte ipc_demo"
  by (simp_all add: ipc_demo1_def ipc_demo2_def spawn_memory ipc64_init_def ipc_demo_def task_state_set_def
      task_upd_def Let_def)

lemma ipc_demo_access:
  fixes s :: ipc_st
  assumes "user_pte s = user_pte ipc_demo" and "a = 0x100000000 \<or> a = 0x100001000"
  shows "vm64_user_access root a MESSAGE_SIZE w s"
  using assms(2) by (auto simp: vm64_user_access_def byte_access_def list_all_iff assms(1) ipc_demo_def VM64_USER_BASE_def
      VM64_USER_LIMIT_def MESSAGE_SIZE_def)

lemma ipc_demo_tasks:
  "task_pool_count ipc_demo1 = 3" "t_state (task_pool ipc_demo1 ! 1) = TASK_RUNNING"
  "task_for_pid 2 ipc_demo1 = Some 2" "\<not> receiver_waits 2 1 ipc_demo1" "\<not> deadlock MAX_TASKS 1 2 ipc_demo1"
  "task_pick_next 1 0 ipc_demo2 \<noteq> None" "task_pid 1 ipc_demo1 = 1"
  "task_pool_count ipc_demo2 = 3" "t_state (task_pool ipc_demo2 ! 1) = TASK_BLOCKED_SEND"
  "t_state (task_pool ipc_demo2 ! 2) = TASK_RUNNING" "task_pid 2 ipc_demo2 = 2" "t_send_to (task_pool ipc_demo2 ! 1) = 2"
  by code_simp+

lemma ipc_demo_send: "send_internal 0 1 2 0x100000000 0 False ipc_demo1 = (None, ipc_demo2)"
proof -
  have "map (\<lambda>_. 7 :: u8) [0..<64] = replicate 64 7" by (simp add: map_replicate_const)
  then have "vm64_copy_from root 0x100000000 MESSAGE_SIZE ipc_demo1 = Some (replicate 64 7)" for root
    using ipc_demo_access [OF ipc_demo_memory(1), of "0x100000000" root False]
    by (simp add: vm64_copy_from_def ipc_demo_memory MESSAGE_SIZE_def)
  then show ?thesis using ipc_demo_tasks(3-6) by (simp add: send_internal_def ipc_demo2_def Let_def)
qed

theorem ipc_no_send_cycle_witness:
  "\<exists>j. leads_to (waits_for ipc_demo2) 1 j \<and> alive (task_pool ipc_demo2 ! j) \<and> pending_valid ipc_demo2 ! 1"
proof -
  have "ipc_demo2 = fold ipc_step [ISpawn, ISpawn, ISpawn, ISend 0 1 2 0x100000000 0 False] (ipc64_init ipc_demo)"
    using ipc_demo_send ipc_demo_tasks(1,2) by (simp add: ipc_demo1_def runs_def)
  moreover have "1 < task_pool_count ipc_demo2" by (simp add: ipc_demo_tasks)
  ultimately show ?thesis using ipc_no_send_cycle [OF ipc_demo_boot _ _ ipc_demo_tasks(9)] by blast
qed

lemma ipc_demo_tick: "fold ipc_step [ITick 5] ipc_demo2 = ipc_demo2"
proof -
  have "\<not> pending_timed ipc_demo2 ! 1" by code_simp
  moreover have "[1..<3] = [1, 2]" by (simp add: upt_rec)
  ultimately show ?thesis using ipc_demo_tasks(8-10) by (simp add: ipc64_tick_def tick_sender_def)
qed

lemma ipc_demo_distinct: "inj_on (\<lambda>k. physical root (0x100001000 + of_nat k) ipc_demo2) {..<MESSAGE_SIZE}"
proof (rule inj_onI)
  have id: "physical root a ipc_demo2 = a" for a
  proof -
    have "a AND 0xFFF = take_bit 12 a" by (simp add: take_bit_eq_mask mask_eq_exp_minus_1)
    moreover have "push_bit 12 (drop_bit 12 a) + take_bit 12 a = a" by (simp add: bits_ident)
    ultimately show ?thesis by (simp add: physical_def ipc_demo_memory ipc_demo_def)
  qed
  fix x y
  assume "x \<in> {..<MESSAGE_SIZE}" "y \<in> {..<MESSAGE_SIZE}"
    "physical root (0x100001000 + of_nat x) ipc_demo2 = physical root (0x100001000 + of_nat y) ipc_demo2"
  then have "unat (of_nat x :: u64) = unat (of_nat y :: u64)" "x mod 2 ^ 64 = x" "y mod 2 ^ 64 = y"
    by (simp_all add: MESSAGE_SIZE_def id)
  then show "x = y" by (simp only: unat_of_nat len_of_numeral_defs) simp
qed

theorem ipc_message_intact_witness:
  "\<exists>s2. ipc64_recv 0 2 1 0x100001000 ipc_demo2 = (Some 0, s2) \<and> task_result s2 1 = Some 0
    \<and> vm64_copy_from (t_page_dir (task_pool ipc_demo2 ! 2)) 0x100001000 64 s2 = Some (le_bytes 4 1 @ replicate 60 7)"
proof -
  have "map (\<lambda>_. 7 :: u8) [0..<64] = replicate 64 7" by (simp add: map_replicate_const)
  then have c: "vm64_copy_from (t_page_dir (task_pool ipc_demo1 ! 1)) 0x100000000 MESSAGE_SIZE ipc_demo1 = Some (replicate 64 7)"
    using ipc_demo_access [OF ipc_demo_memory(1), of "0x100000000" _ False]
    by (simp add: vm64_copy_from_def ipc_demo_memory MESSAGE_SIZE_def)
  have r: "runs 1 ipc_demo1" "runs 2 ipc_demo2" using ipc_demo_tasks by (simp_all add: runs_def)
  have p: "parked_through 1 [ITick 5] ipc_demo2" using ipc_demo_tasks(9) ipc_demo_tick by simp
  have send: "send_internal 0 1 (task_pid 2 ipc_demo2) 0x100000000 0 False ipc_demo1 = (None, ipc_demo2)"
    using ipc_demo_send ipc_demo_tasks(11) by simp
  obtain v s2 where rv: "ipc64_recv 0 2 (task_pid 1 ipc_demo1) 0x100001000 ipc_demo2 = (v, s2)" by fastforce
  have acc: "vm64_user_access (t_page_dir (task_pool ipc_demo2 ! 2)) 0x100001000 MESSAGE_SIZE True ipc_demo2"
    by (intro ipc_demo_access ipc_demo_memory) simp
  from ipc_message_intact [OF ipc_demo_boot ipc_demo1_def r(1) c send p ipc_demo_tick [symmetric] r(2) acc ipc_demo_distinct rv]
  show ?thesis using rv unfolding ipc_demo_tasks(7) MESSAGE_SIZE_def by simp
qed

end
