(* ===== verification/Spec2Isabelle.thy ===== *)
theory Spec2Isabelle
  imports Capabilities Routes Ipv4 Dns Pledge Signals Resources Ipc
begin

text \<open>
  A verification development for the Mich kernel under \<^verbatim>\<open>src/\<close>: a capability kernel for x86-64
  with an object layer, message passing, a POSIX profile and a network stack. Paths below are
  relative to \<^verbatim>\<open>src/src/\<close>.

  \<^bold>\<open>How the program is modelled.\<close> Every C structure is a record with the source's fields, every
  operation a function of the state that returns the answer of the code and the new state, and
  machine integers are words of their width. The kernel serialises its tables with the locks of
  \<^verbatim>\<open>core/klock.c\<close> or with interrupts off, so a section the code runs under one lock is one atomic
  step, and interleavings of CPUs are sequences of such steps. The states are layered the way the
  modules are: \<open>tasks_st\<close> (the pool) is extended by \<open>objects_st\<close>, \<open>events_st\<close>, \<open>bridges_st\<close>,
  \<open>completions_st\<close> and \<open>timers_st\<close> on the object side and by \<open>runtime_st\<close>, \<open>pipes_st\<close> and
  \<open>signals_st\<close> or \<open>ipc_st\<close> on the process side; an operation of a lower layer works on every
  extension. A call that parks its task answers \<open>None\<close> (or \<open>Parked\<close>) and leaves the answer to
  whoever wakes it, as the code does through \<^verbatim>\<open>task64_set_result\<close>. A panic is \<open>None\<close>. Function
  pointers are tags: the destroy callback of an object is a \<open>destroy_fn\<close>, and the operations that
  may run one take a dispatcher, of which each component gives the one that knows the callbacks up
  to its own layer.

  \<^bold>\<open>The theories.\<close>

  \<^item> \<open>Prelude\<close> has the integer types, the loops over tables, rings and generation counters that the
    components share; \<open>Interfaces\<close> the contracts \<open>bounded_fifo\<close>, \<open>id_table\<close> and \<open>gen_table\<close>.
  \<^item> \<open>Tasks\<close> is \<^verbatim>\<open>process/task.c\<close>: the transitions under the pool lock, slots and process ids, and
    the scheduler's pick. Shown: what a pick returns, that a claimed task stays with its CPU, and
    that a reused slot has a new process id.
  \<^item> \<open>Objects\<close> is \<^verbatim>\<open>objects/object.c\<close>: objects, reference counts, handles, rights, revocation.
    Its lemmas are proved in the locales \<open>destroy_contract\<close> (what a callback must keep) and
    \<open>leaf_destroy\<close> (a callback that releases nothing); the handle table is a \<open>gen_table\<close>.
  \<^item> \<open>Events\<close>, \<open>Bridge\<close>, \<open>Completions\<close> and \<open>Timers\<close> are \<^verbatim>\<open>objects/event.c\<close>, \<^verbatim>\<open>endpoint.c\<close> with
    \<^verbatim>\<open>bridge.c\<close>, \<^verbatim>\<open>completion.c\<close> and \<^verbatim>\<open>timer_object.c\<close>. Shown: no wakeup is lost, notifications arrive
    in order, a request is reported once and its id stays dead, ticks return and deadlines advance.
  \<^item> \<open>Capabilities\<close> takes the lemmas of the object layer from the interpretations of these
    dispatchers: closed handles are refused, rights are confined, references are counted,
    revocation is complete.
  \<^item> \<open>Pmm\<close> is \<^verbatim>\<open>core/pmm.c\<close>: pages are exclusive and none is lost; contiguous allocation is sound
    and complete.
  \<^item> \<open>Resources\<close> is \<^verbatim>\<open>objects/resource.c\<close> over \<open>Pmm\<close> and the objects: device memory, interrupts, memory
    for devices, pages, shared memory and scatter lists, with the state \<open>resources_st\<close> on top of
    \<open>bridges_st\<close>. Shown: no page belongs to two resources or to a resource and the free pool, none
    is lost on a failure path, and the allocator is never given back a page it did not hand out. A
    panic is the field \<open>panicked\<close> here, and what interrupt controllers, the IOMMU and the address
    spaces answer is an argument.
  \<^item> \<open>Runtime\<close> is the access to user memory of \<^verbatim>\<open>arch/x86_64/memory/vm.c\<close>, sleeping
    (\<^verbatim>\<open>process/posix_time.c\<close>) and the reports of children; \<open>Pipes\<close> is \<^verbatim>\<open>process/posix_pipe.c\<close>,
    \<open>Signals\<close> is \<^verbatim>\<open>process/posix_signal.c\<close>, \<open>Pledge\<close> is \<^verbatim>\<open>process/posix_pledge.c\<close>, and \<open>Ipc\<close> is
    \<^verbatim>\<open>arch/x86_64/kernel/ipc64.c\<close>. Shown: bytes and messages arrive intact, no reader, writer or
    circle of senders is left waiting for itself, a handler returns to what it interrupted, and
    promises only narrow.
  \<^item> \<open>Wire\<close>, \<open>Ethernet\<close>, \<open>Ipv4\<close>, \<open>Routes\<close> and \<open>Dns\<close> are \<^verbatim>\<open>net/checksum.h\<close>, \<^verbatim>\<open>ethernet.c\<close>,
    \<^verbatim>\<open>ipv4.c\<close>, \<^verbatim>\<open>route.c\<close> and \<^verbatim>\<open>dns_message.c\<close>. Shown: the checksum variants agree and detect an
    error, parsers accept exactly the well-formed packets and undo the encoders, the lookup is
    longest-prefix match, and the walk over compressed names stays in bounds.

  \<^bold>\<open>Bounds and fuel.\<close> Loops over tables are recursions over the list of their indices. The walk of
  the cycle check in \<open>Ipc\<close> has the code's own bound of \<^verbatim>\<open>MAX_TASKS\<close> steps, and the walk over a name
  in \<open>Dns\<close> is bounded by the jumps and the length of the message, as the code bounds it. The
  revocation sweep of \<open>Objects\<close> and the re-arming loop of \<open>Timers\<close> have no bound in the code: they
  are partial functions, shown to return.

  \<^bold>\<open>User memory\<close> is a page table (from an address-space root and a page number to a frame and
  whether it can be written) over one physical memory. A page that is shared copy-on-write counts
  as writable, since the copy routines resolve it first; building page tables is not modelled.

  \<^bold>\<open>Not modelled.\<close> Code that mostly drives hardware through ports, registers and descriptor tables
  (\<^verbatim>\<open>arch/x86_64/boot\<close>, \<^verbatim>\<open>cpu\<close>, \<^verbatim>\<open>drivers\<close>, \<^verbatim>\<open>platform\<close>) has no meaning without a model of the devices.
  The system call dispatcher and \<^verbatim>\<open>kernel.c\<close> are glue over every component, so only the parts that
  complete an operation of a modelled component are translated. The file systems, the block layer,
  the driver manager, TCP and the sockets are large components of their own that the modelled ones
  do not call.
\<close>

end
